(* ===== verification/ArtistModel.thy ===== *)
theory ArtistModel
  imports Prelude
begin

text \<open>
  The artist row (\<open>internal/artist/model.go\<close>) restricted to the fields the merge engine
  and the lock guard read or write, and the by-name field access of
  \<open>internal/artist/service.go\<close> and \<open>lockguard.go\<close>.

  A Go slice is \<open>None\<close> when it is nil and \<open>Some xs\<close> otherwise; the code tells the two
  apart in one place (\<open>setSlice\<close>). A Go map is \<open>None\<close> when it is nil. A time is its
  instant, a nil \<open>*time.Time\<close> is \<open>None\<close>.
\<close>

type_synonym slice = "string list option"

definition slice_list :: "slice \<Rightarrow> string list" where
  "slice_list s = (case s of None \<Rightarrow> [] | Some xs \<Rightarrow> xs)"

definition slice_equal :: "slice \<Rightarrow> slice \<Rightarrow> bool" where
  "slice_equal s t \<longleftrightarrow> slice_list s = slice_list t"

record artist =
  ID :: string
  Name :: string
  SortName :: string
  Type :: string
  Gender :: string
  Origin :: string
  Disambiguation :: string
  MusicBrainzID :: string
  AudioDBID :: string
  DiscogsID :: string
  WikidataID :: string
  DeezerID :: string
  SpotifyID :: string
  Genres :: slice
  Styles :: slice
  Moods :: slice
  YearsActive :: string
  Born :: string
  Formed :: string
  Died :: string
  Disbanded :: string
  Biography :: string
  Path :: string
  Locked :: bool
  LockSource :: string
  LockedAt :: "int option"
  LockedFields :: "string list"
  AudioDBIDFetchedAt :: "int option"
  DiscogsIDFetchedAt :: "int option"
  WikidataIDFetchedAt :: "int option"
  MetadataSources :: "(string \<rightharpoonup> string) option"

text \<open>The zero value \<open>Artist{}\<close>.\<close>

definition zero_artist :: artist where
  "zero_artist =
     \<lparr>ID = [], Name = [], SortName = [], Type = [], Gender = [], Origin = [], Disambiguation = [],
      MusicBrainzID = [], AudioDBID = [], DiscogsID = [], WikidataID = [], DeezerID = [],
      SpotifyID = [], Genres = None, Styles = None, Moods = None, YearsActive = [], Born = [],
      Formed = [], Died = [], Disbanded = [], Biography = [], Path = [], Locked = False,
      LockSource = [], LockedAt = None, LockedFields = [], AudioDBIDFetchedAt = None,
      DiscogsIDFetchedAt = None, WikidataIDFetchedAt = None, MetadataSources = None\<rparr>"

section \<open>Field access by name\<close>

definition slice_fields :: "string list" where
  "slice_fields = [''genres'', ''styles'', ''moods'']"

definition IsSliceField :: "string \<Rightarrow> bool" where
  "IsSliceField field \<longleftrightarrow> field \<in> set slice_fields"

definition SliceFieldFromArtist :: "artist \<Rightarrow> string \<Rightarrow> slice" where
  "SliceFieldFromArtist a field =
     (if field = ''genres'' then Genres a
      else if field = ''styles'' then Styles a
      else if field = ''moods'' then Moods a
      else None)"

definition FieldValueFromArtist :: "artist \<Rightarrow> string \<Rightarrow> string" where
  "FieldValueFromArtist a field =
     (if field = ''biography'' then Biography a
      else if field = ''genres'' then join_with '', '' (slice_list (Genres a))
      else if field = ''styles'' then join_with '', '' (slice_list (Styles a))
      else if field = ''moods'' then join_with '', '' (slice_list (Moods a))
      else if field = ''formed'' then Formed a
      else if field = ''born'' then Born a
      else if field = ''disbanded'' then Disbanded a
      else if field = ''died'' then Died a
      else if field = ''years_active'' then YearsActive a
      else if field = ''type'' then Type a
      else if field = ''gender'' then Gender a
      else if field = ''origin'' then Origin a
      else if field = ''name'' then Name a
      else if field = ''sort_name'' then SortName a
      else if field = ''disambiguation'' then Disambiguation a
      else if field = ''musicbrainz_id'' then MusicBrainzID a
      else if field = ''audiodb_id'' then AudioDBID a
      else if field = ''discogs_id'' then DiscogsID a
      else if field = ''wikidata_id'' then WikidataID a
      else if field = ''deezer_id'' then DeezerID a
      else if field = ''spotify_id'' then SpotifyID a
      else [])"

definition providerFieldMap :: "(string \<times> string) list" where
  "providerFieldMap =
     [(''musicbrainz_id'', ''musicbrainz''),
      (''audiodb_id'', ''audiodb''),
      (''discogs_id'', ''discogs''),
      (''wikidata_id'', ''wikidata''),
      (''deezer_id'', ''deezer''),
      (''spotify_id'', ''spotify'')]"

definition applyProviderFieldToArtist :: "artist \<Rightarrow> string \<Rightarrow> string \<Rightarrow> artist" where
  "applyProviderFieldToArtist a providerName v =
     (if providerName = ''musicbrainz'' then a\<lparr>MusicBrainzID := v\<rparr>
      else if providerName = ''audiodb'' then a\<lparr>AudioDBID := v\<rparr>
      else if providerName = ''discogs'' then a\<lparr>DiscogsID := v\<rparr>
      else if providerName = ''wikidata'' then a\<lparr>WikidataID := v\<rparr>
      else if providerName = ''deezer'' then a\<lparr>DeezerID := v\<rparr>
      else if providerName = ''spotify'' then a\<lparr>SpotifyID := v\<rparr>
      else a)"

definition setFieldOnArtist :: "artist \<Rightarrow> string \<Rightarrow> string \<Rightarrow> slice \<Rightarrow> artist" where
  "setFieldOnArtist a field v sl =
     (if field = ''genres'' then a\<lparr>Genres := sl\<rparr>
      else if field = ''styles'' then a\<lparr>Styles := sl\<rparr>
      else if field = ''moods'' then a\<lparr>Moods := sl\<rparr>
      else if field = ''biography'' then a\<lparr>Biography := v\<rparr>
      else if field = ''formed'' then a\<lparr>Formed := v\<rparr>
      else if field = ''born'' then a\<lparr>Born := v\<rparr>
      else if field = ''disbanded'' then a\<lparr>Disbanded := v\<rparr>
      else if field = ''died'' then a\<lparr>Died := v\<rparr>
      else if field = ''years_active'' then a\<lparr>YearsActive := v\<rparr>
      else if field = ''type'' then a\<lparr>Type := v\<rparr>
      else if field = ''gender'' then a\<lparr>Gender := v\<rparr>
      else if field = ''origin'' then a\<lparr>Origin := v\<rparr>
      else if field = ''name'' then a\<lparr>Name := v\<rparr>
      else if field = ''sort_name'' then a\<lparr>SortName := v\<rparr>
      else if field = ''disambiguation'' then a\<lparr>Disambiguation := v\<rparr>
      else if field \<in> set (map fst providerFieldMap)
        then applyProviderFieldToArtist a (the (map_of providerFieldMap field)) v
      else a)"

end
