(* ===== verification/Merge.thy ===== *)
theory Merge
  imports ArtistModel
begin

text \<open>
  The metadata merge engine, \<open>internal/artist/merge.go\<close>: the per-field policy tables, the
  two-layer strategy/clobber decision, the per-field locks, the post-merge type consistency
  pass and \<open>ApplyMetadata\<close> itself.

  A table row keeps the Go closure \<open>dst func(*Artist) *T\<close> as the pair of a reader
  (\<open>dst\<close>) and a writer (\<open>put\<close>). The contract of such a table is the locale
  \<open>field_table\<close>; both tables of the code are interpretations of it, and the loop
  lemmas are proved once inside it.
\<close>

section \<open>The contract of a field table\<close>

locale field_table =
  fixes tbl :: "'f list" and key :: "'f \<Rightarrow> string"
    and get :: "'f \<Rightarrow> 's \<Rightarrow> 'v" and put :: "'f \<Rightarrow> 'v \<Rightarrow> 's \<Rightarrow> 's"
  assumes distinct_keys: "distinct (map key tbl)"
    and get_put: "f \<in> set tbl \<Longrightarrow> get f (put f v s) = v"
    and put_get: "f \<in> set tbl \<Longrightarrow> put f (get f s) s = s"
    and get_put_other:
      "f \<in> set tbl \<Longrightarrow> g \<in> set tbl \<Longrightarrow> key f \<noteq> key g \<Longrightarrow> get f (put g v s) = get f s"
begin

definition loop :: "('f \<Rightarrow> 'v \<Rightarrow> 'v \<times> bool) \<Rightarrow> 'f list \<Rightarrow> 's \<times> bool \<Rightarrow> 's \<times> bool" where
  "loop upd fs st =
     fold (\<lambda>f (s, ch). let (v, c) = upd f (get f s) in (put f v s, c \<or> ch)) fs st"

lemma loop_Nil [simp]: "loop upd [] st = st"
  by (simp add: loop_def)

lemma loop_Cons:
  "loop upd (f # fs) (s, ch) =
     loop upd fs (put f (fst (upd f (get f s))) s, snd (upd f (get f s)) \<or> ch)"
  by (simp add: loop_def case_prod_beta)

lemma get_loop_other:
  assumes "g \<in> set tbl" "set fs \<subseteq> set tbl" "key g \<notin> key ` set fs"
  shows "get g (fst (loop upd fs (s, ch))) = get g s"
  using assms by (induction fs arbitrary: s ch) (auto simp: loop_Cons get_put_other)

lemma get_loop_part:
  assumes "f \<in> set fs" "set fs \<subseteq> set tbl" "distinct (map key fs)"
  shows "get f (fst (loop upd fs (s, ch))) = fst (upd f (get f s))"
  using assms
proof (induction fs arbitrary: s ch)
  case Nil
  then show ?case by simp
next
  case (Cons g fs)
  show ?case
  proof (cases "f = g")
    case True
    with Cons.prems show ?thesis
      by (auto simp: loop_Cons get_put get_loop_other image_iff)
  next
    case False
    with Cons.prems have "key f \<noteq> key g" by (auto simp: image_iff)
    with Cons.prems have "get f (put g v s) = get f s" for v
      by (intro get_put_other) auto
    with Cons False show ?thesis by (simp add: loop_Cons)
  qed
qed

lemma get_loop:
  "f \<in> set tbl \<Longrightarrow> get f (fst (loop upd tbl (s, ch))) = fst (upd f (get f s))"
  by (rule get_loop_part) (auto simp: distinct_keys)

lemma changed_loop_part:
  assumes "set fs \<subseteq> set tbl" "distinct (map key fs)"
  shows "snd (loop upd fs (s, ch)) \<longleftrightarrow> ch \<or> (\<exists>f\<in>set fs. snd (upd f (get f s)))"
  using assms
proof (induction fs arbitrary: s ch)
  case Nil
  then show ?case by simp
next
  case (Cons g fs)
  have "get f (put g v s) = get f s" if "f \<in> set fs" for f v
    using Cons.prems that by (intro get_put_other) (auto simp: image_iff)
  with Cons show ?case by (auto simp: loop_Cons)
qed

lemma changed_loop:
  "snd (loop upd tbl (s, ch)) \<longleftrightarrow> ch \<or> (\<exists>f\<in>set tbl. snd (upd f (get f s)))"
  by (rule changed_loop_part) (auto simp: distinct_keys)

text \<open>A loop whose every step keeps its field leaves the whole state as it was.\<close>

lemma loop_same_part:
  assumes "set fs \<subseteq> set tbl" "\<And>f. f \<in> set fs \<Longrightarrow> fst (upd f (get f s)) = get f s"
  shows "fst (loop upd fs (s, ch)) = s"
  using assms by (induction fs arbitrary: ch) (auto simp: loop_Cons put_get)

lemma loop_same:
  "(\<And>f. f \<in> set tbl \<Longrightarrow> fst (upd f (get f s)) = get f s) \<Longrightarrow> fst (loop upd tbl (s, ch)) = s"
  by (rule loop_same_part) auto

lemma loop_inv:
  assumes "set fs \<subseteq> set tbl" "\<And>f v s. f \<in> set tbl \<Longrightarrow> h (put f v s) = h s"
  shows "h (fst (loop upd fs (s, ch))) = h s"
  using assms by (induction fs arbitrary: s ch) (auto simp: loop_Cons)

end

section \<open>Strategies, options and updates\<close>

datatype merge_strategy = OverwriteAttempted | FillEmpty | NFOImport | SnapshotRestore

text \<open>The Go type is an int; \<open>ApplyMetadata\<close> refuses a value outside the four constants.\<close>

definition strategy_of_int :: "int \<Rightarrow> merge_strategy option" where
  "strategy_of_int n =
     (if n = 0 then Some OverwriteAttempted
      else if n = 1 then Some FillEmpty
      else if n = 2 then Some NFOImport
      else if n = 3 then Some SnapshotRestore
      else None)"

record metadata_update =
  uName :: string
  uSortName :: string
  uType :: string
  uGender :: string
  uOrigin :: string
  uDisambiguation :: string
  uMusicBrainzID :: string
  uAudioDBID :: string
  uDiscogsID :: string
  uWikidataID :: string
  uDeezerID :: string
  uSpotifyID :: string
  uBiography :: string
  uGenres :: slice
  uStyles :: slice
  uMoods :: slice
  uYearsActive :: string
  uBorn :: string
  uFormed :: string
  uDied :: string
  uDisbanded :: string

text \<open>\<open>Sources\<close> holds (field, provider) pairs.\<close>

record merge_options =
  AttemptedFields :: "string list"
  PopulatedFields :: "string list"
  FilterDatesByType :: bool
  Sources :: "(string \<times> string) list"
  optLockedFields :: "string list"
  Clobber :: bool

text \<open>The zero values \<open>MetadataUpdate{}\<close> and \<open>MergeOptions{}\<close>.\<close>

definition zero_update :: metadata_update where
  "zero_update =
     \<lparr>uName = [], uSortName = [], uType = [], uGender = [], uOrigin = [], uDisambiguation = [],
      uMusicBrainzID = [], uAudioDBID = [], uDiscogsID = [], uWikidataID = [], uDeezerID = [],
      uSpotifyID = [], uBiography = [], uGenres = None, uStyles = None, uMoods = None,
      uYearsActive = [], uBorn = [], uFormed = [], uDied = [], uDisbanded = []\<rparr>"

definition zero_options :: merge_options where
  "zero_options =
     \<lparr>AttemptedFields = [], PopulatedFields = [], FilterDatesByType = False, Sources = [],
      optLockedFields = [], Clobber = False\<rparr>"

datatype field_mode =
  modeSkip | modeUnconditional | modeNonEmpty | modeFillEmpty | modeAttemptedPopulated

section \<open>The policy tables\<close>

text \<open>One mode per strategy, in the order of the constants.\<close>

record 'v field_row =
  fname :: string
  upd_get :: "metadata_update \<Rightarrow> 'v"
  dst :: "artist \<Rightarrow> 'v"
  put :: "'v \<Rightarrow> artist \<Rightarrow> artist"
  modes :: "merge_strategy \<Rightarrow> field_mode"

fun modes4 :: "field_mode \<Rightarrow> field_mode \<Rightarrow> field_mode \<Rightarrow> field_mode \<Rightarrow> merge_strategy \<Rightarrow> field_mode" where
  "modes4 m0 m1 m2 m3 OverwriteAttempted = m0"
| "modes4 m0 m1 m2 m3 FillEmpty = m1"
| "modes4 m0 m1 m2 m3 NFOImport = m2"
| "modes4 m0 m1 m2 m3 SnapshotRestore = m3"

definition mergeStrFields :: "string field_row list" where
  "mergeStrFields =
    [\<lparr>fname = ''name'', upd_get = uName, dst = Name, put = (\<lambda>v. Name_update (\<lambda>_. v)),
      modes = modes4 modeSkip modeSkip modeNonEmpty modeUnconditional\<rparr>,
     \<lparr>fname = ''sort_name'', upd_get = uSortName, dst = SortName, put = (\<lambda>v. SortName_update (\<lambda>_. v)),
      modes = modes4 modeSkip modeSkip modeNonEmpty modeUnconditional\<rparr>,
     \<lparr>fname = ''type'', upd_get = uType, dst = Type, put = (\<lambda>v. Type_update (\<lambda>_. v)),
      modes = modes4 modeNonEmpty modeFillEmpty modeUnconditional modeUnconditional\<rparr>,
     \<lparr>fname = ''gender'', upd_get = uGender, dst = Gender, put = (\<lambda>v. Gender_update (\<lambda>_. v)),
      modes = modes4 modeNonEmpty modeFillEmpty modeUnconditional modeUnconditional\<rparr>,
     \<lparr>fname = ''origin'', upd_get = uOrigin, dst = Origin, put = (\<lambda>v. Origin_update (\<lambda>_. v)),
      modes = modes4 modeNonEmpty modeFillEmpty modeNonEmpty modeUnconditional\<rparr>,
     \<lparr>fname = ''disambiguation'', upd_get = uDisambiguation, dst = Disambiguation,
      put = (\<lambda>v. Disambiguation_update (\<lambda>_. v)),
      modes = modes4 modeNonEmpty modeSkip modeUnconditional modeUnconditional\<rparr>,
     \<lparr>fname = ''biography'', upd_get = uBiography, dst = Biography, put = (\<lambda>v. Biography_update (\<lambda>_. v)),
      modes = modes4 modeAttemptedPopulated modeFillEmpty modeNonEmpty modeUnconditional\<rparr>,
     \<lparr>fname = ''musicbrainz_id'', upd_get = uMusicBrainzID, dst = MusicBrainzID,
      put = (\<lambda>v. MusicBrainzID_update (\<lambda>_. v)),
      modes = modes4 modeFillEmpty modeFillEmpty modeNonEmpty modeUnconditional\<rparr>,
     \<lparr>fname = ''audiodb_id'', upd_get = uAudioDBID, dst = AudioDBID, put = (\<lambda>v. AudioDBID_update (\<lambda>_. v)),
      modes = modes4 modeFillEmpty modeFillEmpty modeNonEmpty modeUnconditional\<rparr>,
     \<lparr>fname = ''discogs_id'', upd_get = uDiscogsID, dst = DiscogsID, put = (\<lambda>v. DiscogsID_update (\<lambda>_. v)),
      modes = modes4 modeFillEmpty modeFillEmpty modeNonEmpty modeUnconditional\<rparr>,
     \<lparr>fname = ''wikidata_id'', upd_get = uWikidataID, dst = WikidataID, put = (\<lambda>v. WikidataID_update (\<lambda>_. v)),
      modes = modes4 modeFillEmpty modeFillEmpty modeNonEmpty modeUnconditional\<rparr>,
     \<lparr>fname = ''deezer_id'', upd_get = uDeezerID, dst = DeezerID, put = (\<lambda>v. DeezerID_update (\<lambda>_. v)),
      modes = modes4 modeFillEmpty modeFillEmpty modeNonEmpty modeUnconditional\<rparr>,
     \<lparr>fname = ''spotify_id'', upd_get = uSpotifyID, dst = SpotifyID, put = (\<lambda>v. SpotifyID_update (\<lambda>_. v)),
      modes = modes4 modeFillEmpty modeFillEmpty modeNonEmpty modeUnconditional\<rparr>,
     \<lparr>fname = ''years_active'', upd_get = uYearsActive, dst = YearsActive,
      put = (\<lambda>v. YearsActive_update (\<lambda>_. v)),
      modes = modes4 modeNonEmpty modeFillEmpty modeUnconditional modeUnconditional\<rparr>,
     \<lparr>fname = ''born'', upd_get = uBorn, dst = Born, put = (\<lambda>v. Born_update (\<lambda>_. v)),
      modes = modes4 modeAttemptedPopulated modeFillEmpty modeUnconditional modeUnconditional\<rparr>,
     \<lparr>fname = ''formed'', upd_get = uFormed, dst = Formed, put = (\<lambda>v. Formed_update (\<lambda>_. v)),
      modes = modes4 modeAttemptedPopulated modeFillEmpty modeUnconditional modeUnconditional\<rparr>,
     \<lparr>fname = ''died'', upd_get = uDied, dst = Died, put = (\<lambda>v. Died_update (\<lambda>_. v)),
      modes = modes4 modeAttemptedPopulated modeFillEmpty modeUnconditional modeUnconditional\<rparr>,
     \<lparr>fname = ''disbanded'', upd_get = uDisbanded, dst = Disbanded, put = (\<lambda>v. Disbanded_update (\<lambda>_. v)),
      modes = modes4 modeAttemptedPopulated modeFillEmpty modeUnconditional modeUnconditional\<rparr>]"

definition mergeSliceFields :: "slice field_row list" where
  "mergeSliceFields =
    [\<lparr>fname = ''genres'', upd_get = uGenres, dst = Genres, put = (\<lambda>v. Genres_update (\<lambda>_. v)),
      modes = modes4 modeAttemptedPopulated modeFillEmpty modeUnconditional modeUnconditional\<rparr>,
     \<lparr>fname = ''styles'', upd_get = uStyles, dst = Styles, put = (\<lambda>v. Styles_update (\<lambda>_. v)),
      modes = modes4 modeAttemptedPopulated modeFillEmpty modeUnconditional modeUnconditional\<rparr>,
     \<lparr>fname = ''moods'', upd_get = uMoods, dst = Moods, put = (\<lambda>v. Moods_update (\<lambda>_. v)),
      modes = modes4 modeAttemptedPopulated modeFillEmpty modeUnconditional modeUnconditional\<rparr>]"

interpretation str_table: field_table mergeStrFields fname dst put
  by unfold_locales (auto simp: mergeStrFields_def)

interpretation slice_table: field_table mergeSliceFields fname dst put
  by unfold_locales (auto simp: mergeSliceFields_def)

section \<open>Locks and field sets\<close>

definition isLocked :: "string set \<Rightarrow> string \<Rightarrow> bool" where
  "isLocked locked field \<longleftrightarrow> to_lower field \<in> locked"

definition normalize_tokens :: "string list \<Rightarrow> string set" where
  "normalize_tokens toks =
     set (filter (\<lambda>key. key \<noteq> []) (map (\<lambda>f. to_lower (trim_space f)) toks))"

definition buildLockedSet :: "string list list \<Rightarrow> string set" where
  "buildLockedSet fieldSets = normalize_tokens (concat fieldSets)"

definition normalizeFieldSet :: "string list \<Rightarrow> string set" where
  "normalizeFieldSet toks = normalize_tokens toks"

definition mergeableFieldNames :: "string list" where
  "mergeableFieldNames = map fname mergeStrFields @ map fname mergeSliceFields"

definition AllLockableFields :: "string list" where
  "AllLockableFields =
     [''name'', ''sort_name'', ''biography'', ''genres'', ''styles'', ''moods'', ''members'',
      ''type'', ''gender'', ''origin'', ''disambiguation'', ''formed'', ''born'', ''died'',
      ''disbanded'', ''years_active'', ''discogs_id'', ''audiodb_id'']"

definition lockableFieldNames :: "string list" where
  "lockableFieldNames = remdups (mergeableFieldNames @ map to_lower AllLockableFields)"

text \<open>The tokens \<open>reportUnenforceableLocks\<close> logs, sorted.\<close>

definition reportUnenforceableLocks :: "string list \<Rightarrow> string list" where
  "reportUnenforceableLocks tokens =
     sort (remdups (filter (\<lambda>t. t \<notin> set lockableFieldNames)
       (filter (\<lambda>key. key \<noteq> []) (map (\<lambda>f. to_lower (trim_space f)) tokens))))"

section \<open>Assignment primitives\<close>

text \<open>Each takes the old value of \<open>*dst\<close> and returns the new one and whether it changed.\<close>

definition setString :: "string \<Rightarrow> string \<Rightarrow> string \<times> bool" where
  "setString d v = (if d = v then (d, False) else (v, True))"

definition setNonEmpty :: "string \<Rightarrow> string \<Rightarrow> string \<times> bool" where
  "setNonEmpty d v = (if v = [] \<or> d = v then (d, False) else (v, True))"

definition fillEmpty :: "string \<Rightarrow> string \<Rightarrow> string \<times> bool" where
  "fillEmpty d v = (if d \<noteq> [] \<or> v = [] then (d, False) else (v, True))"

definition setSlice :: "slice \<Rightarrow> slice \<Rightarrow> slice \<times> bool" where
  "setSlice d v =
     (if slice_equal d v \<and> ((d = None) = (v = None)) then (d, False) else (v, True))"

definition fillEmptySlice :: "slice \<Rightarrow> slice \<Rightarrow> slice \<times> bool" where
  "fillEmptySlice d v =
     (if 0 < length (slice_list d) \<or> length (slice_list v) = 0 then (d, False) else (v, True))"

section \<open>The field loop\<close>

definition effectiveMode :: "field_mode \<Rightarrow> bool \<Rightarrow> field_mode" where
  "effectiveMode m clobber = (if m = modeUnconditional \<and> \<not> clobber then modeNonEmpty else m)"

text \<open>What the loops of \<open>applyFields\<close> read besides the artist.\<close>

record merge_ctx =
  cStrategy :: merge_strategy
  cLocked :: "string set"
  cAttempted :: "string set"
  cPopulated :: "string set"
  cClobber :: bool

definition str_step :: "merge_ctx \<Rightarrow> metadata_update \<Rightarrow> string field_row \<Rightarrow> string \<Rightarrow> string \<times> bool" where
  "str_step cx u f d =
     (if isLocked (cLocked cx) (fname f) then (d, False)
      else let v = upd_get f u in
        (case effectiveMode (modes f (cStrategy cx)) (cClobber cx) of
           modeSkip \<Rightarrow> (d, False)
         | modeUnconditional \<Rightarrow> setString d v
         | modeNonEmpty \<Rightarrow> setNonEmpty d v
         | modeFillEmpty \<Rightarrow> fillEmpty d v
         | modeAttemptedPopulated \<Rightarrow>
             (if fname f \<in> cAttempted cx \<and> fname f \<in> cPopulated cx then setString d v
              else (d, False))))"

definition slice_step :: "merge_ctx \<Rightarrow> metadata_update \<Rightarrow> slice field_row \<Rightarrow> slice \<Rightarrow> slice \<times> bool" where
  "slice_step cx u f d =
     (if isLocked (cLocked cx) (fname f) then (d, False)
      else let v = upd_get f u in
        (case effectiveMode (modes f (cStrategy cx)) (cClobber cx) of
           modeSkip \<Rightarrow> (d, False)
         | modeUnconditional \<Rightarrow> setSlice d v
         | modeNonEmpty \<Rightarrow> (if 0 < length (slice_list v) then setSlice d v else (d, False))
         | modeFillEmpty \<Rightarrow> fillEmptySlice d v
         | modeAttemptedPopulated \<Rightarrow>
             (if fname f \<in> cAttempted cx \<and> fname f \<in> cPopulated cx then setSlice d v
              else (d, False))))"

definition applyFields :: "artist \<Rightarrow> metadata_update \<Rightarrow> merge_ctx \<Rightarrow> artist \<times> bool" where
  "applyFields a u cx =
     fold (\<lambda>f (a, changed). let (v, c) = slice_step cx u f (dst f a) in (put f v a, c \<or> changed))
       mergeSliceFields
       (fold (\<lambda>f (a, changed). let (v, c) = str_step cx u f (dst f a) in (put f v a, c \<or> changed))
         mergeStrFields (a, False))"

section \<open>Type consistency\<close>

definition IsIndividualType :: "string \<Rightarrow> bool" where
  "IsIndividualType t \<longleftrightarrow> t \<in> {''solo'', ''person'', ''character''}"

definition FilterDatesByArtistType :: "artist \<Rightarrow> artist" where
  "FilterDatesByArtistType a =
     (if Type a \<in> {''solo'', ''person'', ''character''}
        then a\<lparr>Formed := [], Disbanded := []\<rparr>
      else if Type a \<in> {''group'', ''orchestra'', ''choir''}
        then a\<lparr>Born := [], Died := []\<rparr>
      else a)"

definition IsGenderlessType :: "string \<Rightarrow> bool" where
  "IsGenderlessType t \<longleftrightarrow> to_lower (trim_space t) \<in> {''group'', ''orchestra'', ''choir''}"

definition FilterGenderByArtistType :: "artist \<Rightarrow> artist" where
  "FilterGenderByArtistType a = (if IsGenderlessType (Type a) then a\<lparr>Gender := []\<rparr> else a)"

definition applyTypeConsistency :: "artist \<Rightarrow> string set \<Rightarrow> bool \<Rightarrow> artist" where
  "applyTypeConsistency a locked filterDates =
     (let beforeGender = Gender a;
          a = FilterGenderByArtistType a;
          a = (if isLocked locked ''gender'' then a\<lparr>Gender := beforeGender\<rparr> else a)
      in if \<not> filterDates then a
         else let born = Born a; died = Died a; formed = Formed a; disbanded = Disbanded a;
                  a = FilterDatesByArtistType a;
                  a = (if isLocked locked ''born'' then a\<lparr>Born := born\<rparr> else a);
                  a = (if isLocked locked ''died'' then a\<lparr>Died := died\<rparr> else a);
                  a = (if isLocked locked ''formed'' then a\<lparr>Formed := formed\<rparr> else a);
                  a = (if isLocked locked ''disbanded'' then a\<lparr>Disbanded := disbanded\<rparr> else a)
              in a)"

section \<open>ApplyMetadata\<close>

definition source_of :: "(string \<rightharpoonup> string) \<Rightarrow> string \<Rightarrow> string" where
  "source_of m k = (case m k of None \<Rightarrow> [] | Some v \<Rightarrow> v)"

fun record_sources :: "(string \<times> string) list \<Rightarrow> (string \<rightharpoonup> string) \<Rightarrow> bool \<Rightarrow> (string \<rightharpoonup> string) \<times> bool" where
  "record_sources [] m changed = (m, changed)"
| "record_sources ((field, prov) # srcs) m changed =
     (if source_of m field \<noteq> prov then record_sources srcs (m(field \<mapsto> prov)) True
      else record_sources srcs m changed)"

definition merge_context :: "artist \<Rightarrow> merge_strategy \<Rightarrow> merge_options \<Rightarrow> merge_ctx" where
  "merge_context a strategy opts =
     \<lparr>cStrategy = strategy,
      cLocked = buildLockedSet [LockedFields a, optLockedFields opts],
      cAttempted = normalizeFieldSet (AttemptedFields opts),
      cPopulated = normalizeFieldSet (PopulatedFields opts),
      cClobber = (Clobber opts \<or> strategy = SnapshotRestore)\<rparr>"

definition apply_metadata :: "artist \<Rightarrow> metadata_update \<Rightarrow> merge_strategy \<Rightarrow> merge_options \<Rightarrow> artist \<times> bool" where
  "apply_metadata a u strategy opts =
     (let cx = merge_context a strategy opts;
          (a, changed) = applyFields a u cx;
          a = applyTypeConsistency a (cLocked cx) (FilterDatesByType opts)
      in if Sources opts \<noteq> []
         then let m0 = (case MetadataSources a of None \<Rightarrow> Map.empty | Some m \<Rightarrow> m);
                  (m, changed) = record_sources (Sources opts) m0 changed
              in (a\<lparr>MetadataSources := Some m\<rparr>, changed)
         else (a, changed))"

text \<open>The exported entry point: the nil and range guards, then the merge.\<close>

definition ApplyMetadata ::
  "artist option \<Rightarrow> metadata_update option \<Rightarrow> int \<Rightarrow> merge_options \<Rightarrow> artist option \<times> bool" where
  "ApplyMetadata a u strategy opts =
     (case (a, u, strategy_of_int strategy) of
        (Some a, Some u, Some st) \<Rightarrow>
          (let (a', changed) = apply_metadata a u st opts in (Some a', changed))
      | _ \<Rightarrow> (a, False))"


section \<open>Laws of the tables\<close>

lemma str_names_lower: "f \<in> set mergeStrFields \<Longrightarrow> to_lower (fname f) = fname f"
  by (auto simp: mergeStrFields_def to_lower_def lower_char_def is_upper_def char_code_def)

lemma slice_names_lower: "f \<in> set mergeSliceFields \<Longrightarrow> to_lower (fname f) = fname f"
  by (auto simp: mergeSliceFields_def to_lower_def lower_char_def is_upper_def char_code_def)

lemma str_put_keeps_slice:
  "f \<in> set mergeStrFields \<Longrightarrow> g \<in> set mergeSliceFields \<Longrightarrow> dst g (put f v a) = dst g a"
  by (auto simp: mergeStrFields_def mergeSliceFields_def)

lemma slice_put_keeps_str:
  "f \<in> set mergeSliceFields \<Longrightarrow> g \<in> set mergeStrFields \<Longrightarrow> dst g (put f v a) = dst g a"
  by (auto simp: mergeStrFields_def mergeSliceFields_def)

lemma str_dst_sources: "f \<in> set mergeStrFields \<Longrightarrow> dst f (a\<lparr>MetadataSources := m\<rparr>) = dst f a"
  by (auto simp: mergeStrFields_def)

lemma slice_dst_sources: "f \<in> set mergeSliceFields \<Longrightarrow> dst f (a\<lparr>MetadataSources := m\<rparr>) = dst f a"
  by (auto simp: mergeSliceFields_def)

lemmas table_laws = str_put_keeps_slice slice_put_keeps_str str_dst_sources slice_dst_sources

text \<open>The loops of the code are the loops of the contract.\<close>

lemma applyFields_loops:
  "applyFields a u cx =
     slice_table.loop (slice_step cx u) mergeSliceFields
       (str_table.loop (str_step cx u) mergeStrFields (a, False))"
  by (simp add: applyFields_def slice_table.loop_def str_table.loop_def)

lemma dst_str_slice_loop:
  "g \<in> set mergeStrFields \<Longrightarrow>
   dst g (fst (slice_table.loop upd mergeSliceFields st)) = dst g (fst st)"
  by (cases st) (simp add: slice_table.loop_inv slice_put_keeps_str)

lemma dst_slice_str_loop:
  "g \<in> set mergeSliceFields \<Longrightarrow>
   dst g (fst (str_table.loop upd mergeStrFields st)) = dst g (fst st)"
  by (cases st) (simp add: str_table.loop_inv str_put_keeps_slice)

text \<open>Field by field, the merge is one step of the table row on the old value.\<close>

lemma dst_applyFields_str:
  assumes "f \<in> set mergeStrFields"
  shows "dst f (fst (applyFields a u cx)) = fst (str_step cx u f (dst f a))"
  using assms by (simp add: applyFields_loops dst_str_slice_loop str_table.get_loop)

lemma dst_applyFields_slice:
  assumes "f \<in> set mergeSliceFields"
  shows "dst f (fst (applyFields a u cx)) = fst (slice_step cx u f (dst f a))"
proof -
  let ?st = "str_table.loop (str_step cx u) mergeStrFields (a, False)"
  have "dst f (fst (slice_table.loop (slice_step cx u) mergeSliceFields (fst ?st, snd ?st)))
      = fst (slice_step cx u f (dst f (fst ?st)))"
    using assms by (rule slice_table.get_loop)
  with assms show ?thesis by (simp add: applyFields_loops dst_slice_str_loop)
qed

lemma changed_applyFields:
  "snd (applyFields a u cx) \<longleftrightarrow>
     (\<exists>f\<in>set mergeStrFields. snd (str_step cx u f (dst f a))) \<or>
     (\<exists>f\<in>set mergeSliceFields. snd (slice_step cx u f (dst f a)))"
proof -
  obtain s c where st: "str_table.loop (str_step cx u) mergeStrFields (a, False) = (s, c)"
    by (cases "str_table.loop (str_step cx u) mergeStrFields (a, False)")
  have "c \<longleftrightarrow> (\<exists>f\<in>set mergeStrFields. snd (str_step cx u f (dst f a)))"
    using str_table.changed_loop [of "str_step cx u" a False] st by simp
  moreover have "dst f s = dst f a" if "f \<in> set mergeSliceFields" for f
    using dst_slice_str_loop [OF that, of "str_step cx u" "(a, False)"] st by simp
  ultimately show ?thesis
    by (simp add: applyFields_loops st slice_table.changed_loop)
qed

lemma str_step_changed: "snd (str_step cx u f d) \<longleftrightarrow> fst (str_step cx u f d) \<noteq> d"
  by (auto simp: str_step_def Let_def setString_def setNonEmpty_def fillEmpty_def
      split: field_mode.splits)

lemma slice_step_changed: "snd (slice_step cx u f d) \<longleftrightarrow> fst (slice_step cx u f d) \<noteq> d"
  by (auto simp: slice_step_def Let_def setSlice_def fillEmptySlice_def slice_equal_def
      slice_list_def split: field_mode.splits option.splits)

lemma str_step_locked: "fname f \<in> cLocked cx \<Longrightarrow> f \<in> set mergeStrFields \<Longrightarrow> str_step cx u f d = (d, False)"
  by (simp add: str_step_def isLocked_def str_names_lower)

lemma slice_step_locked:
  "fname f \<in> cLocked cx \<Longrightarrow> f \<in> set mergeSliceFields \<Longrightarrow> slice_step cx u f d = (d, False)"
  by (simp add: slice_step_def isLocked_def slice_names_lower)

lemma applyFields_same:
  assumes "\<not> snd (applyFields a u cx)"
  shows "fst (applyFields a u cx) = a"
proof -
  have str: "\<And>f. f \<in> set mergeStrFields \<Longrightarrow> fst (str_step cx u f (dst f a)) = dst f a"
    and sl: "\<And>f. f \<in> set mergeSliceFields \<Longrightarrow> fst (slice_step cx u f (dst f a)) = dst f a"
    using assms by (auto simp: changed_applyFields str_step_changed slice_step_changed)
  from str have "fst (str_table.loop (str_step cx u) mergeStrFields (a, False)) = a"
    by (rule str_table.loop_same)
  then obtain ch where "str_table.loop (str_step cx u) mergeStrFields (a, False) = (a, ch)"
    by (cases "str_table.loop (str_step cx u) mergeStrFields (a, False)") auto
  with sl show ?thesis by (simp add: applyFields_loops slice_table.loop_same)
qed

lemma applyFields_moved:
  "snd (applyFields a u cx) \<Longrightarrow> fst (applyFields a u cx) \<noteq> a"
  by (auto simp: changed_applyFields str_step_changed slice_step_changed
      dst_applyFields_str [symmetric] dst_applyFields_slice [symmetric])

text \<open>Everything outside the tables is out of reach of the field loop.\<close>

lemma applyFields_frame:
  assumes "\<And>f v a. f \<in> set mergeStrFields \<Longrightarrow> h (put f v a) = h a"
    and "\<And>f v a. f \<in> set mergeSliceFields \<Longrightarrow> h (put f v a) = h a"
  shows "h (fst (applyFields a u cx)) = h a"
proof -
  obtain s c where st: "str_table.loop (str_step cx u) mergeStrFields (a, False) = (s, c)"
    by (cases "str_table.loop (str_step cx u) mergeStrFields (a, False)")
  have "h s = h a"
    using str_table.loop_inv [of mergeStrFields h "str_step cx u" a False] assms(1) st by simp
  then show ?thesis
    using slice_table.loop_inv [of mergeSliceFields h "slice_step cx u" s c] assms(2)
    by (simp add: applyFields_loops st)
qed

lemma applyFields_outside [field_laws]:
  "ID (fst (applyFields a u cx)) = ID a"
  "Path (fst (applyFields a u cx)) = Path a"
  "Locked (fst (applyFields a u cx)) = Locked a"
  "LockSource (fst (applyFields a u cx)) = LockSource a"
  "LockedAt (fst (applyFields a u cx)) = LockedAt a"
  "LockedFields (fst (applyFields a u cx)) = LockedFields a"
  "AudioDBIDFetchedAt (fst (applyFields a u cx)) = AudioDBIDFetchedAt a"
  "DiscogsIDFetchedAt (fst (applyFields a u cx)) = DiscogsIDFetchedAt a"
  "WikidataIDFetchedAt (fst (applyFields a u cx)) = WikidataIDFetchedAt a"
  "MetadataSources (fst (applyFields a u cx)) = MetadataSources a"
  by (rule applyFields_frame; auto simp: mergeStrFields_def mergeSliceFields_def)+

section \<open>The consistency pass, field by field\<close>

definition is_group_type :: "string \<Rightarrow> bool" where
  "is_group_type t \<longleftrightarrow> t \<in> {''group'', ''orchestra'', ''choir''}"

definition type_cleared :: "string \<Rightarrow> bool \<Rightarrow> string \<Rightarrow> bool" where
  "type_cleared t filterDates field \<longleftrightarrow>
     (field = ''gender'' \<and> IsGenderlessType t) \<or>
     (filterDates \<and> field \<in> {''formed'', ''disbanded''} \<and> IsIndividualType t) \<or>
     (filterDates \<and> field \<in> {''born'', ''died''} \<and> is_group_type t)"

lemma low_consts:
  "to_lower ''gender'' = ''gender''" "to_lower ''born'' = ''born''" "to_lower ''died'' = ''died''"
  "to_lower ''formed'' = ''formed''" "to_lower ''disbanded'' = ''disbanded''"
  by (simp_all add: to_lower_def lower_char_def is_upper_def char_code_def)

lemmas atc_defs = applyTypeConsistency_def FilterGenderByArtistType_def FilterDatesByArtistType_def

lemma atc_frame:
  assumes "\<And>a x. h (a\<lparr>Gender := x\<rparr>) = h a" "\<And>a x. h (a\<lparr>Born := x\<rparr>) = h a"
    "\<And>a x. h (a\<lparr>Died := x\<rparr>) = h a" "\<And>a x. h (a\<lparr>Formed := x\<rparr>) = h a"
    "\<And>a x. h (a\<lparr>Disbanded := x\<rparr>) = h a"
  shows "h (applyTypeConsistency a l fd) = h a"
  by (simp add: atc_defs Let_def if_distrib [of h] assms)

lemma atc_unchanged [field_laws]:
  "Name (applyTypeConsistency a l fd) = Name a"
  "SortName (applyTypeConsistency a l fd) = SortName a"
  "Type (applyTypeConsistency a l fd) = Type a"
  "Origin (applyTypeConsistency a l fd) = Origin a"
  "Disambiguation (applyTypeConsistency a l fd) = Disambiguation a"
  "MusicBrainzID (applyTypeConsistency a l fd) = MusicBrainzID a"
  "AudioDBID (applyTypeConsistency a l fd) = AudioDBID a"
  "DiscogsID (applyTypeConsistency a l fd) = DiscogsID a"
  "WikidataID (applyTypeConsistency a l fd) = WikidataID a"
  "DeezerID (applyTypeConsistency a l fd) = DeezerID a"
  "SpotifyID (applyTypeConsistency a l fd) = SpotifyID a"
  "Genres (applyTypeConsistency a l fd) = Genres a"
  "Styles (applyTypeConsistency a l fd) = Styles a"
  "Moods (applyTypeConsistency a l fd) = Moods a"
  "YearsActive (applyTypeConsistency a l fd) = YearsActive a"
  "Biography (applyTypeConsistency a l fd) = Biography a"
  "LockedFields (applyTypeConsistency a l fd) = LockedFields a"
  "ID (applyTypeConsistency a l fd) = ID a"
  "Path (applyTypeConsistency a l fd) = Path a"
  "Locked (applyTypeConsistency a l fd) = Locked a"
  "LockSource (applyTypeConsistency a l fd) = LockSource a"
  "LockedAt (applyTypeConsistency a l fd) = LockedAt a"
  "AudioDBIDFetchedAt (applyTypeConsistency a l fd) = AudioDBIDFetchedAt a"
  "DiscogsIDFetchedAt (applyTypeConsistency a l fd) = DiscogsIDFetchedAt a"
  "WikidataIDFetchedAt (applyTypeConsistency a l fd) = WikidataIDFetchedAt a"
  "MetadataSources (applyTypeConsistency a l fd) = MetadataSources a"
  by (rule atc_frame; simp)+

lemma atc_Gender [field_laws]:
  "Gender (applyTypeConsistency a l fd) =
     (if IsGenderlessType (Type a) \<and> \<not> isLocked l ''gender'' then [] else Gender a)"
  by (simp add: atc_defs Let_def IsIndividualType_def is_group_type_def if_distrib [of Gender] if_distrib [of Type])

lemma atc_Born [field_laws]:
  "Born (applyTypeConsistency a l fd) =
     (if fd \<and> is_group_type (Type a) \<and> \<not> isLocked l ''born'' then [] else Born a)"
  by (simp add: atc_defs Let_def IsIndividualType_def is_group_type_def if_distrib [of Born] if_distrib [of Type])

lemma atc_Died [field_laws]:
  "Died (applyTypeConsistency a l fd) =
     (if fd \<and> is_group_type (Type a) \<and> \<not> isLocked l ''died'' then [] else Died a)"
  by (simp add: atc_defs Let_def IsIndividualType_def is_group_type_def if_distrib [of Died] if_distrib [of Type])

lemma atc_Formed [field_laws]:
  "Formed (applyTypeConsistency a l fd) =
     (if fd \<and> IsIndividualType (Type a) \<and> \<not> isLocked l ''formed'' then [] else Formed a)"
  by (simp add: atc_defs Let_def IsIndividualType_def is_group_type_def if_distrib [of Formed] if_distrib [of Type])

lemma atc_Disbanded [field_laws]:
  "Disbanded (applyTypeConsistency a l fd) =
     (if fd \<and> IsIndividualType (Type a) \<and> \<not> isLocked l ''disbanded'' then [] else Disbanded a)"
  by (simp add: atc_defs Let_def IsIndividualType_def is_group_type_def if_distrib [of Disbanded] if_distrib [of Type])

lemma dst_applyTypeConsistency_str:
  assumes "f \<in> set mergeStrFields"
  shows "dst f (applyTypeConsistency a locked fd) =
    (if type_cleared (Type a) fd (fname f) \<and> fname f \<notin> locked then [] else dst f a)"
  using assms
  unfolding mergeStrFields_def
  by (simp only: list.set insert_iff empty_iff simp_thms)
    (elim disjE; simp add: type_cleared_def isLocked_def low_consts field_laws)

lemma dst_applyTypeConsistency_slice:
  assumes "f \<in> set mergeSliceFields"
  shows "dst f (applyTypeConsistency a locked fd) = dst f a"
  using assms by (auto simp: mergeSliceFields_def field_laws)


section \<open>Provider results\<close>

text \<open>\<open>FetchResultToUpdate\<close>: the provider metadata has the fields of an update; a gender is
  passed on only for an individual type.\<close>

definition FetchResultToUpdate :: "metadata_update option option \<Rightarrow> metadata_update option" where
  "FetchResultToUpdate result =
     (case result of
        None \<Rightarrow> None
      | Some None \<Rightarrow> None
      | Some (Some m) \<Rightarrow>
          Some (m\<lparr>uGender := (if uType m \<noteq> [] \<and> \<not> IsIndividualType (uType m) then []
                           else uGender m)\<rparr>))"

section \<open>Properties\<close>

lemma apply_metadata_str:
  assumes "f \<in> set mergeStrFields"
  shows "dst f (fst (apply_metadata a u st opts)) =
    (let cx = merge_context a st opts;
         a1 = fst (applyFields a u cx)
     in if type_cleared (Type a1) (FilterDatesByType opts) (fname f) \<and> fname f \<notin> cLocked cx
        then [] else fst (str_step cx u f (dst f a)))"
  using assms
  by (simp add: apply_metadata_def Let_def case_prod_beta table_laws
      dst_applyTypeConsistency_str dst_applyFields_str)

lemma apply_metadata_slice:
  assumes "f \<in> set mergeSliceFields"
  shows "dst f (fst (apply_metadata a u st opts)) =
    fst (slice_step (merge_context a st opts) u f (dst f a))"
  using assms
  by (simp add: apply_metadata_def Let_def case_prod_beta table_laws
      dst_applyTypeConsistency_slice dst_applyFields_slice)

lemma apply_metadata_type:
  "Type (fst (apply_metadata a u st opts)) = Type (fst (applyFields a u (merge_context a st opts)))"
  by (simp add: apply_metadata_def Let_def case_prod_beta field_laws)

lemma ApplyMetadata_Some:
  "ApplyMetadata (Some a) (Some u) n opts = (Some a', ch) \<Longrightarrow>
   (strategy_of_int n = None \<and> a' = a \<and> \<not> ch) \<or>
   (\<exists>st. strategy_of_int n = Some st \<and> apply_metadata a u st opts = (a', ch))"
  by (auto simp: ApplyMetadata_def split: option.splits prod.splits)

lemma ApplyMetadata_nil: "ApplyMetadata (Some a) None n opts = (Some a, False)"
  by (simp add: ApplyMetadata_def)

lemma apply_metadata_locked_str:
  "f \<in> set mergeStrFields \<Longrightarrow> fname f \<in> buildLockedSet [LockedFields a, optLockedFields opts] \<Longrightarrow>
   dst f (fst (apply_metadata a u st opts)) = dst f a"
  by (simp add: apply_metadata_str Let_def str_step_locked merge_context_def)

lemma apply_metadata_locked_slice:
  "f \<in> set mergeSliceFields \<Longrightarrow> fname f \<in> buildLockedSet [LockedFields a, optLockedFields opts] \<Longrightarrow>
   dst f (fst (apply_metadata a u st opts)) = dst f a"
  by (simp add: apply_metadata_slice slice_step_locked merge_context_def)

text \<open>C1. Per-field locks hold on every path: whatever the strategy, the options and the
  update, a field named by the artist's own locks or by the per-call locks has its old value
  in the result, consistency pass included.\<close>

theorem ApplyMetadata_respects_locks:
  assumes "ApplyMetadata (Some a) u n opts = (Some a', ch)"
    and "locked = buildLockedSet [LockedFields a, optLockedFields opts]"
  shows "(\<forall>f\<in>set mergeStrFields. fname f \<in> locked \<longrightarrow> dst f a' = dst f a) \<and>
         (\<forall>f\<in>set mergeSliceFields. fname f \<in> locked \<longrightarrow> dst f a' = dst f a)"
proof (cases u)
  case None
  with assms show ?thesis by (simp add: ApplyMetadata_nil)
next
  case (Some u')
  with assms(1) have "a' = a \<or> (\<exists>st. a' = fst (apply_metadata a u' st opts))"
    by (auto dest!: ApplyMetadata_Some) (metis fst_conv)
  with assms(2) show ?thesis
    by (auto simp: apply_metadata_locked_str apply_metadata_locked_slice)
qed

lemma str_step_keeps_nonempty:
  assumes "d \<noteq> []" "\<not> cClobber cx"
    and "\<not> (modes f (cStrategy cx) = modeAttemptedPopulated
           \<and> fname f \<in> cAttempted cx \<and> fname f \<in> cPopulated cx)"
  shows "fst (str_step cx u f d) \<noteq> []"
  using assms
  by (auto simp: str_step_def effectiveMode_def Let_def setString_def setNonEmpty_def fillEmpty_def
      split: field_mode.splits)

lemma slice_step_keeps_nonempty:
  assumes "slice_list d \<noteq> []" "\<not> cClobber cx"
    and "\<not> (modes f (cStrategy cx) = modeAttemptedPopulated
           \<and> fname f \<in> cAttempted cx \<and> fname f \<in> cPopulated cx)"
  shows "slice_list (fst (slice_step cx u f d)) \<noteq> []"
  using assms
  by (auto simp: slice_step_def effectiveMode_def Let_def setSlice_def fillEmptySlice_def
      split: field_mode.splits)

text \<open>C13. A call that is not entitled to assert emptiness never empties a stored value: without
  \<open>Clobber\<close> and outside a snapshot restore, a non-empty field stays non-empty unless a provider
  both attempted and populated it or the artist's resulting type rules it out.\<close>

theorem ApplyMetadata_no_clobber_preserves:
  assumes "strategy_of_int n = Some st" "st \<noteq> SnapshotRestore" "\<not> Clobber opts"
    and "ApplyMetadata (Some a) (Some u) n opts = (Some a', ch)"
    and "st = OverwriteAttempted \<Longrightarrow>
         field \<notin> normalizeFieldSet (AttemptedFields opts) \<inter> normalizeFieldSet (PopulatedFields opts)"
    and "\<not> type_cleared (Type a') (FilterDatesByType opts) field"
  shows "(\<forall>f\<in>set mergeStrFields. fname f = field \<longrightarrow> dst f a \<noteq> [] \<longrightarrow> dst f a' \<noteq> []) \<and>
         (\<forall>f\<in>set mergeSliceFields. fname f = field \<longrightarrow> slice_list (dst f a) \<noteq> [] \<longrightarrow>
            slice_list (dst f a') \<noteq> [])"
proof -
  let ?cx = "merge_context a st opts"
  have a': "a' = fst (apply_metadata a u st opts)"
    using assms(1,4) by (auto dest!: ApplyMetadata_Some)
  have nc: "\<not> cClobber ?cx" using assms(2,3) by (simp add: merge_context_def)
  have ap: "modes f st = modeAttemptedPopulated \<Longrightarrow> st = OverwriteAttempted"
    if "f \<in> set mergeStrFields" for f
    using that by (cases st) (auto simp: mergeStrFields_def)
  have ap': "modes f st = modeAttemptedPopulated \<Longrightarrow> st = OverwriteAttempted"
    if "f \<in> set mergeSliceFields" for f
    using that by (cases st) (auto simp: mergeSliceFields_def)
  have sel: "cStrategy ?cx = st" "cAttempted ?cx = normalizeFieldSet (AttemptedFields opts)"
    "cPopulated ?cx = normalizeFieldSet (PopulatedFields opts)"
    by (simp_all add: merge_context_def)
  have "dst f a' \<noteq> []" if f: "f \<in> set mergeStrFields" "fname f = field" "dst f a \<noteq> []" for f
  proof -
    from f nc ap assms(5) have "fst (str_step ?cx u f (dst f a)) \<noteq> []"
      by (intro str_step_keeps_nonempty) (auto simp: sel)
    with f assms(6) show ?thesis
      by (simp add: a' apply_metadata_str apply_metadata_type Let_def)
  qed
  moreover have "slice_list (dst f a') \<noteq> []"
    if f: "f \<in> set mergeSliceFields" "fname f = field" "slice_list (dst f a) \<noteq> []" for f
  proof -
    from f nc ap' assms(5) have "slice_list (fst (slice_step ?cx u f (dst f a))) \<noteq> []"
      by (intro slice_step_keeps_nonempty) (auto simp: sel)
    with f show ?thesis by (simp add: a' apply_metadata_slice)
  qed
  ultimately show ?thesis by blast
qed

text \<open>The change report of the field loop is exact: \<open>applyFields\<close> answers true if and only
  if it handed back a different artist.\<close>

theorem applyFields_changed_iff: "snd (applyFields a u cx) \<longleftrightarrow> fst (applyFields a u cx) \<noteq> a"
  by (metis applyFields_moved applyFields_same)

text \<open>Repairing an inconsistent stored row never triggers a persist: when the field loop
  moves nothing and no source is recorded, the merge answers false, although the artist it hands
  back is the corrected one.\<close>

theorem repair_never_self_triggers:
  assumes "fst (applyFields a u (merge_context a st opts)) = a" "Sources opts = []"
  shows "apply_metadata a u st opts =
     (applyTypeConsistency a (cLocked (merge_context a st opts)) (FilterDatesByType opts), False)"
proof -
  have "\<not> snd (applyFields a u (merge_context a st opts))"
    using assms(1) applyFields_moved by blast
  with assms show ?thesis by (simp add: apply_metadata_def Let_def case_prod_beta)
qed

text \<open>A snapshot restore reproduces the source: every field that is neither locked nor ruled
  out by the restored type holds exactly the snapshot's value, emptiness and nil-ness included.\<close>

theorem snapshot_restore_exact:
  assumes "apply_metadata a u SnapshotRestore opts = (a', ch)"
    and "field \<notin> buildLockedSet [LockedFields a, optLockedFields opts]"
    and "\<not> type_cleared (Type a') (FilterDatesByType opts) field"
  shows "(\<forall>f\<in>set mergeStrFields. fname f = field \<longrightarrow> dst f a' = upd_get f u) \<and>
         (\<forall>f\<in>set mergeSliceFields. fname f = field \<longrightarrow> dst f a' = upd_get f u)"
proof -
  have a': "a' = fst (apply_metadata a u SnapshotRestore opts)" using assms(1) by simp
  have m: "modes f SnapshotRestore = modeUnconditional" if "f \<in> set mergeStrFields" for f
    using that by (auto simp: mergeStrFields_def)
  have m': "modes f SnapshotRestore = modeUnconditional" if "f \<in> set mergeSliceFields" for f
    using that by (auto simp: mergeSliceFields_def)
  show ?thesis
    using assms(2,3)
    by (auto simp: a' apply_metadata_str apply_metadata_slice apply_metadata_type Let_def
        merge_context_def str_step_def slice_step_def effectiveMode_def isLocked_def m m'
        str_names_lower slice_names_lower setString_def setSlice_def slice_equal_def slice_list_def
        split: option.splits)
qed

text \<open>\<open>FillEmpty\<close> never overwrites: a field that holds a value keeps it, unless the artist's
  resulting type rules the field out.\<close>

theorem fill_empty_never_overwrites:
  assumes "apply_metadata a u FillEmpty opts = (a', ch)"
  shows "(\<forall>f\<in>set mergeStrFields. dst f a \<noteq> [] \<longrightarrow>
            \<not> type_cleared (Type a') (FilterDatesByType opts) (fname f) \<longrightarrow> dst f a' = dst f a) \<and>
         (\<forall>f\<in>set mergeSliceFields. slice_list (dst f a) \<noteq> [] \<longrightarrow> dst f a' = dst f a)"
proof -
  have a': "a' = fst (apply_metadata a u FillEmpty opts)" using assms(1) by simp
  have m: "modes f FillEmpty \<in> {modeSkip, modeFillEmpty}" if "f \<in> set mergeStrFields" for f
    using that by (auto simp: mergeStrFields_def)
  have m': "modes f FillEmpty = modeFillEmpty" if "f \<in> set mergeSliceFields" for f
    using that by (auto simp: mergeSliceFields_def)
  have "fst (str_step (merge_context a FillEmpty opts) u f d) = d"
    if "f \<in> set mergeStrFields" "d \<noteq> []" for f d
    using m [OF that(1)] that(2)
    by (auto simp: str_step_def merge_context_def effectiveMode_def Let_def fillEmpty_def)
  moreover have "fst (slice_step (merge_context a FillEmpty opts) u f d) = d"
    if "f \<in> set mergeSliceFields" "slice_list d \<noteq> []" for f d
    using m' [OF that(1)] that(2)
    by (auto simp: slice_step_def merge_context_def effectiveMode_def Let_def fillEmptySlice_def)
  ultimately show ?thesis
    by (auto simp: a' apply_metadata_str apply_metadata_slice apply_metadata_type Let_def)
qed


section \<open>Witnesses\<close>

definition pinned_artist :: artist where
  "pinned_artist = zero_artist\<lparr>Name := ''Nico'', Type := ''solo'', Gender := ''female'', Formed := ''1965'',
     Biography := ''curated'', Genres := Some [''rock''], LockedFields := ['' Biography '']\<rparr>"

definition group_update :: metadata_update where
  "group_update = zero_update\<lparr>uType := ''group'', uBiography := ''provider text'', uGenres := Some [''pop'']\<rparr>"

lemma ApplyMetadata_run:
  "strategy_of_int n = Some st \<Longrightarrow>
   ApplyMetadata (Some a) (Some u) n opts =
     (Some (fst (apply_metadata a u st opts)), snd (apply_metadata a u st opts))"
  by (simp add: ApplyMetadata_def case_prod_beta)

theorem ApplyMetadata_respects_locks_witness:
  "let a' = fst (apply_metadata pinned_artist group_update NFOImport zero_options)
   in Biography a' = ''curated'' \<and> Type a' = ''group'' \<and> Genres a' = Some [''pop'']"
proof -
  let ?r = "apply_metadata pinned_artist group_update NFOImport zero_options"
  let ?L = "buildLockedSet [LockedFields pinned_artist, optLockedFields zero_options]"
  have run: "ApplyMetadata (Some pinned_artist) (Some group_update) 2 zero_options =
      (Some (fst ?r), snd ?r)"
    by (simp add: ApplyMetadata_run strategy_of_int_def)
  have bio: "mergeStrFields ! 6 \<in> set mergeStrFields" "fname (mergeStrFields ! 6) = ''biography''"
    "dst (mergeStrFields ! 6) = Biography"
    by (simp_all add: mergeStrFields_def)
  have "''biography'' \<in> ?L" by code_simp
  with ApplyMetadata_respects_locks [OF run refl] bio
  have "Biography (fst ?r) = Biography pinned_artist" by metis
  moreover have "Biography pinned_artist = ''curated''" by code_simp
  moreover have "Type (fst ?r) = ''group''" by code_simp
  moreover have "Genres (fst ?r) = Some [''pop'']" by code_simp
  ultimately show ?thesis by simp
qed

theorem ApplyMetadata_no_clobber_preserves_witness:
  "let a' = fst (apply_metadata pinned_artist zero_update NFOImport zero_options)
   in Formed a' \<noteq> [] \<and> Type a' = ''solo''"
proof -
  let ?r = "apply_metadata pinned_artist zero_update NFOImport zero_options"
  have run: "ApplyMetadata (Some pinned_artist) (Some zero_update) 2 zero_options = (Some (fst ?r), snd ?r)"
    by (simp add: ApplyMetadata_run strategy_of_int_def)
  have row: "mergeStrFields ! 15 \<in> set mergeStrFields" "fname (mergeStrFields ! 15) = ''formed''"
    "dst (mergeStrFields ! 15) = Formed"
    by (simp_all add: mergeStrFields_def)
  have st: "strategy_of_int 2 = Some NFOImport" by (simp add: strategy_of_int_def)
  have opts: "\<not> Clobber zero_options" by code_simp
  have tc: "\<not> type_cleared (Type (fst ?r)) (FilterDatesByType zero_options) ''formed''" by code_simp
  have "Formed pinned_artist \<noteq> []" by code_simp
  with ApplyMetadata_no_clobber_preserves [OF st _ opts run _ tc] row
  have "Formed (fst ?r) \<noteq> []" by (metis merge_strategy.distinct)
  moreover have "Type (fst ?r) = ''solo''" by code_simp
  ultimately show ?thesis by simp
qed

definition bad_row :: artist where
  "bad_row = zero_artist\<lparr>Name := ''ABBA'', Type := '' Group '', Gender := ''female''\<rparr>"

theorem repair_never_self_triggers_witness:
  "let r = apply_metadata bad_row zero_update NFOImport zero_options
   in Gender bad_row = ''female'' \<and> Gender (fst r) = [] \<and> \<not> snd r"
proof -
  have same: "fst (applyFields bad_row zero_update (merge_context bad_row NFOImport zero_options)) = bad_row"
    by (rule applyFields_same) code_simp
  have src: "Sources zero_options = []" by code_simp
  have "Gender (applyTypeConsistency bad_row (cLocked (merge_context bad_row NFOImport zero_options))
      (FilterDatesByType zero_options)) = []"
    by code_simp
  moreover have "Gender bad_row = ''female''" by code_simp
  ultimately show ?thesis using repair_never_self_triggers [OF same src] by simp
qed

theorem snapshot_restore_exact_witness:
  "let a' = fst (apply_metadata pinned_artist group_update SnapshotRestore zero_options)
   in Genres a' = Some [''pop''] \<and> Styles a' = None \<and> Name a' = []"
proof -
  let ?a' = "fst (apply_metadata pinned_artist group_update SnapshotRestore zero_options)"
  let ?L = "buildLockedSet [LockedFields pinned_artist, optLockedFields zero_options]"
  have run: "apply_metadata pinned_artist group_update SnapshotRestore zero_options = (?a', snd
      (apply_metadata pinned_artist group_update SnapshotRestore zero_options))"
    by simp
  have unlocked: "''genres'' \<notin> ?L" "''styles'' \<notin> ?L" "''name'' \<notin> ?L"
    by code_simp+
  have tc: "\<not> type_cleared t fd ''genres''" "\<not> type_cleared t fd ''styles''"
    "\<not> type_cleared t fd ''name''" for t fd
    by (simp_all add: type_cleared_def)
  note exact = snapshot_restore_exact [OF run]
  have "Genres ?a' = uGenres group_update" "Styles ?a' = uStyles group_update"
    using exact [OF unlocked(1) tc(1)] exact [OF unlocked(2) tc(2)]
    by (simp_all add: mergeSliceFields_def)
  moreover have "Name ?a' = uName group_update"
    using exact [OF unlocked(3) tc(3)] by (simp add: mergeStrFields_def)
  ultimately show ?thesis by (simp add: group_update_def zero_update_def)
qed

theorem fill_empty_never_overwrites_witness:
  "let a' = fst (apply_metadata pinned_artist group_update FillEmpty zero_options)
   in Genres a' = Some [''rock''] \<and> Type a' = ''solo''"
proof -
  let ?r = "apply_metadata pinned_artist group_update FillEmpty zero_options"
  have run: "?r = (fst ?r, snd ?r)" by simp
  have "slice_list (Genres pinned_artist) \<noteq> []" by code_simp
  with fill_empty_never_overwrites [OF run]
  have "Genres (fst ?r) = Genres pinned_artist" by (simp add: mergeSliceFields_def)
  moreover have "Genres pinned_artist = Some [''rock'']" by code_simp
  moreover have "Type (fst ?r) = ''solo''" by code_simp
  ultimately show ?thesis by simp
qed

section \<open>A change report without a change\<close>

definition abba :: artist where
  "abba = zero_artist\<lparr>Name := ''ABBA'', Type := ''group''\<rparr>"

text \<open>The change report of the whole merge is not exact: on a stored group, an update that
  carries a gender and no type answers true on every call while the artist comes back as it was,
  because the consistency pass clears the gender after the field loop has counted it.\<close>

theorem gender_only_update_reports_change:
  "apply_metadata abba (zero_update\<lparr>uGender := ''female''\<rparr>) NFOImport zero_options = (abba, True)"
proof -
  let ?u = "zero_update\<lparr>uGender := ''female''\<rparr>"
  have "fst (apply_metadata abba ?u NFOImport zero_options) = abba"
  proof (rule artist.equality)
    show "MetadataSources (fst (apply_metadata abba ?u NFOImport zero_options)) = MetadataSources abba"
      by (simp add: apply_metadata_def Let_def case_prod_beta zero_options_def field_laws)
  qed (code_simp | simp)+
  moreover have "snd (apply_metadata abba ?u NFOImport zero_options)" by code_simp
  ultimately show ?thesis by (metis prod.collapse)
qed

end
