(* ===== verification/LockGuard.thy ===== *)
theory LockGuard
  imports Merge
begin

text \<open>
  The persist chokepoint of \<open>internal/artist/lockguard.go\<close>: a whole-row write is compared
  with the stored row, every locked field the write would change is put back, and the lock
  state itself is pinned. The side table of provider IDs is read through the parameter
  \<open>hydrate\<close> (\<open>None\<close> for a Service without that repository).
\<close>

section \<open>Guarded fields and grants\<close>

definition lockGuardedFields :: "string list" where
  "lockGuardedFields = sort (filter (\<lambda>name. name \<noteq> ''members'') lockableFieldNames)"


text \<open>The context value is \<open>None\<close> when the request carries no grant.\<close>

definition ContextWithLockOverride :: "string \<Rightarrow> string option" where
  "ContextWithLockOverride field = Some (to_lower (trim_space field))"

definition lockOverrideField :: "string option \<Rightarrow> string option" where
  "lockOverrideField ctx =
     (case ctx of None \<Rightarrow> None | Some f \<Rightarrow> (if f = [] then None else Some f))"

section \<open>Restoring one field\<close>

text \<open>Returns the artist, the length of the rejected value and whether it was restored.\<close>

definition restoreLockedField :: "artist \<Rightarrow> artist \<Rightarrow> string \<Rightarrow> artist \<times> nat \<times> bool" where
  "restoreLockedField stored incoming field =
     (if IsSliceField field
      then let want = SliceFieldFromArtist stored field;
               got = SliceFieldFromArtist incoming field
           in if slice_equal want got then (incoming, 0, False)
              else (setFieldOnArtist incoming field [] want,
                    length (join_with '', '' (slice_list got)), True)
      else let want = FieldValueFromArtist stored field;
               got = FieldValueFromArtist incoming field
           in if want = got then (incoming, 0, False)
              else (setFieldOnArtist incoming field want None, length got, True))"

definition restoreMBIDProvenance :: "artist \<Rightarrow> artist \<Rightarrow> artist" where
  "restoreMBIDProvenance stored incoming =
     (case (case MetadataSources stored of None \<Rightarrow> None | Some m \<Rightarrow> m ''musicbrainz_id'') of
        None \<Rightarrow> incoming\<lparr>MetadataSources :=
          map_option (\<lambda>m. m(''musicbrainz_id'' := None)) (MetadataSources incoming)\<rparr>
      | Some want \<Rightarrow> incoming\<lparr>MetadataSources :=
          Some ((case MetadataSources incoming of None \<Rightarrow> Map.empty | Some m \<Rightarrow> m)
                 (''musicbrainz_id'' \<mapsto> want))\<rparr>)"

definition restoreProviderIDCompanions :: "artist \<Rightarrow> artist \<Rightarrow> string \<Rightarrow> artist" where
  "restoreProviderIDCompanions stored incoming field =
     (if field = ''audiodb_id'' then incoming\<lparr>AudioDBIDFetchedAt := AudioDBIDFetchedAt stored\<rparr>
      else if field = ''discogs_id'' then incoming\<lparr>DiscogsIDFetchedAt := DiscogsIDFetchedAt stored\<rparr>
      else if field = ''wikidata_id'' then incoming\<lparr>WikidataIDFetchedAt := WikidataIDFetchedAt stored\<rparr>
      else if field = ''musicbrainz_id'' then restoreMBIDProvenance stored incoming
      else incoming)"

definition pinLockState :: "artist \<Rightarrow> artist \<Rightarrow> artist" where
  "pinLockState stored incoming =
     incoming\<lparr>LockedFields := LockedFields stored, Locked := Locked stored,
              LockSource := LockSource stored, LockedAt := LockedAt stored\<rparr>"

section \<open>The guard\<close>

definition guard_step ::
  "string set \<Rightarrow> string option \<Rightarrow> artist \<Rightarrow> string \<Rightarrow> artist \<times> string list \<Rightarrow> artist \<times> string list" where
  "guard_step locked granted stored name st =
     (let (incoming, restored) = st in
      if \<not> isLocked locked name then (incoming, restored)
      else if granted = Some name then (incoming, restored)
      else let incoming = restoreProviderIDCompanions stored incoming name;
               (incoming, rejectedLen, changed) = restoreLockedField stored incoming name
           in if \<not> changed then (incoming, restored) else (incoming, restored @ [name]))"

definition enforce_field_locks ::
  "string option \<Rightarrow> artist \<Rightarrow> artist \<Rightarrow> artist \<times> string list" where
  "enforce_field_locks ctx stored incoming =
     (let incoming = pinLockState stored incoming;
          locked = buildLockedSet [LockedFields stored]
      in if locked = {} then (incoming, [])
         else fold (guard_step locked (lockOverrideField ctx) stored) lockGuardedFields (incoming, []))"




definition GuardedFieldSnapshot :: "artist option \<Rightarrow> (string \<rightharpoonup> string) option" where
  "GuardedFieldSnapshot a =
     (case a of None \<Rightarrow> None
      | Some a \<Rightarrow> Some (map_of (map (\<lambda>f. (f, FieldValueFromArtist a f)) lockGuardedFields)))"

definition ChangedGuardedFields :: "(string \<rightharpoonup> string) option \<Rightarrow> artist option \<Rightarrow> string list" where
  "ChangedGuardedFields before a =
     (case (before, a) of
        (Some b, Some a) \<Rightarrow> filter (\<lambda>name. source_of b name \<noteq> FieldValueFromArtist a name) lockGuardedFields
      | _ \<Rightarrow> [])"

section \<open>The content of a field\<close>

text \<open>What a field holds, with nil and empty slices identified as \<open>slices.Equal\<close> does.\<close>

definition field_content :: "artist \<Rightarrow> string \<Rightarrow> string + string list" where
  "field_content a name =
     (if IsSliceField name then Inr (slice_list (SliceFieldFromArtist a name))
      else Inl (FieldValueFromArtist a name))"

lemma lockGuardedFields_eq:
  "lockGuardedFields =
     [''audiodb_id'', ''biography'', ''born'', ''deezer_id'', ''died'', ''disambiguation'',
      ''disbanded'', ''discogs_id'', ''formed'', ''gender'', ''genres'', ''moods'',
      ''musicbrainz_id'', ''name'', ''origin'', ''sort_name'', ''spotify_id'', ''styles'',
      ''type'', ''wikidata_id'', ''years_active'']"
  by code_simp

lemmas content_defs = field_content_def IsSliceField_def slice_fields_def
  SliceFieldFromArtist_def FieldValueFromArtist_def

lemma content_update:
  "field_content (a\<lparr>AudioDBID := v\<rparr>) m = (if m = ''audiodb_id'' then Inl v else field_content a m)"
  "field_content (a\<lparr>Biography := v\<rparr>) m = (if m = ''biography'' then Inl v else field_content a m)"
  "field_content (a\<lparr>Born := v\<rparr>) m = (if m = ''born'' then Inl v else field_content a m)"
  "field_content (a\<lparr>DeezerID := v\<rparr>) m = (if m = ''deezer_id'' then Inl v else field_content a m)"
  "field_content (a\<lparr>Died := v\<rparr>) m = (if m = ''died'' then Inl v else field_content a m)"
  "field_content (a\<lparr>Disambiguation := v\<rparr>) m = (if m = ''disambiguation'' then Inl v else field_content a m)"
  "field_content (a\<lparr>Disbanded := v\<rparr>) m = (if m = ''disbanded'' then Inl v else field_content a m)"
  "field_content (a\<lparr>DiscogsID := v\<rparr>) m = (if m = ''discogs_id'' then Inl v else field_content a m)"
  "field_content (a\<lparr>Formed := v\<rparr>) m = (if m = ''formed'' then Inl v else field_content a m)"
  "field_content (a\<lparr>Gender := v\<rparr>) m = (if m = ''gender'' then Inl v else field_content a m)"
  "field_content (a\<lparr>MusicBrainzID := v\<rparr>) m = (if m = ''musicbrainz_id'' then Inl v else field_content a m)"
  "field_content (a\<lparr>Name := v\<rparr>) m = (if m = ''name'' then Inl v else field_content a m)"
  "field_content (a\<lparr>Origin := v\<rparr>) m = (if m = ''origin'' then Inl v else field_content a m)"
  "field_content (a\<lparr>SortName := v\<rparr>) m = (if m = ''sort_name'' then Inl v else field_content a m)"
  "field_content (a\<lparr>SpotifyID := v\<rparr>) m = (if m = ''spotify_id'' then Inl v else field_content a m)"
  "field_content (a\<lparr>Type := v\<rparr>) m = (if m = ''type'' then Inl v else field_content a m)"
  "field_content (a\<lparr>WikidataID := v\<rparr>) m = (if m = ''wikidata_id'' then Inl v else field_content a m)"
  "field_content (a\<lparr>YearsActive := v\<rparr>) m = (if m = ''years_active'' then Inl v else field_content a m)"
  by (simp_all add: content_defs)

lemma content_update_slice:
  "field_content (a\<lparr>Genres := sl\<rparr>) m = (if m = ''genres'' then Inr (slice_list sl) else field_content a m)"
  "field_content (a\<lparr>Styles := sl\<rparr>) m = (if m = ''styles'' then Inr (slice_list sl) else field_content a m)"
  "field_content (a\<lparr>Moods := sl\<rparr>) m = (if m = ''moods'' then Inr (slice_list sl) else field_content a m)"
  by (simp_all add: content_defs)

lemma content_outside:
  "field_content (a\<lparr>LockedFields := x0\<rparr>) m = field_content a m"
  "field_content (a\<lparr>Locked := x1\<rparr>) m = field_content a m"
  "field_content (a\<lparr>LockSource := x2\<rparr>) m = field_content a m"
  "field_content (a\<lparr>LockedAt := x3\<rparr>) m = field_content a m"
  "field_content (a\<lparr>AudioDBIDFetchedAt := x4\<rparr>) m = field_content a m"
  "field_content (a\<lparr>DiscogsIDFetchedAt := x5\<rparr>) m = field_content a m"
  "field_content (a\<lparr>WikidataIDFetchedAt := x6\<rparr>) m = field_content a m"
  "field_content (a\<lparr>MetadataSources := x7\<rparr>) m = field_content a m"
  by (simp_all add: content_defs)

lemmas content_rules = content_update content_update_slice content_outside

lemma content_companions:
  "field_content (restoreProviderIDCompanions stored incoming name) m = field_content incoming m"
  by (simp add: restoreProviderIDCompanions_def restoreMBIDProvenance_def content_rules
      split: option.splits)

lemma content_pin: "field_content (pinLockState stored incoming) m = field_content incoming m"
  by (simp add: pinLockState_def content_rules)

lemma content_setField:
  assumes "name \<in> set lockGuardedFields"
  shows "field_content (setFieldOnArtist a name v sl) m =
    (if m = name then (if IsSliceField name then Inr (slice_list sl) else Inl v)
     else field_content a m)"
proof -
  have "list_all (\<lambda>name. field_content (setFieldOnArtist a name v sl) m =
    (if m = name then (if IsSliceField name then Inr (slice_list sl) else Inl v)
     else field_content a m)) lockGuardedFields"
    unfolding lockGuardedFields_eq list.pred_inject setFieldOnArtist_def providerFieldMap_def applyProviderFieldToArtist_def
        IsSliceField_def slice_fields_def
    by (intro conjI; simp add: content_rules)
  with assms show ?thesis by (simp add: list_all_iff)
qed

lemma restore_changed:
  "snd (snd (restoreLockedField stored incoming name)) \<longleftrightarrow>
     field_content stored name \<noteq> field_content incoming name"
  by (cases "IsSliceField name")
    (auto simp: restoreLockedField_def Let_def slice_equal_def field_content_def)

lemma restore_content:
  assumes "name \<in> set lockGuardedFields"
  shows "field_content (fst (restoreLockedField stored incoming name)) m =
      (if m = name then field_content stored name else field_content incoming m)"
proof (cases "field_content stored name = field_content incoming name")
  case True
  then have "restoreLockedField stored incoming name = (incoming, 0, False)"
    by (cases "IsSliceField name")
      (auto simp: restoreLockedField_def Let_def slice_equal_def field_content_def)
  with True show ?thesis by simp
next
  case False
  then have "fst (restoreLockedField stored incoming name) =
      setFieldOnArtist incoming name
        (if IsSliceField name then [] else FieldValueFromArtist stored name)
        (if IsSliceField name then SliceFieldFromArtist stored name else None)"
    by (cases "IsSliceField name")
      (auto simp: restoreLockedField_def Let_def slice_equal_def field_content_def)
  with assms show ?thesis
    by (simp add: content_setField) (simp add: field_content_def)
qed

lemma guarded_lower: "name \<in> set lockGuardedFields \<Longrightarrow> to_lower name = name"
  unfolding lockGuardedFields_eq
  by (simp only: list.set insert_iff empty_iff simp_thms)
    (elim disjE; simp add: to_lower_def lower_char_def is_upper_def char_code_def)

lemma distinct_guarded: "distinct lockGuardedFields"
  by (simp add: lockGuardedFields_eq)

text \<open>The frame of a step: what only the pinning writes.\<close>

lemma setField_frame:
  "LockedFields (setFieldOnArtist a n v sl) = LockedFields a"
  "Locked (setFieldOnArtist a n v sl) = Locked a"
  "LockSource (setFieldOnArtist a n v sl) = LockSource a"
  "LockedAt (setFieldOnArtist a n v sl) = LockedAt a"
  by (simp_all add: setFieldOnArtist_def applyProviderFieldToArtist_def)

definition lock_state :: "artist \<Rightarrow> string list \<times> bool \<times> string \<times> int option" where
  "lock_state a = (LockedFields a, Locked a, LockSource a, LockedAt a)"

lemma lock_state_restore: "lock_state (fst (restoreLockedField stored incoming n)) = lock_state incoming"
  by (simp add: restoreLockedField_def Let_def lock_state_def setField_frame)

lemma lock_state_companions: "lock_state (restoreProviderIDCompanions stored incoming n) = lock_state incoming"
  by (simp add: restoreProviderIDCompanions_def restoreMBIDProvenance_def lock_state_def
      split: option.splits)

definition guarded_now :: "string set \<Rightarrow> string option \<Rightarrow> string \<Rightarrow> bool" where
  "guarded_now locked granted name \<longleftrightarrow> name \<in> locked \<and> granted \<noteq> Some name"

lemma guard_step_spec:
  assumes "name \<in> set lockGuardedFields"
    and "guard_step locked granted stored name (incoming, restored) = (incoming', restored')"
  shows "field_content incoming' m =
      (if m = name \<and> guarded_now locked granted name then field_content stored name
       else field_content incoming m)"
    and "restored' = restored @ (if guarded_now locked granted name \<and>
       field_content stored name \<noteq> field_content incoming name then [name] else [])"
    and "lock_state incoming' = lock_state incoming"
proof -
  let ?c = "restoreProviderIDCompanions stored incoming name"
  let ?r = "restoreLockedField stored ?c name"
  have r: "field_content (fst ?r) m = (if m = name then field_content stored name else field_content incoming m)" for m
    using restore_content [OF assms(1), of stored ?c] by (simp add: content_companions)
  have c: "snd (snd ?r) \<longleftrightarrow> field_content stored name \<noteq> field_content incoming name"
    by (simp add: restore_changed content_companions)
  have s: "lock_state (fst ?r) = lock_state incoming"
    by (simp add: lock_state_restore lock_state_companions)
  have low: "isLocked locked name \<longleftrightarrow> name \<in> locked"
    by (simp add: isLocked_def guarded_lower assms(1))
  have step: "guard_step locked granted stored name (incoming, restored) =
      (if guarded_now locked granted name
       then (fst ?r, if snd (snd ?r) then restored @ [name] else restored)
       else (incoming, restored))"
    by (simp add: guard_step_def Let_def case_prod_beta guarded_now_def low)
  show "field_content incoming' m =
      (if m = name \<and> guarded_now locked granted name then field_content stored name
       else field_content incoming m)"
    using assms(2) r by (auto simp: step split: if_splits)
  show "restored' = restored @ (if guarded_now locked granted name \<and>
       field_content stored name \<noteq> field_content incoming name then [name] else [])"
    using assms(2) c by (auto simp: step split: if_splits)
  show "lock_state incoming' = lock_state incoming"
    using assms(2) s by (auto simp: step split: if_splits)
qed

lemma guard_loop_spec:
  assumes "set names \<subseteq> set lockGuardedFields" "distinct names"
    and "fold (guard_step locked granted stored) names (incoming, restored) = (incoming', restored')"
  shows "field_content incoming' m =
      (if m \<in> set names \<and> guarded_now locked granted m then field_content stored m
       else field_content incoming m)
    \<and> restored' = restored @ filter (\<lambda>n. guarded_now locked granted n \<and>
        field_content stored n \<noteq> field_content incoming n) names
    \<and> lock_state incoming' = lock_state incoming"
  using assms
proof (induction names arbitrary: incoming restored)
  case Nil
  then show ?case by simp
next
  case (Cons n names)
  obtain i1 r1 where st: "guard_step locked granted stored n (incoming, restored) = (i1, r1)"
    by (cases "guard_step locked granted stored n (incoming, restored)")
  have n: "n \<in> set lockGuardedFields" using Cons.prems(1) by simp
  note one = guard_step_spec [OF n st]
  have rest: "fold (guard_step locked granted stored) names (i1, r1) = (incoming', restored')"
    using Cons.prems(3) st by simp
  have IH: "field_content incoming' m =
      (if m \<in> set names \<and> guarded_now locked granted m then field_content stored m
       else field_content i1 m)
    \<and> restored' = r1 @ filter (\<lambda>n. guarded_now locked granted n \<and>
        field_content stored n \<noteq> field_content i1 n) names
    \<and> lock_state incoming' = lock_state i1"
    using Cons.prems(1,2) rest by (intro Cons.IH) auto
  have same: "field_content i1 k = field_content incoming k" if "k \<in> set names" for k
    using that Cons.prems(2) by (auto simp: one(1))
  have "filter (\<lambda>n. guarded_now locked granted n \<and> field_content stored n \<noteq> field_content i1 n) names =
      filter (\<lambda>n. guarded_now locked granted n \<and> field_content stored n \<noteq> field_content incoming n) names"
    by (rule filter_cong) (simp_all add: same)
  with IH one show ?case by (auto simp del: filter.simps simp add: filter.simps)
qed

text \<open>The guard as a function on contents.\<close>

lemma enforce_field_locks_spec:
  assumes "enforce_field_locks ctx stored incoming = (incoming', restored)"
  defines "L \<equiv> buildLockedSet [LockedFields stored]"
  shows "field_content incoming' m =
      (if m \<in> set lockGuardedFields \<and> guarded_now L (lockOverrideField ctx) m
       then field_content stored m else field_content incoming m)"
    and "restored = filter (\<lambda>n. guarded_now L (lockOverrideField ctx) n \<and>
        field_content stored n \<noteq> field_content incoming n) lockGuardedFields"
    and "lock_state incoming' = lock_state stored"
proof -
  have pin: "lock_state (pinLockState stored incoming) = lock_state stored"
    by (simp add: lock_state_def pinLockState_def)
  have "field_content incoming' m =
      (if m \<in> set lockGuardedFields \<and> guarded_now L (lockOverrideField ctx) m
       then field_content stored m else field_content incoming m)
    \<and> restored = filter (\<lambda>n. guarded_now L (lockOverrideField ctx) n \<and>
        field_content stored n \<noteq> field_content incoming n) lockGuardedFields
    \<and> lock_state incoming' = lock_state stored"
  proof (cases "L = {}")
    case True
    with assms(1) pin show ?thesis
      by (auto simp: enforce_field_locks_def L_def guarded_now_def content_pin)
  next
    case False
    then have "fold (guard_step L (lockOverrideField ctx) stored) lockGuardedFields
        (pinLockState stored incoming, []) = (incoming', restored)"
      using assms(1) by (simp add: enforce_field_locks_def Let_def L_def)
    from guard_loop_spec [OF subset_refl distinct_guarded this, of m] pin
    show ?thesis by (simp add: content_pin)
  qed
  then show "field_content incoming' m =
      (if m \<in> set lockGuardedFields \<and> guarded_now L (lockOverrideField ctx) m
       then field_content stored m else field_content incoming m)"
    and "restored = filter (\<lambda>n. guarded_now L (lockOverrideField ctx) n \<and>
        field_content stored n \<noteq> field_content incoming n) lockGuardedFields"
    and "lock_state incoming' = lock_state stored" by blast+
qed

section \<open>Properties\<close>


text \<open>A history of whole-row writes: each carries its request context and its artist struct, and
  the row it leaves is the stored row of the next.\<close>

definition persist_all :: "(string option \<times> artist) list \<Rightarrow> artist \<Rightarrow> artist" where
  "persist_all ws stored = fold (\<lambda>(ctx, a) s. fst (enforce_field_locks ctx s a)) ws stored"

lemma persist_one:
  "field_content stored m = field_content s m \<Longrightarrow> m \<in> set lockGuardedFields \<Longrightarrow>
   m \<in> buildLockedSet [LockedFields s] \<Longrightarrow> LockedFields stored = LockedFields s \<Longrightarrow>
   lockOverrideField ctx \<noteq> Some m \<Longrightarrow>
   field_content (fst (enforce_field_locks ctx stored a)) m = field_content s m
   \<and> LockedFields (fst (enforce_field_locks ctx stored a)) = LockedFields s"
  using enforce_field_locks_spec [OF surjective_pairing, of ctx stored a]
  by (simp add: guarded_now_def lock_state_def)

lemma persist_all_locked:
  assumes "m \<in> set lockGuardedFields" "m \<in> buildLockedSet [LockedFields s]"
    and "\<forall>(ctx, a)\<in>set ws. lockOverrideField ctx \<noteq> Some m"
    and "field_content stored m = field_content s m" "LockedFields stored = LockedFields s"
  shows "field_content (persist_all ws stored) m = field_content s m
    \<and> LockedFields (persist_all ws stored) = LockedFields s"
  using assms(3-5)
proof (induction ws arbitrary: stored)
  case Nil
  then show ?case by (simp add: persist_all_def)
next
  case (Cons w ws)
  obtain ctx a where w: "w = (ctx, a)" by (cases w)
  from Cons.prems w assms(1,2)
  have one: "field_content (fst (enforce_field_locks ctx stored a)) m = field_content s m
    \<and> LockedFields (fst (enforce_field_locks ctx stored a)) = LockedFields s"
    by (intro persist_one) auto
  from Cons.prems(1) w one
  have "field_content (persist_all ws (fst (enforce_field_locks ctx stored a))) m = field_content s m
    \<and> LockedFields (persist_all ws (fst (enforce_field_locks ctx stored a))) = LockedFields s"
    by (intro Cons.IH) auto
  then show ?case by (simp add: persist_all_def w)
qed

text \<open>C5. A pin survives every automated write: whatever sequence of whole-row writes runs, and
  whatever lock tokens their structs carry, a locked guarded field that no request was granted keeps
  its content, and the lock set itself keeps its value.\<close>

theorem locked_content_immutable:
  assumes "m \<in> set lockGuardedFields" "m \<in> buildLockedSet [LockedFields stored]"
    and "\<forall>(ctx, a)\<in>set ws. lockOverrideField ctx \<noteq> Some m"
  shows "field_content (persist_all ws stored) m = field_content stored m
    \<and> LockedFields (persist_all ws stored) = LockedFields stored"
  using assms by (intro persist_all_locked) auto

theorem locked_content_immutable_witness:
  "field_content (persist_all [(None, abba), (Some ''name'', zero_artist)] pinned_artist) ''biography''
     = Inl ''curated''"
proof -
  have g: "''biography'' \<in> set lockGuardedFields" by (simp add: lockGuardedFields_eq)
  have l: "''biography'' \<in> buildLockedSet [LockedFields pinned_artist]" by code_simp
  have n: "\<forall>(ctx, a)\<in>set [(None, abba), (Some ''name'', zero_artist)]. lockOverrideField ctx \<noteq> Some ''biography''"
    by (simp add: lockOverrideField_def)
  have "field_content pinned_artist ''biography'' = Inl ''curated''" by code_simp
  with locked_content_immutable [OF g l n] show ?thesis by simp
qed








end
