(* ===== verification/Duplicates.thy ===== *)
theory Duplicates
  imports Prelude "HOL-Library.Multiset"
begin

text \<open>
  Near-duplicate detection, \<open>internal/artist/duplicates.go\<close>: a union-find over the artist rows
  whose union refuses to join two components bound to different MusicBrainz IDs, the two passes
  that feed it (equal name keys, equal MBIDs) and the groups it yields.

  \<open>NormalizeIdentityKey\<close> rests on \<open>golang.org/x/text\<close> and is the parameter \<open>nkey\<close>. Go ranges
  over its bucket maps in an unspecified order: the orders are arguments, and the properties
  hold for all of them. \<open>sort.Slice\<close> is modelled by a stable sort; no property depends on how
  it orders rows of equal name.
\<close>

section \<open>Rows and the union-find state\<close>

record artistRow =
  rId :: string
  rName :: string
  rPath :: string
  rMbid :: string
  rDisamb :: string

text \<open>The three Go maps; a missing key reads as the zero value.\<close>

record union_find =
  parent :: "string \<Rightarrow> string"
  rank :: "string \<Rightarrow> nat"
  repMBID :: "string \<Rightarrow> string"

datatype union_outcome = unionMerged | unionJoined | unionRefused

definition initUnionFind :: "artistRow list \<Rightarrow> union_find" where
  "initUnionFind rows =
     \<lparr>parent = fold (\<lambda>r p. p(rId r := rId r)) rows (\<lambda>_. []),
      rank = (\<lambda>_. 0),
      repMBID = fold (\<lambda>r p. p(rId r := rMbid r)) rows (\<lambda>_. [])\<rparr>"

text \<open>The recursive path-compressing find: it returns the compressed map and the root, and
  \<open>None\<close> where the Go function would recurse for ever.\<close>

partial_function (option) find_root ::
  "(string \<Rightarrow> string) \<Rightarrow> string \<Rightarrow> ((string \<Rightarrow> string) \<times> string) option" where
  "find_root p i =
     (if p i \<noteq> i
      then Option.bind (find_root p (p i)) (\<lambda>(p', r). Some (p'(i := r), r))
      else Some (p, p i))"

definition uf_find :: "string \<Rightarrow> union_find \<Rightarrow> (union_find \<times> string) option" where
  "uf_find i d =
     Option.bind (find_root (parent d) i) (\<lambda>(p, r). Some (d\<lparr>parent := p\<rparr>, r))"

definition guarded_union :: "string \<Rightarrow> string \<Rightarrow> union_find \<Rightarrow> (union_find \<times> union_outcome) option" where
  "guarded_union a b d =
     Option.bind (uf_find a d) (\<lambda>(d, ra).
     Option.bind (uf_find b d) (\<lambda>(d, rb).
       if ra = rb then Some (d, unionJoined)
       else let ma = repMBID d ra; mb = repMBID d rb in
         if ma \<noteq> [] \<and> mb \<noteq> [] \<and> ma \<noteq> mb then Some (d, unionRefused)
         else
           let (ra, rb) = (if rank d ra < rank d rb then (rb, ra) else (ra, rb));
               d = d\<lparr>parent := (parent d)(rb := ra)\<rparr>;
               d = (if rank d ra = rank d rb then d\<lparr>rank := (rank d)(ra := rank d ra + 1)\<rparr> else d);
               d = (if repMBID d ra = [] then d\<lparr>repMBID := (repMBID d)(ra := repMBID d rb)\<rparr> else d)
           in Some (d, unionMerged)))"

declare find_root.simps [code]

text \<open>A call whose outcome the caller drops.\<close>

definition union_step :: "string \<times> string \<Rightarrow> union_find \<Rightarrow> union_find option" where
  "union_step ab d = map_option fst (guarded_union (fst ab) (snd ab) d)"

section \<open>The grouping passes\<close>

text \<open>One name bucket: the partition pass over the rows with the \<open>firstByMBID\<close> map and the
  representatives, then the cross pass over the representatives.\<close>

fun partition_pass ::
  "artistRow list \<Rightarrow> (string \<rightharpoonup> string) \<Rightarrow> string list \<Rightarrow> union_find \<Rightarrow> (string list \<times> union_find) option" where
  "partition_pass [] firstBy reps d = Some (reps, d)"
| "partition_pass (r # rs) firstBy reps d =
     (case firstBy (rMbid r) of
        Some rep \<Rightarrow> Option.bind (union_step (rep, rId r) d) (partition_pass rs firstBy reps)
      | None \<Rightarrow> partition_pass rs (firstBy(rMbid r \<mapsto> rId r)) (reps @ [rId r]) d)"

fun cross_pass :: "string list \<Rightarrow> union_find \<Rightarrow> union_find option" where
  "cross_pass [] d = Some d"
| "cross_pass (x # xs) d =
     Option.bind (fold_opt (\<lambda>y. union_step (x, y)) xs d) (cross_pass xs)"

definition bucket_pass :: "artistRow list \<Rightarrow> union_find \<Rightarrow> union_find option" where
  "bucket_pass bucket d =
     Option.bind (partition_pass bucket Map.empty [] d) (\<lambda>(reps, d). cross_pass reps d)"

text \<open>\<open>nkey\<close> is \<open>NormalizeIdentityKey\<close>; \<open>keys\<close> is the order in which Go happens to
  range over the bucket map.\<close>

definition unionByNameKey ::
  "(string \<Rightarrow> string) \<Rightarrow> string list \<Rightarrow> artistRow list \<Rightarrow> union_find \<Rightarrow> union_find option" where
  "unionByNameKey nkey keys rows d =
     fold_opt (\<lambda>k. bucket_pass (filter (\<lambda>r. nkey (rName r) = k) rows)) keys d"

fun mbid_bucket :: "string \<Rightarrow> string list \<Rightarrow> string list \<times> union_find \<Rightarrow> (string list \<times> union_find) option" where
  "mbid_bucket first [] st = Some st"
| "mbid_bucket first (i # is) (edges, d) =
     Option.bind (union_step (first, i) d) (\<lambda>d.
     Option.bind (uf_find first d) (\<lambda>(d, root). mbid_bucket first is (List.insert root edges, d)))"

definition unionByMBID ::
  "string list \<Rightarrow> artistRow list \<Rightarrow> union_find \<Rightarrow> (string list \<times> union_find) option" where
  "unionByMBID mbids rows d =
     fold_opt (\<lambda>m st.
       (case map rId (filter (\<lambda>r. rMbid r = m) rows) of
          [] \<Rightarrow> Some st | i # is \<Rightarrow> mbid_bucket i is st)) mbids ([], d)"

section \<open>Groups\<close>

record near_duplicate_artist =
  ndID :: string
  ndName :: string
  ndPath :: string
  ndMBID :: string
  ndPlatformOnly :: bool
  ndDisambiguation :: string
  ndConflict :: bool

datatype group_reason = name_key | mbid

record near_duplicate_group =
  gKey :: string
  gReason :: group_reason
  gConflict :: bool
  gMembers :: "near_duplicate_artist list"

definition member_of_row :: "artistRow \<Rightarrow> near_duplicate_artist" where
  "member_of_row r =
     \<lparr>ndID = rId r, ndName = rName r, ndPath = rPath r, ndMBID = rMbid r,
      ndPlatformOnly = (rPath r = []), ndDisambiguation = rDisamb r, ndConflict = False\<rparr>"

definition markDisambiguationConflicts ::
  "near_duplicate_artist list \<Rightarrow> near_duplicate_artist list \<times> bool" where
  "markDisambiguationConflicts members =
     (if card (set (filter (\<lambda>d. d \<noteq> []) (map ndDisambiguation members))) < 2
      then (members, False)
      else (map (\<lambda>m. m\<lparr>ndConflict := (ndDisambiguation m \<noteq> [])\<rparr>) members, True))"

fun findSharedMBID :: "near_duplicate_artist list \<Rightarrow> string" where
  "findSharedMBID [] = []"
| "findSharedMBID (m # ms) =
     (if ndMBID m = [] then []
      else if list_all (\<lambda>m'. ndMBID m' = ndMBID m) ms then ndMBID m else [])"

text \<open>Find the root of every row, in order.\<close>

fun root_members :: "artistRow list \<Rightarrow> union_find \<Rightarrow> ((string \<times> near_duplicate_artist) list \<times> union_find) option" where
  "root_members [] d = Some ([], d)"
| "root_members (r # rs) d =
     Option.bind (uf_find (rId r) d) (\<lambda>(d, root).
     Option.bind (root_members rs d) (\<lambda>(ms, d). Some ((root, member_of_row r) # ms, d)))"

definition make_group ::
  "(string \<Rightarrow> string) \<Rightarrow> string set \<Rightarrow> string \<Rightarrow> near_duplicate_artist list \<Rightarrow> near_duplicate_group" where
  "make_group nkey finalEdges root members =
     (let members = sort_key ndName members;
          shared = (if root \<in> finalEdges then findSharedMBID members else []);
          (reason, key) = (if shared \<noteq> [] then (mbid, shared)
                           else (name_key, nkey (ndName (hd members))));
          (members, conflict) = markDisambiguationConflicts members
      in \<lparr>gKey = key, gReason = reason, gConflict = conflict, gMembers = members\<rparr>)"

text \<open>The classes of a tagged list, in order of first appearance.\<close>

definition classes :: "('k \<times> 'v) list \<Rightarrow> ('k \<times> 'v list) list" where
  "classes xs = map (\<lambda>k. (k, map snd (filter (\<lambda>x. fst x = k) xs))) (remdups (map fst xs))"

definition collectGroups ::
  "(string \<Rightarrow> string) \<Rightarrow> artistRow list \<Rightarrow> string set \<Rightarrow> union_find \<Rightarrow> near_duplicate_group list option" where
  "collectGroups nkey rows finalEdges d =
     map_option (\<lambda>(ms, d).
       sort_key (\<lambda>g. ndName (hd (gMembers g)))
         (map (\<lambda>(root, members). make_group nkey finalEdges root members)
           (filter (\<lambda>(root, members). 2 \<le> length members) (classes ms))))
       (root_members rows d)"

fun final_edges :: "string list \<Rightarrow> union_find \<Rightarrow> (string list \<times> union_find) option" where
  "final_edges [] d = Some ([], d)"
| "final_edges (root # roots) d =
     Option.bind (uf_find root d) (\<lambda>(d, r).
     Option.bind (final_edges roots d) (\<lambda>(rs, d). Some (r # rs, d)))"

definition groupDuplicates ::
  "(string \<Rightarrow> string) \<Rightarrow> string list \<Rightarrow> string list \<Rightarrow> artistRow list \<Rightarrow> near_duplicate_group list option" where
  "groupDuplicates nkey keys mbids rows =
     (if rows = [] then Some []
      else Option.bind (unionByNameKey nkey keys rows (initUnionFind rows)) (\<lambda>d.
           Option.bind (unionByMBID mbids rows d) (\<lambda>(edges, d).
           Option.bind (final_edges edges d) (\<lambda>(finals, d).
             collectGroups nkey rows (set finals) d))))"

section \<open>Roots\<close>

inductive rooted :: "(string \<Rightarrow> string) \<Rightarrow> string \<Rightarrow> string \<Rightarrow> bool" for p where
  root: "p r = r \<Longrightarrow> rooted p r r"
| step: "p i \<noteq> i \<Longrightarrow> rooted p (p i) r \<Longrightarrow> rooted p i r"

lemma rooted_fun: "rooted p i r \<Longrightarrow> rooted p i s \<Longrightarrow> r = s"
proof (induction arbitrary: s rule: rooted.induct)
  case (root r)
  then show ?case by (auto elim: rooted.cases)
next
  case (step i r)
  from step.prems step.hyps(1) have "rooted p (p i) s" by (auto elim: rooted.cases)
  with step.IH show ?case by blast
qed

lemma rooted_root: "rooted p i r \<Longrightarrow> p r = r"
  by (induction rule: rooted.induct)

lemma rooted_compress:
  assumes "rooted p i r" "rooted p y s"
  shows "rooted (p(i := r)) y s"
  using assms(2)
proof (induction rule: rooted.induct)
  case (root s)
  show ?case
  proof (cases "s = i")
    case True
    with root have "rooted p i i" by (blast intro: rooted.root)
    with assms(1) have "r = i" by (rule rooted_fun)
    with True show ?thesis by (auto intro: rooted.root)
  next
    case False
    with root show ?thesis by (auto intro: rooted.root)
  qed
next
  case (step y s)
  show ?case
  proof (cases "y = i")
    case True
    with step.hyps have "rooted p i s" by (blast intro: rooted.step)
    with assms(1) have s: "s = r" by (blast dest: rooted_fun)
    have r: "p r = r" using assms(1) by (rule rooted_root)
    with True step.hyps(1) have "r \<noteq> i" by auto
    with r have "rooted (p(i := r)) r r" by (auto intro: rooted.root)
    then have "rooted (p(i := r)) i r"
      using rooted.step [of "p(i := r)" i r] \<open>r \<noteq> i\<close> by simp
    then show ?thesis unfolding True s .
  next
    case False
    with step show ?thesis by (auto intro: rooted.step)
  qed
qed

text \<open>The parent forest over a set \<open>V\<close> of ids: ranks grow along every edge.\<close>

definition forest :: "string set \<Rightarrow> (string \<Rightarrow> nat) \<Rightarrow> (string \<Rightarrow> string) \<Rightarrow> bool" where
  "forest V rk p \<longleftrightarrow> finite V \<and> (\<forall>i\<in>V. p i \<in> V \<and> (p i \<noteq> i \<longrightarrow> rk i < rk (p i)))"

lemma forest_rooted:
  assumes "forest V rk p" "i \<in> V"
  shows "\<exists>r\<in>V. rooted p i r \<and> rk i \<le> rk r \<and> (r \<noteq> i \<longrightarrow> rk i < rk r)"
  using assms(2)
proof (induction "Max (rk ` V) - rk i" arbitrary: i rule: less_induct)
  case less
  show ?case
  proof (cases "p i = i")
    case True
    with less.prems show ?thesis by (auto intro: rooted.root)
  next
    case False
    have V: "finite V" "p i \<in> V" "rk i < rk (p i)"
      using assms(1) less.prems False by (auto simp: forest_def)
    then have "rk (p i) \<le> Max (rk ` V)" by auto
    with V have "Max (rk ` V) - rk (p i) < Max (rk ` V) - rk i" by linarith
    from less.hyps [OF this V(2)] obtain r where
      "r \<in> V" "rooted p (p i) r" "rk (p i) \<le> rk r" by blast
    with False V show ?thesis by (intro bexI [of _ r]) (auto intro: rooted.step)
  qed
qed

text \<open>Path compression: find ends, returns the root and keeps every root.\<close>

lemma find_root_spec:
  assumes "rooted p i r" "forest V rk p" "i \<in> V"
  shows "\<exists>p'. find_root p i = Some (p', r) \<and> forest V rk p' \<and> (\<forall>y s. rooted p y s \<longrightarrow> rooted p' y s)"
  using assms
proof (induction rule: rooted.induct)
  case (root r)
  then show ?case by (subst find_root.simps) auto
next
  case (step i r)
  have V: "p i \<in> V" using step.prems by (auto simp: forest_def)
  from step.IH [OF step.prems(1) V] obtain p' where p':
    "find_root p (p i) = Some (p', r)" "forest V rk p'" "\<And>y s. rooted p y s \<Longrightarrow> rooted p' y s"
    by blast
  have i: "rooted p i r" using step.hyps by (rule rooted.step)
  obtain r' where r': "r' \<in> V" "rooted p i r'" "r' \<noteq> i \<longrightarrow> rk i < rk r'"
    using forest_rooted [OF step.prems] by blast
  with i have "r = r'" by (blast dest: rooted_fun)
  with r' p'(2) have "forest V rk (p'(i := r))" by (auto simp: forest_def)
  moreover have "rooted (p'(i := r)) y s" if "rooted p y s" for y s
    using p'(3) [OF i] p'(3) [OF that] by (rule rooted_compress)
  moreover have "find_root p i = Some (p'(i := r), r)"
    using step.hyps(1) p'(1) by (subst find_root.simps) simp
  ultimately show ?case by blast
qed

definition the_root :: "union_find \<Rightarrow> string \<Rightarrow> string" where
  "the_root d i = (THE r. rooted (parent d) i r)"

definition uf_inv :: "string set \<Rightarrow> union_find \<Rightarrow> bool" where
  "uf_inv V d \<longleftrightarrow> forest V (rank d) (parent d)"

lemma the_rootI: "rooted (parent d) i r \<Longrightarrow> the_root d i = r"
  unfolding the_root_def by (rule the_equality) (auto dest: rooted_fun)

lemma the_root_in:
  assumes "uf_inv V d" "i \<in> V"
  shows "rooted (parent d) i (the_root d i)" "the_root d i \<in> V" "parent d (the_root d i) = the_root d i"
proof -
  obtain r where r: "r \<in> V" "rooted (parent d) i r"
    using forest_rooted assms unfolding uf_inv_def by blast
  with the_rootI show "rooted (parent d) i (the_root d i)" "the_root d i \<in> V" by auto
  then show "parent d (the_root d i) = the_root d i" by (blast dest: rooted_root)
qed

lemma uf_find_spec:
  assumes "uf_inv V d" "i \<in> V"
  shows "\<exists>d'. uf_find i d = Some (d', the_root d i) \<and> uf_inv V d' \<and> rank d' = rank d \<and>
    repMBID d' = repMBID d \<and> (\<forall>y\<in>V. the_root d' y = the_root d y)"
proof -
  obtain p' where p': "find_root (parent d) i = Some (p', the_root d i)" "forest V (rank d) p'"
    "\<And>y s. rooted (parent d) y s \<Longrightarrow> rooted p' y s"
    using find_root_spec the_root_in assms unfolding uf_inv_def by metis
  let ?d = "d\<lparr>parent := p'\<rparr>"
  have "the_root ?d y = the_root d y" if "y \<in> V" for y
    by (rule the_rootI) (simp add: p'(3) the_root_in(1) [OF assms(1) that])
  with p' show ?thesis by (simp add: uf_find_def uf_inv_def)
qed

text \<open>Hanging one root below another.\<close>

lemma rooted_link:
  assumes "p ra = ra" "p rb = rb" "ra \<noteq> rb" "rooted p y s"
  shows "rooted (p(rb := ra)) y (if s = rb then ra else s)"
proof -
  have top: "rooted (p(rb := ra)) ra ra" using assms(1,3) by (intro rooted.root) simp
  have lo: "rooted (p(rb := ra)) rb ra"
    by (rule rooted.step) (use assms(3) top in simp_all)
  show ?thesis
    using assms(4)
  proof (induction rule: rooted.induct)
    case (root s)
    show ?case
    proof (cases "s = rb")
      case True
      with lo show ?thesis by (metis (full_types))
    next
      case False
      with root have "rooted (p(rb := ra)) s s" by (intro rooted.root) simp
      with False show ?thesis by (metis (full_types))
    qed
  next
    case (step y s)
    with assms(2) have y: "y \<noteq> rb" by auto
    show ?case
      by (rule rooted.step) (use y step in simp_all)
  qed
qed

text \<open>What one guarded union does: it refuses and changes nothing, or it joins the two
  components and binds the result to the MBID either of them carries.\<close>

definition same_comp :: "union_find \<Rightarrow> string \<Rightarrow> string \<Rightarrow> bool" where
  "same_comp d x y \<longleftrightarrow> the_root d x = the_root d y"

definition bound :: "union_find \<Rightarrow> string \<Rightarrow> string" where
  "bound d x = repMBID d (the_root d x)"

definition conflict :: "union_find \<Rightarrow> string \<Rightarrow> string \<Rightarrow> bool" where
  "conflict d a b \<longleftrightarrow> bound d a \<noteq> [] \<and> bound d b \<noteq> [] \<and> bound d a \<noteq> bound d b"

definition link :: "string \<Rightarrow> string \<Rightarrow> union_find \<Rightarrow> union_find" where
  "link ra rb d =
     (let (ra, rb) = (if rank d ra < rank d rb then (rb, ra) else (ra, rb));
          d = d\<lparr>parent := (parent d)(rb := ra)\<rparr>;
          d = (if rank d ra = rank d rb then d\<lparr>rank := (rank d)(ra := rank d ra + 1)\<rparr> else d)
      in if repMBID d ra = [] then d\<lparr>repMBID := (repMBID d)(ra := repMBID d rb)\<rparr> else d)"

lemma link_ordered:
  assumes inv: "uf_inv V d" and V: "ra \<in> V" "rb \<in> V"
    and roots: "parent d ra = ra" "parent d rb = rb" "ra \<noteq> rb" and le: "rank d rb \<le> rank d ra"
  defines "d' \<equiv> link ra rb d"
  shows "uf_inv V d'" and "\<And>y. y \<in> V \<Longrightarrow> the_root d' y = (if the_root d y = rb then ra else the_root d y)"
    and "repMBID d' = (if repMBID d ra = [] then (repMBID d)(ra := repMBID d rb) else repMBID d)"
proof -
  let ?rk = "if rank d ra = rank d rb then (rank d)(ra := rank d ra + 1) else rank d"
  have d': "parent d' = (parent d)(rb := ra)" "rank d' = ?rk"
    "repMBID d' = (if repMBID d ra = [] then (repMBID d)(ra := repMBID d rb) else repMBID d)"
    using le roots(3) by (auto simp: d'_def link_def Let_def)
  show "repMBID d' = (if repMBID d ra = [] then (repMBID d)(ra := repMBID d rb) else repMBID d)"
    by (rule d'(3))
  have f: "finite V" "\<And>i. i \<in> V \<Longrightarrow> parent d i \<in> V"
    "\<And>i. i \<in> V \<Longrightarrow> parent d i \<noteq> i \<Longrightarrow> rank d i < rank d (parent d i)"
    using inv by (auto simp: uf_inv_def forest_def)
  have "rank d' i < rank d' (parent d' i)" if i: "i \<in> V" "parent d' i \<noteq> i" for i
  proof (cases "i = rb")
    case True
    with le roots show ?thesis by (auto simp: d')
  next
    case False
    with i have "parent d i \<noteq> i" "i \<noteq> ra" by (auto simp: d' roots)
    with False f(3) [OF i(1)] show ?thesis by (auto simp: d')
  qed
  with f V show "uf_inv V d'" by (auto simp: uf_inv_def forest_def d'(1))
  show "the_root d' y = (if the_root d y = rb then ra else the_root d y)" if "y \<in> V" for y
    using rooted_link [OF roots the_root_in(1) [OF inv that]]
    by (intro the_rootI) (simp add: d')
qed

lemma link_swap: "rank d ra < rank d rb \<Longrightarrow> link ra rb d = link rb ra d"
  by (simp add: link_def)

lemma guarded_union_spec:
  assumes inv: "uf_inv V d" and a: "a \<in> V" and b: "b \<in> V"
  shows "\<exists>d' out. guarded_union a b d = Some (d', out) \<and> uf_inv V d' \<and>
    (out = unionJoined \<longleftrightarrow> same_comp d a b) \<and>
    (out = unionRefused \<longleftrightarrow> conflict d a b) \<and>
    (out \<noteq> unionMerged \<longrightarrow> (\<forall>y\<in>V. the_root d' y = the_root d y \<and> bound d' y = bound d y)) \<and>
    (out = unionMerged \<longrightarrow>
       (\<exists>r. \<forall>y\<in>V. (the_root d' y = (if same_comp d y a \<or> same_comp d y b then r else the_root d y)) \<and>
          (the_root d y = r \<longrightarrow> same_comp d y a \<or> same_comp d y b) \<and>
          bound d' y = (if same_comp d y a \<or> same_comp d y b
                        then (if bound d a = [] then bound d b else bound d a) else bound d y)))"
proof -
  let ?ra = "the_root d a" and ?rb = "the_root d b"
  obtain d1 where d1: "uf_find a d = Some (d1, ?ra)" "uf_inv V d1" "rank d1 = rank d"
    "repMBID d1 = repMBID d" "\<And>y. y \<in> V \<Longrightarrow> the_root d1 y = the_root d y"
    using uf_find_spec [OF inv a] by auto
  obtain d2 where d2: "uf_find b d1 = Some (d2, ?rb)" "uf_inv V d2" "rank d2 = rank d"
    "repMBID d2 = repMBID d" "\<And>y. y \<in> V \<Longrightarrow> the_root d2 y = the_root d y"
    using uf_find_spec [OF d1(2) b] d1 b by auto
  note V = the_root_in(2) [OF inv a] the_root_in(2) [OF inv b]
  have roots: "parent d2 ?ra = ?ra" "parent d2 ?rb = ?rb"
    using the_root_in(3) [OF d2(2) a] the_root_in(3) [OF d2(2) b] d2(5) a b by auto
  have run: "guarded_union a b d =
      (if ?ra = ?rb then Some (d2, unionJoined)
       else if repMBID d ?ra \<noteq> [] \<and> repMBID d ?rb \<noteq> [] \<and> repMBID d ?ra \<noteq> repMBID d ?rb
         then Some (d2, unionRefused)
       else Some (link ?ra ?rb d2, unionMerged))"
    by (simp add: guarded_union_def d1(1) d2(1,4) link_def Let_def case_prod_beta)
  consider (joined) "same_comp d a b" | (refused) "\<not> same_comp d a b" "conflict d a b"
    | (merged) "\<not> same_comp d a b" "\<not> conflict d a b" by blast
  then show ?thesis
  proof cases
    case joined
    then have "\<not> conflict d a b" by (simp add: conflict_def bound_def same_comp_def)
    with joined run d2 show ?thesis by (auto simp: same_comp_def bound_def)
  next
    case refused
    then have ne: "?ra \<noteq> ?rb" by (simp add: same_comp_def)
    have "repMBID d ?ra \<noteq> [] \<and> repMBID d ?rb \<noteq> [] \<and> repMBID d ?ra \<noteq> repMBID d ?rb"
      using refused(2) unfolding conflict_def bound_def .
    then have out: "guarded_union a b d = Some (d2, unionRefused)"
      using run ne by (simp only: if_False if_True simp_thms)
    have "\<forall>y\<in>V. the_root d2 y = the_root d y \<and> bound d2 y = bound d y"
      using d2(4,5) by (simp add: bound_def)
    with out d2(2) refused show ?thesis by simp
  next
    case merged
    then have ne: "?ra \<noteq> ?rb" by (simp add: same_comp_def)
    have "\<not> (repMBID d ?ra \<noteq> [] \<and> repMBID d ?rb \<noteq> [] \<and> repMBID d ?ra \<noteq> repMBID d ?rb)"
      using merged(2) unfolding conflict_def bound_def .
    then have out: "guarded_union a b d = Some (link ?ra ?rb d2, unionMerged)"
      using run ne by (simp only: if_False)
    obtain hi lo where eq: "link ?ra ?rb d2 = link hi lo d2" and le: "rank d2 lo \<le> rank d2 hi"
      and which: "hi = ?ra \<and> lo = ?rb \<or> hi = ?rb \<and> lo = ?ra"
    proof (cases "rank d2 ?ra < rank d2 ?rb")
      case True
      show thesis by (rule that [OF link_swap [OF True]]) (use True in simp_all)
    next
      case False
      show thesis by (rule that [OF refl]) (use False in simp_all)
    qed
    have hl: "hi \<in> V" "lo \<in> V" "parent d2 hi = hi" "parent d2 lo = lo" "hi \<noteq> lo"
      using which V roots ne by metis+
    note L = link_ordered [OF d2(2) hl le]
    have root: "the_root (link hi lo d2) y = (if same_comp d y a \<or> same_comp d y b then hi else the_root d y)"
      if "y \<in> V" for y
      using L(2) [OF that] d2(5) [OF that] which ne by (elim disjE) (simp_all add: same_comp_def)
    have only: "the_root d y = hi \<longrightarrow> same_comp d y a \<or> same_comp d y b" for y
      using which by (auto simp: same_comp_def)
    have nc: "repMBID d ?ra = [] \<or> repMBID d ?rb = [] \<or> repMBID d ?ra = repMBID d ?rb"
      using merged(2) by (auto simp: conflict_def bound_def)
    have rep: "repMBID (link hi lo d2) =
        (if repMBID d hi = [] then (repMBID d)(hi := repMBID d lo) else repMBID d)"
      by (simp only: L(3) d2(4))
    define m where "m = (if bound d a = [] then bound d b else bound d a)"
    have top: "repMBID (link hi lo d2) hi = m"
      unfolding m_def bound_def rep using which
    proof
      assume "hi = ?ra \<and> lo = ?rb"
      then show "(if repMBID d hi = [] then (repMBID d)(hi := repMBID d lo) else repMBID d) hi =
          (if repMBID d ?ra = [] then repMBID d ?rb else repMBID d ?ra)" by simp
    next
      assume "hi = ?rb \<and> lo = ?ra"
      with nc show "(if repMBID d hi = [] then (repMBID d)(hi := repMBID d lo) else repMBID d) hi =
          (if repMBID d ?ra = [] then repMBID d ?rb else repMBID d ?ra)" by auto
    qed
    have other: "repMBID (link hi lo d2) x = repMBID d x" if "x \<noteq> hi" for x
      using that by (simp add: rep)
    have bnd: "bound (link hi lo d2) y = (if same_comp d y a \<or> same_comp d y b then m else bound d y)"
      if "y \<in> V" for y
    proof (cases "same_comp d y a \<or> same_comp d y b")
      case True
      then show ?thesis by (simp add: bound_def root [OF that] top)
    next
      case False
      with only [of y] have "the_root d y \<noteq> hi" by blast
      with False show ?thesis by (simp add: bound_def root [OF that] other)
    qed
    have "\<exists>r. \<forall>y\<in>V. (the_root (link hi lo d2) y =
          (if same_comp d y a \<or> same_comp d y b then r else the_root d y)) \<and>
        (the_root d y = r \<longrightarrow> same_comp d y a \<or> same_comp d y b) \<and>
        bound (link hi lo d2) y = (if same_comp d y a \<or> same_comp d y b then m else bound d y)"
      using root only bnd by blast
    with out [unfolded eq] L(1) merged show ?thesis unfolding m_def by simp
  qed
qed

section \<open>The contract of a guarded partition\<close>

text \<open>Items in classes, each class bound to a label or to none (the empty list). \<open>join\<close> keeps
  two classes apart when they carry different labels.\<close>

locale guarded_partition =
  fixes V :: "'i set" and inv :: "'s \<Rightarrow> bool" and same :: "'s \<Rightarrow> 'i \<Rightarrow> 'i \<Rightarrow> bool"
    and bnd :: "'s \<Rightarrow> 'i \<Rightarrow> 'b list" and join :: "'i \<times> 'i \<Rightarrow> 's \<Rightarrow> 's option"
  assumes same_refl: "same s x x"
    and same_sym: "same s x y \<Longrightarrow> same s y x"
    and same_trans: "same s x y \<Longrightarrow> same s y z \<Longrightarrow> same s x z"
    and same_bnd: "same s x y \<Longrightarrow> bnd s x = bnd s y"
    and join_keeps: "inv s \<Longrightarrow> a \<in> V \<Longrightarrow> b \<in> V \<Longrightarrow>
      same s a b \<or> bnd s a \<noteq> [] \<and> bnd s b \<noteq> [] \<and> bnd s a \<noteq> bnd s b \<Longrightarrow>
      \<exists>s'. join (a, b) s = Some s' \<and> inv s' \<and>
        (\<forall>x\<in>V. bnd s' x = bnd s x \<and> (\<forall>y\<in>V. same s' x y \<longleftrightarrow> same s x y))"
    and join_merges: "inv s \<Longrightarrow> a \<in> V \<Longrightarrow> b \<in> V \<Longrightarrow>
      \<not> same s a b \<Longrightarrow> bnd s a = [] \<or> bnd s b = [] \<or> bnd s a = bnd s b \<Longrightarrow>
      \<exists>s'. join (a, b) s = Some s' \<and> inv s' \<and>
        (\<forall>x\<in>V. bnd s' x = (if same s x a \<or> same s x b
            then (if bnd s a = [] then bnd s b else bnd s a) else bnd s x) \<and>
          (\<forall>y\<in>V. same s' x y \<longleftrightarrow>
            same s x y \<or> (same s x a \<or> same s x b) \<and> (same s y a \<or> same s y b)))"
begin

definition settled :: "'s \<Rightarrow> 'i \<Rightarrow> 'i \<Rightarrow> bool" where
  "settled s a b \<longleftrightarrow> same s a b \<or> bnd s a \<noteq> [] \<and> bnd s b \<noteq> [] \<and> bnd s a \<noteq> bnd s b"

text \<open>What every sequence of joins does: classes only grow and a label stays.\<close>

definition evolves :: "'s \<Rightarrow> 's \<Rightarrow> bool" where
  "evolves s s' \<longleftrightarrow> inv s' \<and>
     (\<forall>x\<in>V. (bnd s x \<noteq> [] \<longrightarrow> bnd s' x = bnd s x) \<and> (\<forall>y\<in>V. same s x y \<longrightarrow> same s' x y))"

lemma evolves_refl: "inv s \<Longrightarrow> evolves s s"
  by (simp add: evolves_def)

lemma evolves_trans: "evolves s t \<Longrightarrow> evolves t u \<Longrightarrow> evolves s u"
  by (auto simp: evolves_def)

lemma evolves_settled: "evolves s t \<Longrightarrow> a \<in> V \<Longrightarrow> b \<in> V \<Longrightarrow> settled s a b \<Longrightarrow> settled t a b"
  by (auto simp: evolves_def settled_def)

lemma settled_same_left: "settled s a b \<Longrightarrow> same s x a \<Longrightarrow> settled s x b"
  using same_bnd same_trans unfolding settled_def by metis

lemma settled_sym: "settled s a b \<Longrightarrow> settled s b a"
  using same_sym unfolding settled_def by metis

lemma settled_equal_bound: "settled s a b \<Longrightarrow> bnd s a = bnd s b \<Longrightarrow> same s a b"
  by (auto simp: settled_def)

text \<open>One join, in the form the loops use.\<close>

definition touches :: "'s \<Rightarrow> 'i \<Rightarrow> 'i \<times> 'i \<Rightarrow> bool" where
  "touches s x ab \<longleftrightarrow> same s x (fst ab) \<or> same s x (snd ab)"

lemma join_step:
  assumes "inv s" "ab \<in> V \<times> V"
  shows "\<exists>s'. join ab s = Some s' \<and> evolves s s' \<and> settled s' (fst ab) (snd ab)
    \<and> (\<forall>x\<in>V. \<not> touches s x ab \<longrightarrow> bnd s' x = bnd s x)
    \<and> (bnd s (fst ab) = bnd s (snd ab) \<longrightarrow>
         (\<forall>x\<in>V. bnd s' x = bnd s x) \<and> same s' (fst ab) (snd ab))
    \<and> (\<forall>x\<in>V. \<forall>y\<in>V. same s' x y \<longrightarrow> same s x y \<or> touches s x ab \<and> touches s y ab)
    \<and> (\<forall>x\<in>V. bnd s' x = bnd s x \<or> same s' x (fst ab) \<and> (bnd s' x = bnd s (fst ab) \<or> bnd s' x = bnd s (snd ab)))"
proof -
  obtain a b where ab: "ab = (a, b)" "a \<in> V" "b \<in> V" using assms(2) by auto
  show ?thesis
  proof (cases "settled s a b")
    case True
    then obtain s' where s': "join (a, b) s = Some s'" "inv s'"
      "\<And>x. x \<in> V \<Longrightarrow> bnd s' x = bnd s x"
      "\<And>x y. x \<in> V \<Longrightarrow> y \<in> V \<Longrightarrow> same s' x y \<longleftrightarrow> same s x y"
      using join_keeps [OF assms(1) ab(2,3)] unfolding settled_def by blast
    with True ab have "settled s' a b" by (simp add: settled_def)
    moreover have "bnd s a = bnd s b \<longrightarrow> same s' a b"
      using \<open>settled s' a b\<close> s'(3) ab by (auto simp: settled_def)
    moreover have "evolves s s'" using s' by (simp add: evolves_def)
    ultimately show ?thesis using s' ab by simp
  next
    case False
    then have ns: "\<not> same s a b" and nc: "bnd s a = [] \<or> bnd s b = [] \<or> bnd s a = bnd s b"
      by (auto simp: settled_def)
    obtain s' where s': "join (a, b) s = Some s'" "inv s'"
      and b': "\<And>x. x \<in> V \<Longrightarrow> bnd s' x = (if touches s x ab
          then (if bnd s a = [] then bnd s b else bnd s a) else bnd s x)"
      and sm: "\<And>x y. x \<in> V \<Longrightarrow> y \<in> V \<Longrightarrow>
          same s' x y \<longleftrightarrow> same s x y \<or> touches s x ab \<and> touches s y ab"
      using join_merges [OF assms(1) ab(2,3) ns nc] unfolding touches_def ab by auto
    have t: "touches s a ab" "touches s b ab" by (simp_all add: touches_def ab same_refl)
    have tb: "bnd s x = bnd s a \<or> bnd s x = bnd s b" if "touches s x ab" for x
      using that same_bnd by (auto simp: touches_def ab)
    have "bnd s' x = bnd s x" if "x \<in> V" "bnd s x \<noteq> []" for x
      using b' [OF that(1)] tb [of x] nc that(2) by (cases "touches s x ab") auto
    then have "evolves s s'" using s'(2) sm by (simp add: evolves_def)
    moreover have "same s' a b" using sm [OF ab(2,3)] t by blast
    moreover have "bnd s' x = bnd s x" if "bnd s a = bnd s b" "x \<in> V" for x
      using b' [OF that(2)] tb [of x] that(1) by (cases "touches s x ab") auto
    moreover have "bnd s' x = bnd s x \<or> same s' x a \<and> (bnd s' x = bnd s a \<or> bnd s' x = bnd s b)" if "x \<in> V" for x
      using b' [OF that] sm [OF that ab(2)] t by auto
    ultimately show ?thesis using s'(1) b' sm ab by (auto simp: settled_def)
  qed
qed

text \<open>A list of joins, by what its pairs are.\<close>

lemma joins:
  assumes "inv s" "set ps \<subseteq> V \<times> V"
  shows "\<exists>t. fold_opt join ps s = Some t \<and> evolves s t \<and> (\<forall>(a, b)\<in>set ps. settled t a b)"
proof -
  have "\<exists>t. fold_opt join ps s = Some t \<and> (evolves s t \<and> (\<forall>ab\<in>set ps. settled t (fst ab) (snd ab)))"
  proof (rule fold_opt_rule [where I = "\<lambda>done t. evolves s t \<and> (\<forall>ab\<in>set done. settled t (fst ab) (snd ab))"])
    show "evolves s s \<and> (\<forall>ab\<in>set []. settled s (fst ab) (snd ab))"
      using assms(1) by (simp add: evolves_refl)
  next
    fix xs x ys t
    assume split: "ps = xs @ x # ys" and I: "evolves s t \<and> (\<forall>ab\<in>set xs. settled t (fst ab) (snd ab))"
    have "inv t" "x \<in> V \<times> V" using I split assms(2) by (auto simp: evolves_def)
    from join_step [OF this] obtain u where u: "join x t = Some u" "evolves t u" "settled u (fst x) (snd x)"
      by blast
    have "settled u (fst ab) (snd ab)" if "ab \<in> set xs" for ab
      using that I u(2) split assms(2) by (intro evolves_settled [OF u(2)]) auto
    with u I show "\<exists>s'. join x t = Some s' \<and> evolves s s' \<and> (\<forall>ab\<in>set (xs @ [x]). settled s' (fst ab) (snd ab))"
      using evolves_trans by auto
  qed
  then show ?thesis by (simp add: case_prod_beta)
qed

text \<open>Joins never leave an equivalence the pairs respect.\<close>

lemma joins_within:
  assumes "inv s" "set ps \<subseteq> V \<times> V" "fold_opt join ps s = Some t"
    and R: "equivp R" "\<forall>ab\<in>set ps. R (fst ab) (snd ab)"
    and "\<And>x y. x \<in> V \<Longrightarrow> y \<in> V \<Longrightarrow> same s x y \<Longrightarrow> R x y"
  shows "\<And>x y. x \<in> V \<Longrightarrow> y \<in> V \<Longrightarrow> same t x y \<Longrightarrow> R x y"
    and "\<And>x. x \<in> V \<Longrightarrow> (\<forall>ab\<in>set ps. \<not> R x (fst ab)) \<Longrightarrow> bnd t x = bnd s x"
proof -
  let ?I = "\<lambda>u. inv u \<and> (\<forall>x\<in>V. \<forall>y\<in>V. same u x y \<longrightarrow> R x y) \<and>
      (\<forall>x\<in>V. (\<forall>ab\<in>set ps. \<not> R x (fst ab)) \<longrightarrow> bnd u x = bnd s x)"
  have "\<exists>u. fold_opt join ps s = Some u \<and> ?I u"
  proof (rule fold_opt_inv)
    show "?I s" using assms(1,6) by blast
  next
    fix ab u
    assume ab: "ab \<in> set ps" and I: "?I u"
    then have V: "ab \<in> V \<times> V" using assms(2) by blast
    have T: "R x (fst ab)" if "x \<in> V" "touches u x ab" for x
    proof -
      from that I V have "R x (fst ab) \<or> R x (snd ab)" by (auto simp: touches_def mem_Times_iff)
      moreover have "R (snd ab) (fst ab)" using R ab by (blast intro: equivp_symp)
      ultimately show ?thesis using R(1) by (blast intro: equivp_transp)
    qed
    obtain u' where u': "join ab u = Some u'" "evolves u u'"
      "\<And>x. x \<in> V \<Longrightarrow> \<not> touches u x ab \<Longrightarrow> bnd u' x = bnd u x"
      "\<And>x y. x \<in> V \<Longrightarrow> y \<in> V \<Longrightarrow> same u' x y \<Longrightarrow> same u x y \<or> touches u x ab \<and> touches u y ab"
      using join_step [of u ab] I V by blast
    have "R x y" if "x \<in> V" "y \<in> V" "same u' x y" for x y
      using u'(4) [OF that] I that T R(1) by (meson equivp_symp equivp_transp)
    moreover have "bnd u' x = bnd s x" if "x \<in> V" "\<forall>ab\<in>set ps. \<not> R x (fst ab)" for x
      using u'(3) [OF that(1)] that I T [OF that(1)] ab by metis
    ultimately show "\<exists>s'. join ab u = Some s' \<and> ?I s'"
      using u'(1,2) by (auto simp: evolves_def)
  qed
  with assms(3) have "?I t" by auto
  then show "\<And>x y. x \<in> V \<Longrightarrow> y \<in> V \<Longrightarrow> same t x y \<Longrightarrow> R x y"
    and "\<And>x. x \<in> V \<Longrightarrow> (\<forall>ab\<in>set ps. \<not> R x (fst ab)) \<Longrightarrow> bnd t x = bnd s x"
    by blast+
qed

text \<open>Joins of equally bound pairs are never refused.\<close>

lemma joins_equal:
  assumes "inv s" "set ps \<subseteq> V \<times> V" "\<forall>ab\<in>set ps. bnd s (fst ab) = bnd s (snd ab)"
  shows "\<exists>t. fold_opt join ps s = Some t \<and> evolves s t \<and> (\<forall>x\<in>V. bnd t x = bnd s x) \<and>
    (\<forall>ab\<in>set ps. same t (fst ab) (snd ab))"
proof -
  obtain t where t: "fold_opt join ps s = Some t" "evolves s t" "\<forall>(a, b)\<in>set ps. settled t a b"
    using joins [OF assms(1,2)] by blast
  have "\<exists>u. fold_opt join ps s = Some u \<and> (inv u \<and> (\<forall>x\<in>V. bnd u x = bnd s x))"
  proof (rule fold_opt_inv)
    show "inv s \<and> (\<forall>x\<in>V. bnd s x = bnd s x)" using assms(1) by simp
  next
    fix ab u
    assume ab: "ab \<in> set ps" "inv u \<and> (\<forall>x\<in>V. bnd u x = bnd s x)"
    then have V: "ab \<in> V \<times> V" using assms(2) by blast
    with ab assms(3) have "bnd u (fst ab) = bnd u (snd ab)" by auto
    with join_step [of u ab] ab V show "\<exists>s'. join ab u = Some s' \<and> inv s' \<and> (\<forall>x\<in>V. bnd s' x = bnd s x)"
      by (auto simp: evolves_def)
  qed
  with t(1) have b: "\<forall>x\<in>V. bnd t x = bnd s x" by auto
  moreover have "same t (fst ab) (snd ab)" if "ab \<in> set ps" for ab
  proof (rule settled_equal_bound)
    show "settled t (fst ab) (snd ab)" using that t(3) by (auto simp: case_prod_beta)
    have "fst ab \<in> V" "snd ab \<in> V" using that assms(2) by (auto simp: mem_Times_iff)
    with b that assms(3) show "bnd t (fst ab) = bnd t (snd ab)" by simp
  qed
  ultimately show ?thesis using t by blast
qed

text \<open>A label of a class is the initial label of one of its items.\<close>

definition realised :: "('i \<Rightarrow> 'b list) \<Rightarrow> 's \<Rightarrow> bool" where
  "realised lab s \<longleftrightarrow> (\<forall>x\<in>V. bnd s x \<noteq> [] \<longrightarrow> (\<exists>y\<in>V. same s x y \<and> lab y = bnd s x))"

lemma joins_realised:
  assumes "inv s" "set ps \<subseteq> V \<times> V" "fold_opt join ps s = Some t" "realised lab s"
  shows "realised lab t"
proof -
  have "\<exists>u. fold_opt join ps s = Some u \<and> (inv u \<and> realised lab u)"
  proof (rule fold_opt_inv)
    show "inv s \<and> realised lab s" using assms by simp
  next
    fix ab u
    assume ab: "ab \<in> set ps" "inv u \<and> realised lab u"
    then have V: "ab \<in> V \<times> V" using assms(2) by blast
    obtain u' where u': "join ab u = Some u'" "evolves u u'" "settled u' (fst ab) (snd ab)"
      "\<And>x. x \<in> V \<Longrightarrow> bnd u' x = bnd u x \<or>
         same u' x (fst ab) \<and> (bnd u' x = bnd u (fst ab) \<or> bnd u' x = bnd u (snd ab))"
      using join_step [of u ab] ab V by blast
    have up: "\<exists>y\<in>V. same u' x y \<and> lab y = bnd u x" if "x \<in> V" "bnd u x \<noteq> []" for x
      using ab(2) that u'(2) by (fastforce simp: realised_def evolves_def)
    have "\<exists>y\<in>V. same u' x y \<and> lab y = bnd u' x" if x: "x \<in> V" "bnd u' x \<noteq> []" for x
      using u'(4) [OF x(1)]
    proof
      assume "bnd u' x = bnd u x"
      with up x show ?thesis by simp
    next
      assume c: "same u' x (fst ab) \<and> (bnd u' x = bnd u (fst ab) \<or> bnd u' x = bnd u (snd ab))"
      have bx: "bnd u' x = bnd u' (fst ab)" using c same_bnd by blast
      show ?thesis
      proof (cases "bnd u' x = bnd u (fst ab)")
        case True
        with up [of "fst ab"] x V c same_trans show ?thesis by (metis mem_Times_iff)
      next
        case False
        with c have e: "bnd u' x = bnd u (snd ab)" by blast
        with u'(2) V x have "bnd u' (snd ab) = bnd u' x" by (auto simp: evolves_def)
        with bx have "bnd u' (fst ab) = bnd u' (snd ab)" by simp
        with u'(3) have "same u' (fst ab) (snd ab)" by (rule settled_equal_bound)
        with c have "same u' x (snd ab)" using same_trans by blast
        with up [of "snd ab"] x e V same_trans show ?thesis by (metis mem_Times_iff)
      qed
    qed
    with u' show "\<exists>s'. join ab u = Some s' \<and> inv s' \<and> realised lab s'"
      by (auto simp: realised_def evolves_def)
  qed
  with assms(3) show ?thesis by auto
qed

end

interpretation uf: guarded_partition V "uf_inv V" same_comp bound union_step for V
proof
  show "same_comp s x x" for s x by (simp add: same_comp_def)
  show "same_comp s x y \<Longrightarrow> same_comp s y x" for s x y by (simp add: same_comp_def)
  show "same_comp s x y \<Longrightarrow> same_comp s y z \<Longrightarrow> same_comp s x z" for s x y z by (simp add: same_comp_def)
  show "same_comp s x y \<Longrightarrow> bound s x = bound s y" for s x y by (simp add: same_comp_def bound_def)
next
  fix s a b
  assume inv: "uf_inv V s" and V: "a \<in> V" "b \<in> V"
    and k: "same_comp s a b \<or> bound s a \<noteq> [] \<and> bound s b \<noteq> [] \<and> bound s a \<noteq> bound s b"
  obtain d' out where o: "guarded_union a b s = Some (d', out)" "uf_inv V d'"
    "out = unionJoined \<longleftrightarrow> same_comp s a b" "out = unionRefused \<longleftrightarrow> conflict s a b"
    "out \<noteq> unionMerged \<longrightarrow> (\<forall>y\<in>V. the_root d' y = the_root s y \<and> bound d' y = bound s y)"
    using guarded_union_spec [OF inv V] by blast
  from k o(3,4) have "out \<noteq> unionMerged" by (auto simp: conflict_def)
  with o show "\<exists>s'. union_step (a, b) s = Some s' \<and> uf_inv V s' \<and>
      (\<forall>x\<in>V. bound s' x = bound s x \<and> (\<forall>y\<in>V. same_comp s' x y \<longleftrightarrow> same_comp s x y))"
    by (simp add: union_step_def same_comp_def)
next
  fix s a b
  assume inv: "uf_inv V s" and V: "a \<in> V" "b \<in> V" and ns: "\<not> same_comp s a b"
    and nc: "bound s a = [] \<or> bound s b = [] \<or> bound s a = bound s b"
  obtain d' out where o: "guarded_union a b s = Some (d', out)" "uf_inv V d'"
    "out = unionJoined \<longleftrightarrow> same_comp s a b" "out = unionRefused \<longleftrightarrow> conflict s a b"
    and m: "out = unionMerged \<longrightarrow>
       (\<exists>r. \<forall>y\<in>V. (the_root d' y = (if same_comp s y a \<or> same_comp s y b then r else the_root s y)) \<and>
          (the_root s y = r \<longrightarrow> same_comp s y a \<or> same_comp s y b) \<and>
          bound d' y = (if same_comp s y a \<or> same_comp s y b
                        then (if bound s a = [] then bound s b else bound s a) else bound s y))"
    using guarded_union_spec [OF inv V] by blast
  have "out = unionMerged" using o(3,4) ns nc by (cases out) (auto simp: conflict_def)
  with m obtain r where r: "\<And>y. y \<in> V \<Longrightarrow>
      the_root d' y = (if same_comp s y a \<or> same_comp s y b then r else the_root s y)"
    "\<And>y. y \<in> V \<Longrightarrow> the_root s y = r \<Longrightarrow> same_comp s y a \<or> same_comp s y b"
    "\<And>y. y \<in> V \<Longrightarrow> bound d' y = (if same_comp s y a \<or> same_comp s y b
                        then (if bound s a = [] then bound s b else bound s a) else bound s y)"
    by blast
  have "same_comp d' x y \<longleftrightarrow> same_comp s x y \<or>
      (same_comp s x a \<or> same_comp s x b) \<and> (same_comp s y a \<or> same_comp s y b)"
    if "x \<in> V" "y \<in> V" for x y
  proof (cases "same_comp s x a \<or> same_comp s x b"; cases "same_comp s y a \<or> same_comp s y b")
    assume x: "same_comp s x a \<or> same_comp s x b" and y: "\<not> (same_comp s y a \<or> same_comp s y b)"
    have "the_root d' x = r" "the_root d' y \<noteq> r"
      using r(1) [OF that(1)] r(1,2) [OF that(2)] x y by auto
    moreover have "\<not> same_comp s x y" using x y by (auto simp: same_comp_def)
    ultimately show ?thesis using x y by (simp add: same_comp_def [of d'])
  next
    assume x: "\<not> (same_comp s x a \<or> same_comp s x b)" and y: "same_comp s y a \<or> same_comp s y b"
    have "the_root d' y = r" "the_root d' x \<noteq> r"
      using r(1) [OF that(2)] r(1,2) [OF that(1)] x y by auto
    moreover have "\<not> same_comp s x y" using x y by (auto simp: same_comp_def)
    ultimately show ?thesis using x y by (simp add: same_comp_def [of d'])
  qed (use r(1) [OF that(1)] r(1) [OF that(2)] in \<open>simp_all add: same_comp_def\<close>)
  with o(1,2) r(3) show "\<exists>s'. union_step (a, b) s = Some s' \<and> uf_inv V s' \<and>
      (\<forall>x\<in>V. bound s' x = (if same_comp s x a \<or> same_comp s x b
            then (if bound s a = [] then bound s b else bound s a) else bound s x) \<and>
        (\<forall>y\<in>V. same_comp s' x y \<longleftrightarrow> same_comp s x y \<or>
          (same_comp s x a \<or> same_comp s x b) \<and> (same_comp s y a \<or> same_comp s y b)))"
    by (simp add: union_step_def)
qed

section \<open>The rows as items\<close>

definition ids :: "artistRow list \<Rightarrow> string set" where
  "ids rows = rId ` set rows"

definition row_of :: "artistRow list \<Rightarrow> string \<Rightarrow> artistRow" where
  "row_of rows i = the (map_of (map (\<lambda>r. (rId r, r)) rows) i)"

lemma row_of_id: "distinct (map rId rows) \<Longrightarrow> r \<in> set rows \<Longrightarrow> row_of rows (rId r) = r"
  unfolding row_of_def by (subst map_of_is_SomeI [of _ "rId r" r]) (auto simp: comp_def)

lemma init_parent: "fold (\<lambda>r p. p(rId r := rId r)) rows q i = (if i \<in> ids rows then i else q i)"
  by (induction rows arbitrary: q) (auto simp: ids_def)

lemma init_mbid:
  "distinct (map rId rows) \<Longrightarrow> r \<in> set rows \<Longrightarrow> fold (\<lambda>r p. p(rId r := rMbid r)) rows q (rId r) = rMbid r"
proof (induction rows arbitrary: q)
  case (Cons a rows)
  have keep: "rId r \<notin> rId ` set rows \<Longrightarrow> fold (\<lambda>r p. p(rId r := rMbid r)) rows q (rId r) = q (rId r)" for q r
    by (induction rows arbitrary: q) auto
  show ?case
  proof (cases "r \<in> set rows")
    case True
    with Cons show ?thesis by (simp del: fun_upd_apply)
  next
    case False
    with Cons.prems have "r = a" "rId r \<notin> rId ` set rows" by auto
    then show ?thesis unfolding fold_simps by (subst keep) simp_all
  qed
qed simp

lemma init_root: "i \<in> ids rows \<Longrightarrow> the_root (initUnionFind rows) i = i"
  by (rule the_rootI, rule rooted.root) (simp add: initUnionFind_def init_parent)

lemma init_inv: "uf_inv (ids rows) (initUnionFind rows)"
  by (simp add: uf_inv_def forest_def initUnionFind_def init_parent) (simp add: ids_def)

lemma init_bound:
  "distinct (map rId rows) \<Longrightarrow> r \<in> set rows \<Longrightarrow> bound (initUnionFind rows) (rId r) = rMbid r"
  unfolding bound_def by (subst init_root) (simp_all add: initUnionFind_def init_mbid ids_def)

section \<open>A name bucket\<close>

fun part_pairs :: "artistRow list \<Rightarrow> (string \<rightharpoonup> string) \<Rightarrow> (string \<times> string) list" where
  "part_pairs [] fb = []"
| "part_pairs (r # rs) fb =
     (case fb (rMbid r) of Some rep \<Rightarrow> (rep, rId r) # part_pairs rs fb
      | None \<Rightarrow> part_pairs rs (fb(rMbid r \<mapsto> rId r)))"

fun part_reps :: "artistRow list \<Rightarrow> (string \<rightharpoonup> string) \<Rightarrow> string list" where
  "part_reps [] fb = []"
| "part_reps (r # rs) fb =
     (case fb (rMbid r) of Some rep \<Rightarrow> part_reps rs fb
      | None \<Rightarrow> rId r # part_reps rs (fb(rMbid r \<mapsto> rId r)))"

fun cross_pairs :: "string list \<Rightarrow> (string \<times> string) list" where
  "cross_pairs [] = []"
| "cross_pairs (x # xs) = map (Pair x) xs @ cross_pairs xs"

lemma partition_pass_joins:
  "partition_pass rs fb reps d =
     map_option (Pair (reps @ part_reps rs fb)) (fold_opt union_step (part_pairs rs fb) d)"
proof (induction rs fb reps d rule: partition_pass.induct)
  case (2 r rs fb reps d)
  show ?case
  proof (cases "fb (rMbid r)")
    case None
    from "2.IH"(1) [OF None] None show ?thesis by (simp del: fun_upd_apply)
  next
    case (Some rep)
    with "2.IH"(2) [OF Some] show ?thesis by (cases "union_step (rep, rId r) d") simp_all
  qed
qed simp

lemma fold_opt_Pair: "fold_opt (\<lambda>y. union_step (x, y)) ys d = fold_opt union_step (map (Pair x) ys) d"
proof (induction ys arbitrary: d)
  case (Cons y ys)
  then show ?case by (cases "union_step (x, y) d") simp_all
qed simp

lemma cross_pass_joins: "cross_pass xs d = fold_opt union_step (cross_pairs xs) d"
proof (induction xs arbitrary: d)
  case (Cons x xs)
  then show ?case
    by (cases "fold_opt union_step (map (Pair x) xs) d") (simp_all add: fold_opt_Pair fold_opt_append)
qed simp

lemma bucket_pass_joins:
  "bucket_pass bucket d = Option.bind (fold_opt union_step (part_pairs bucket Map.empty) d)
     (fold_opt union_step (cross_pairs (part_reps bucket Map.empty)))"
  by (cases "fold_opt union_step (part_pairs bucket Map.empty) d")
    (simp_all add: bucket_pass_def partition_pass_joins cross_pass_joins)

lemma part_pairs_rows:
  assumes "ab \<in> set (part_pairs rs fb)" "set rs \<subseteq> set B"
    and "\<And>m i. fb m = Some i \<Longrightarrow> \<exists>r\<in>set B. rId r = i \<and> rMbid r = m"
  shows "\<exists>r\<in>set B. \<exists>r'\<in>set B. ab = (rId r, rId r') \<and> rMbid r = rMbid r'"
  using assms
proof (induction rs arbitrary: fb)
  case (Cons r rs)
  show ?case
  proof (cases "fb (rMbid r)")
    case None
    have "\<exists>q\<in>set B. rId q = i \<and> rMbid q = m" if "(fb(rMbid r \<mapsto> rId r)) m = Some i" for m i
      using that Cons.prems(2,3) by (auto split: if_splits)
    with Cons.IH [of "fb(rMbid r \<mapsto> rId r)"] None Cons.prems(1,2) show ?thesis
      by (simp del: fun_upd_apply)
  next
    case (Some rep)
    then obtain q where "q \<in> set B" "rId q = rep" "rMbid q = rMbid r"
      using Cons.prems(3) by blast
    with Some Cons show ?thesis by auto
  qed
qed simp

lemma part_reps_rows: "set (part_reps rs fb) \<subseteq> rId ` set rs"
proof (induction rs fb rule: part_reps.induct)
  case (2 r rs fb)
  show ?case
  proof (cases "fb (rMbid r)")
    case None
    from "2.IH"(1) [OF None] None show ?thesis by (auto simp del: fun_upd_apply)
  next
    case (Some rep)
    from "2.IH"(2) [OF Some] Some show ?thesis by auto
  qed
qed simp

lemma part_rep_of:
  "r \<in> set rs \<Longrightarrow> \<exists>rep. (rep = rId r \<or> (rep, rId r) \<in> set (part_pairs rs fb)) \<and>
     (rep \<in> set (part_reps rs fb) \<or> fb (rMbid r) = Some rep)"
proof (induction rs fb rule: part_pairs.induct)
  case (2 q rs fb)
  show ?case
  proof (cases "fb (rMbid q)")
    case None
    show ?thesis
    proof (cases "r = q")
      case False
      with "2.prems" have "r \<in> set rs" by simp
      let ?fb = "fb(rMbid q \<mapsto> rId q)"
      obtain rep where rep: "rep = rId r \<or> (rep, rId r) \<in> set (part_pairs rs ?fb)"
        "rep \<in> set (part_reps rs ?fb) \<or> ?fb (rMbid r) = Some rep"
        using "2.IH"(1) [OF None \<open>r \<in> set rs\<close>] by blast
      have "?fb (rMbid r) = Some rep \<Longrightarrow> rep = rId q \<or> fb (rMbid r) = Some rep"
        by (simp split: if_splits)
      with rep None show ?thesis
        by (intro exI [of _ rep]) (simp del: fun_upd_apply, blast)
    qed (use None in auto)
  next
    case (Some rep)
    show ?thesis
    proof (cases "r = q")
      case False
      with "2.prems" have "r \<in> set rs" by simp
      from "2.IH"(2) [OF Some this] Some show ?thesis by auto
    qed (use Some in auto)
  qed
qed simp

lemma cross_pairs_all: "x \<in> set xs \<Longrightarrow> y \<in> set xs \<Longrightarrow> x \<noteq> y \<Longrightarrow>
  (x, y) \<in> set (cross_pairs xs) \<or> (y, x) \<in> set (cross_pairs xs)"
  by (induction xs) auto

lemma cross_pairs_in: "ab \<in> set (cross_pairs xs) \<Longrightarrow> ab \<in> set xs \<times> set xs"
  by (induction xs) auto

lemma bucket_pass_spec:
  assumes inv: "uf_inv V s" and V: "ids B \<subseteq> V"
    and pure: "\<forall>r\<in>set B. bound s (rId r) = rMbid r"
  shows "\<exists>t. bucket_pass B s = Some t \<and> uf.evolves V s t \<and>
    (\<forall>r\<in>set B. \<forall>r'\<in>set B. uf.settled t (rId r) (rId r')) \<and>
    (\<forall>R. equivp R \<longrightarrow> (\<forall>r\<in>set B. \<forall>r'\<in>set B. R (rId r) (rId r')) \<longrightarrow>
       (\<forall>x\<in>V. \<forall>y\<in>V. same_comp s x y \<longrightarrow> R x y) \<longrightarrow>
       (\<forall>x\<in>V. \<forall>y\<in>V. same_comp t x y \<longrightarrow> R x y) \<and>
       (\<forall>x\<in>V. (\<forall>r\<in>set B. \<not> R x (rId r)) \<longrightarrow> bound t x = bound s x)) \<and>
    (\<forall>lab. uf.realised V lab s \<longrightarrow> uf.realised V lab t)"
proof -
  let ?ps = "part_pairs B Map.empty" and ?cs = "cross_pairs (part_reps B Map.empty)"
  have psr: "\<exists>r\<in>set B. \<exists>r'\<in>set B. ab = (rId r, rId r') \<and> rMbid r = rMbid r'" if "ab \<in> set ?ps" for ab
    using part_pairs_rows [OF that subset_refl] by simp
  have csr: "\<exists>r\<in>set B. \<exists>r'\<in>set B. ab = (rId r, rId r')" if "ab \<in> set ?cs" for ab
    using cross_pairs_in [OF that] part_reps_rows [of B Map.empty] by fastforce
  have ps: "set ?ps \<subseteq> V \<times> V" using psr V by (fastforce simp: ids_def)
  have cs: "set ?cs \<subseteq> V \<times> V" using csr V by (fastforce simp: ids_def)
  have eqb: "\<forall>ab\<in>set ?ps. bound s (fst ab) = bound s (snd ab)"
    using psr pure by fastforce
  obtain u where u: "fold_opt union_step ?ps s = Some u" "uf.evolves V s u"
    "\<forall>ab\<in>set ?ps. same_comp u (fst ab) (snd ab)" "\<forall>x\<in>V. bound u x = bound s x"
    using uf.joins_equal [OF inv ps eqb] by blast
  have iu: "uf_inv V u" using u(2) by (simp add: uf.evolves_def)
  obtain t where t: "fold_opt union_step ?cs u = Some t" "uf.evolves V u t"
    "\<forall>(a, b)\<in>set ?cs. uf.settled t a b"
    using uf.joins [OF iu cs] by blast
  have run: "bucket_pass B s = Some t" by (simp add: bucket_pass_joins u(1) t(1))
  have ev: "uf.evolves V s t" using u(2) t(2) by (rule uf.evolves_trans)
  have repd: "\<exists>rep\<in>set (part_reps B Map.empty). same_comp t (rId r) rep" if r: "r \<in> set B" for r
  proof -
    obtain rep where rep: "rep = rId r \<or> (rep, rId r) \<in> set ?ps" "rep \<in> set (part_reps B Map.empty)"
      using part_rep_of [OF r, of Map.empty] by auto
    have "same_comp t (rId r) rep"
      using rep(1)
    proof
      assume "(rep, rId r) \<in> set ?ps"
      with u(3) ps have "same_comp u rep (rId r)" "rep \<in> V" "rId r \<in> V" by auto
      with t(2) have "same_comp t rep (rId r)" by (simp add: uf.evolves_def)
      then show ?thesis by (rule uf.same_sym)
    qed (simp add: uf.same_refl)
    with rep(2) show ?thesis by blast
  qed
  have "uf.settled t (rId r) (rId r')" if r: "r \<in> set B" and r': "r' \<in> set B" for r r'
  proof -
    obtain p q where p: "p \<in> set (part_reps B Map.empty)" "same_comp t (rId r) p"
      and q: "q \<in> set (part_reps B Map.empty)" "same_comp t (rId r') q"
      using repd [OF r] repd [OF r'] by blast
    have "uf.settled t p q"
    proof (cases "p = q")
      case True
      then show ?thesis by (simp add: uf.settled_def uf.same_refl)
    next
      case False
      with cross_pairs_all [OF p(1) q(1)] t(3) show ?thesis by (auto intro: uf.settled_sym)
    qed
    then have "uf.settled t (rId r) q" using p(2) by (rule uf.settled_same_left)
    then have "uf.settled t q (rId r)" by (rule uf.settled_sym)
    then have "uf.settled t (rId r') (rId r)" using q(2) by (rule uf.settled_same_left)
    then show ?thesis by (rule uf.settled_sym)
  qed
  moreover have "(\<forall>x\<in>V. \<forall>y\<in>V. same_comp t x y \<longrightarrow> R x y) \<and>
       (\<forall>x\<in>V. (\<forall>r\<in>set B. \<not> R x (rId r)) \<longrightarrow> bound t x = bound s x)"
    if R: "equivp R" "\<forall>r\<in>set B. \<forall>r'\<in>set B. R (rId r) (rId r')"
      "\<forall>x\<in>V. \<forall>y\<in>V. same_comp s x y \<longrightarrow> R x y" for R
  proof -
    have Rp: "\<forall>ab\<in>set ?ps. R (fst ab) (snd ab)" using psr R(2) by fastforce
    have Rc: "\<forall>ab\<in>set ?cs. R (fst ab) (snd ab)" using csr R(2) by fastforce
    note w1 = uf.joins_within [OF inv ps u(1) R(1) Rp]
    have s1: "same_comp u x y \<Longrightarrow> R x y" if "x \<in> V" "y \<in> V" for x y
      using w1(1) that R(3) by blast
    note w2 = uf.joins_within [OF iu cs t(1) R(1) Rc]
    have "R x y" if "x \<in> V" "y \<in> V" "same_comp t x y" for x y
      using w2(1) that s1 by blast
    moreover have "bound t x = bound s x" if x: "x \<in> V" "\<forall>r\<in>set B. \<not> R x (rId r)" for x
    proof -
      have "\<forall>ab\<in>set ?cs. \<not> R x (fst ab)" using csr x(2) by fastforce
      with w2(2) [of x] s1 x(1) have "bound t x = bound u x" by blast
      with u(4) x(1) show ?thesis by simp
    qed
    ultimately show ?thesis by blast
  qed
  moreover have "uf.realised V lab t" if "uf.realised V lab s" for lab
    using uf.joins_realised [OF iu cs t(1)] uf.joins_realised [OF inv ps u(1) that] by blast
  ultimately show ?thesis using run ev by blast
qed

section \<open>The passes over all rows\<close>

text \<open>What holds after the name pass over the keys of \<open>done\<close>.\<close>

definition same_key :: "(string \<Rightarrow> string) \<Rightarrow> artistRow list \<Rightarrow> string \<Rightarrow> string \<Rightarrow> bool" where
  "same_key nkey rows x y \<longleftrightarrow> x = y \<or> nkey (rName (row_of rows x)) = nkey (rName (row_of rows y))"

lemma equivp_same_key: "equivp (same_key nkey rows)"
  by (rule equivpI) (auto intro!: reflpI sympI transpI simp: same_key_def)

definition name_inv ::
  "(string \<Rightarrow> string) \<Rightarrow> artistRow list \<Rightarrow> string list \<Rightarrow> union_find \<Rightarrow> bool" where
  "name_inv nkey rows done t \<longleftrightarrow>
     uf.evolves (ids rows) (initUnionFind rows) t \<and>
     (\<forall>x\<in>ids rows. \<forall>y\<in>ids rows. same_comp t x y \<longrightarrow> same_key nkey rows x y) \<and>
     (\<forall>r\<in>set rows. nkey (rName r) \<notin> set done \<longrightarrow> bound t (rId r) = rMbid r) \<and>
     (\<forall>r\<in>set rows. \<forall>r'\<in>set rows. nkey (rName r) \<in> set done \<longrightarrow> nkey (rName r) = nkey (rName r') \<longrightarrow>
        uf.settled t (rId r) (rId r')) \<and>
     uf.realised (ids rows) (\<lambda>i. rMbid (row_of rows i)) t"

lemma name_invD:
  assumes "name_inv nkey rows done t"
  shows "uf.evolves (ids rows) (initUnionFind rows) t"
    and "uf_inv (ids rows) t"
    and "\<And>x y. x \<in> ids rows \<Longrightarrow> y \<in> ids rows \<Longrightarrow> same_comp t x y \<Longrightarrow> same_key nkey rows x y"
    and "\<And>r. r \<in> set rows \<Longrightarrow> nkey (rName r) \<notin> set done \<Longrightarrow> bound t (rId r) = rMbid r"
    and "\<And>r r'. r \<in> set rows \<Longrightarrow> r' \<in> set rows \<Longrightarrow> nkey (rName r) \<in> set done \<Longrightarrow>
      nkey (rName r) = nkey (rName r') \<Longrightarrow> uf.settled t (rId r) (rId r')"
    and "uf.realised (ids rows) (\<lambda>i. rMbid (row_of rows i)) t"
  using assms unfolding name_inv_def by (blast, simp add: uf.evolves_def, blast+)

lemma in_ids: "r \<in> set rows \<Longrightarrow> rId r \<in> ids rows"
  by (simp add: ids_def)

lemma name_inv_init:
  assumes "distinct (map rId rows)"
  shows "name_inv nkey rows [] (initUnionFind rows)"
  using assms init_inv [of rows]
  by (auto simp: name_inv_def uf.evolves_def same_comp_def init_root same_key_def init_bound in_ids
      uf.realised_def row_of_id ids_def)

lemma name_inv_step:
  assumes D: "distinct (map rId rows)" and I: "name_inv nkey rows done s" and k: "k \<notin> set done"
  shows "\<exists>t. bucket_pass (filter (\<lambda>r. nkey (rName r) = k) rows) s = Some t \<and>
    name_inv nkey rows (done @ [k]) t"
proof -
  let ?B = "filter (\<lambda>r. nkey (rName r) = k) rows" and ?V = "ids rows"
  note D' = name_invD [OF I]
  note inv = D'(2)
  have sub: "ids ?B \<subseteq> ?V" by (auto simp: ids_def)
  have pure: "\<forall>r\<in>set ?B. bound s (rId r) = rMbid r"
  proof
    fix r
    assume "r \<in> set ?B"
    then have "r \<in> set rows" "nkey (rName r) \<notin> set done" using k by auto
    then show "bound s (rId r) = rMbid r" by (rule D'(4))
  qed
  obtain t where t: "bucket_pass ?B s = Some t" "uf.evolves ?V s t"
    and st: "\<forall>r\<in>set ?B. \<forall>r'\<in>set ?B. uf.settled t (rId r) (rId r')"
    and R: "\<forall>R. equivp R \<longrightarrow> (\<forall>r\<in>set ?B. \<forall>r'\<in>set ?B. R (rId r) (rId r')) \<longrightarrow>
       (\<forall>x\<in>?V. \<forall>y\<in>?V. same_comp s x y \<longrightarrow> R x y) \<longrightarrow>
       (\<forall>x\<in>?V. \<forall>y\<in>?V. same_comp t x y \<longrightarrow> R x y) \<and>
       (\<forall>x\<in>?V. (\<forall>r\<in>set ?B. \<not> R x (rId r)) \<longrightarrow> bound t x = bound s x)"
    and re: "\<forall>lab. uf.realised ?V lab s \<longrightarrow> uf.realised ?V lab t"
    using bucket_pass_spec [OF inv sub pure] by - (elim exE conjE, rule that)
  have Rk: "\<forall>r\<in>set ?B. \<forall>r'\<in>set ?B. same_key nkey rows (rId r) (rId r')"
    by (simp add: same_key_def row_of_id [OF D])
  have Rs: "\<forall>x\<in>?V. \<forall>y\<in>?V. same_comp s x y \<longrightarrow> same_key nkey rows x y"
    using D'(3) by blast
  note W = R [THEN spec, THEN mp, THEN mp, THEN mp, OF equivp_same_key Rk Rs]
  have "uf.evolves ?V (initUnionFind rows) t"
    using D'(1) t(2) by (rule uf.evolves_trans)
  moreover have "bound t (rId r) = rMbid r" if r: "r \<in> set rows" "nkey (rName r) \<notin> set (done @ [k])" for r
  proof -
    have "\<not> same_key nkey rows (rId r) (rId q)" if "q \<in> set ?B" for q
    proof -
      have q: "q \<in> set rows" "nkey (rName q) = k" using that by auto
      with r(2) have "nkey (rName r) \<noteq> nkey (rName q)" by auto
      moreover have "row_of rows (rId r) = r" "row_of rows (rId q) = q"
        using row_of_id [OF D] r(1) q(1) by blast+
      ultimately show ?thesis by (metis same_key_def)
    qed
    with W in_ids [OF r(1)] have "bound t (rId r) = bound s (rId r)" by blast
    also have "\<dots> = rMbid r" using D'(4) r by simp
    finally show ?thesis .
  qed
  moreover have "uf.settled t (rId r) (rId r')"
    if r: "r \<in> set rows" "r' \<in> set rows" "nkey (rName r) \<in> set (done @ [k])" "nkey (rName r) = nkey (rName r')" for r r'
  proof (cases "nkey (rName r) = k")
    case True
    with r st show ?thesis by simp
  next
    case False
    with r D'(5) have "uf.settled s (rId r) (rId r')" by simp
    with uf.evolves_settled [OF t(2)] in_ids r show ?thesis by blast
  qed
  ultimately show ?thesis
    using t(1) W re [THEN spec, THEN mp, OF D'(6)] unfolding name_inv_def by blast
qed

lemma unionByNameKey_spec:
  assumes "distinct (map rId rows)" "distinct keys"
  shows "\<exists>t. unionByNameKey nkey keys rows (initUnionFind rows) = Some t \<and> name_inv nkey rows keys t"
  unfolding unionByNameKey_def
proof (rule fold_opt_rule [where I = "name_inv nkey rows"])
  show "name_inv nkey rows [] (initUnionFind rows)" using assms(1) by (rule name_inv_init)
next
  fix xs x ys s
  assume "keys = xs @ x # ys" "name_inv nkey rows xs s"
  with assms name_inv_step [of rows nkey xs s x]
  show "\<exists>t. bucket_pass (filter (\<lambda>r. nkey (rName r) = x) rows) s = Some t \<and> name_inv nkey rows (xs @ [x]) t"
    by simp
qed

lemma find_evolves:
  assumes "uf_inv V d" "i \<in> V"
  shows "\<exists>d'. uf_find i d = Some (d', the_root d i) \<and> uf.evolves V d d' \<and>
    (\<forall>y\<in>V. the_root d' y = the_root d y) \<and> the_root d i \<in> V \<and> same_comp d' (the_root d i) i"
proof -
  obtain d' where d': "uf_find i d = Some (d', the_root d i)" "uf_inv V d'" "repMBID d' = repMBID d"
    "\<forall>y\<in>V. the_root d' y = the_root d y"
    using uf_find_spec [OF assms] by blast
  have r: "the_root d i \<in> V" using the_root_in(2) [OF assms] .
  have "the_root d (the_root d i) = the_root d i"
    by (rule the_rootI, rule rooted.root) (rule the_root_in(3) [OF assms])
  with d' r assms(2) show ?thesis by (simp add: uf.evolves_def same_comp_def bound_def)
qed

text \<open>Edges found: a recorded root stands for a component, whatever happens to it later.\<close>

lemma mbid_bucket_spec:
  assumes "uf_inv V d" "first \<in> V" "set is \<subseteq> V" "set edges \<subseteq> V"
  shows "\<exists>edges' d'. mbid_bucket first is (edges, d) = Some (edges', d') \<and> uf.evolves V d d' \<and>
    set edges \<subseteq> set edges' \<and> set edges' \<subseteq> V \<and> (\<forall>i\<in>set is. uf.settled d' first i) \<and>
    (is \<noteq> [] \<longrightarrow> (\<exists>e\<in>set edges'. same_comp d' e first))"
  using assms
proof (induction "is" arbitrary: edges d)
  case Nil
  then show ?case by (simp add: uf.evolves_refl)
next
  case (Cons i "is")
  have V: "(first, i) \<in> V \<times> V" using Cons.prems by simp
  obtain d1 where d1: "union_step (first, i) d = Some d1" "uf.evolves V d d1" "uf.settled d1 first i"
    using uf.join_step [OF Cons.prems(1) V] by auto
  have i1: "uf_inv V d1" using d1(2) by (simp add: uf.evolves_def)
  obtain d2 where d2: "uf_find first d1 = Some (d2, the_root d1 first)" "uf.evolves V d1 d2"
    "the_root d1 first \<in> V" "same_comp d2 (the_root d1 first) first"
    using find_evolves [OF i1 Cons.prems(2)] by blast
  have i2: "uf_inv V d2" using d2(2) by (simp add: uf.evolves_def)
  obtain edges' d' where e: "mbid_bucket first is (List.insert (the_root d1 first) edges, d2) = Some (edges', d')"
    "uf.evolves V d2 d'" "set (List.insert (the_root d1 first) edges) \<subseteq> set edges'" "set edges' \<subseteq> V"
    "\<forall>i\<in>set is. uf.settled d' first i"
    using Cons.IH [OF i2 Cons.prems(2), of "List.insert (the_root d1 first) edges"] Cons.prems(3,4) d2(3) by auto
  have ev: "uf.evolves V d1 d'" using d2(2) e(2) by (rule uf.evolves_trans)
  have "uf.settled d' first i" using uf.evolves_settled [OF ev] d1(3) Cons.prems by simp
  moreover have "same_comp d' (the_root d1 first) first"
    using e(2) d2(3,4) Cons.prems(2) by (simp add: uf.evolves_def)
  moreover have "uf.evolves V d d'" using d1(2) ev by (rule uf.evolves_trans)
  ultimately show ?case using d1(1) d2(1) e by auto
qed

definition mbid_inv :: "artistRow list \<Rightarrow> union_find \<Rightarrow> string list \<Rightarrow> string list \<times> union_find \<Rightarrow> bool" where
  "mbid_inv rows s done st \<longleftrightarrow>
     uf.evolves (ids rows) s (snd st) \<and> set (fst st) \<subseteq> ids rows \<and>
     (\<forall>r\<in>set rows. \<forall>r'\<in>set rows. rMbid r \<in> set done \<longrightarrow> rMbid r = rMbid r' \<longrightarrow>
        same_comp (snd st) (rId r) (rId r') \<and>
        (rId r \<noteq> rId r' \<longrightarrow> (\<exists>e\<in>set (fst st). same_comp (snd st) e (rId r))))"

lemma mbid_invD:
  assumes "mbid_inv rows s done (edges, d)"
  shows "uf.evolves (ids rows) s d" "uf_inv (ids rows) d" "set edges \<subseteq> ids rows"
    and "\<And>r r'. r \<in> set rows \<Longrightarrow> r' \<in> set rows \<Longrightarrow> rMbid r \<in> set done \<Longrightarrow> rMbid r = rMbid r' \<Longrightarrow>
      same_comp d (rId r) (rId r')"
    and "\<And>r r'. r \<in> set rows \<Longrightarrow> r' \<in> set rows \<Longrightarrow> rMbid r \<in> set done \<Longrightarrow> rMbid r = rMbid r' \<Longrightarrow>
      rId r \<noteq> rId r' \<Longrightarrow> \<exists>e\<in>set edges. same_comp d e (rId r)"
  using assms unfolding mbid_inv_def fst_conv snd_conv
  by (blast, simp add: uf.evolves_def, blast+)

lemma mbid_inv_step:
  assumes I: "mbid_inv rows s done (edges, d)" and m: "m \<noteq> []"
    and lab: "\<And>r. r \<in> set rows \<Longrightarrow> rMbid r \<noteq> [] \<Longrightarrow> bound s (rId r) = rMbid r"
  shows "\<exists>st. (case map rId (filter (\<lambda>r. rMbid r = m) rows) of
       [] \<Rightarrow> Some (edges, d) | i # is \<Rightarrow> mbid_bucket i is (edges, d)) = Some st \<and>
     mbid_inv rows s (done @ [m]) st"
proof (cases "map rId (filter (\<lambda>r. rMbid r = m) rows)")
  case Nil
  then have none: "\<And>r. r \<in> set rows \<Longrightarrow> rMbid r \<noteq> m" by (auto simp: filter_empty_conv)
  have "mbid_inv rows s (done @ [m]) (edges, d)"
    unfolding mbid_inv_def
  proof (intro conjI ballI impI)
    fix r r'
    assume r: "r \<in> set rows" "r' \<in> set rows" "rMbid r \<in> set (done @ [m])" "rMbid r = rMbid r'"
    with none have d: "rMbid r \<in> set done" by auto
    from mbid_invD(4,5) [OF I r(1,2) d r(4)]
    show "same_comp (snd (edges, d)) (rId r) (rId r')"
      and "rId r \<noteq> rId r' \<Longrightarrow> \<exists>e\<in>set (fst (edges, d)). same_comp (snd (edges, d)) e (rId r)" by simp_all
  qed (use mbid_invD(1,3) [OF I] in simp_all)
  with Nil show ?thesis by simp
next
  case (Cons i "is")
  let ?V = "ids rows"
  have S: "rId ` {r \<in> set rows. rMbid r = m} = set (i # is)"
    using arg_cong [OF Cons, of set] by simp
  then have V: "i \<in> ?V" "set is \<subseteq> ?V" by (auto simp: ids_def)
  note M = mbid_invD [OF I]
  note ev0 = M(1) and inv = M(2) and E = M(3)
  obtain edges' d' where r: "mbid_bucket i is (edges, d) = Some (edges', d')" "uf.evolves ?V d d'"
    "set edges \<subseteq> set edges'" "set edges' \<subseteq> ?V" "\<forall>j\<in>set is. uf.settled d' i j"
    "is \<noteq> [] \<longrightarrow> (\<exists>e\<in>set edges'. same_comp d' e i)"
    using mbid_bucket_spec [OF inv V E] by blast
  have ev: "uf.evolves ?V s d'" using ev0 r(2) by (rule uf.evolves_trans)
  have b: "bound d' j = m" if "j \<in> set (i # is)" for j
  proof -
    from that S have "j \<in> rId ` {r \<in> set rows. rMbid r = m}" by (simp only:)
    then obtain r where "r \<in> set rows" "rMbid r = m" "rId r = j" by auto
    with lab [of r] m have "bound s j = m" by simp
    moreover have "j \<in> ?V" using that V by auto
    ultimately show ?thesis using ev m by (simp add: uf.evolves_def)
  qed
  have ij: "same_comp d' i j" if "j \<in> set (i # is)" for j
  proof (cases "j = i")
    case False
    with that r(5) have "uf.settled d' i j" by simp
    then show ?thesis by (rule uf.settled_equal_bound) (use b that in simp)
  qed (simp add: uf.same_refl)
  have same: "same_comp d' j k" if "j \<in> set (i # is)" "k \<in> set (i # is)" for j k
    using ij [OF that(1)] ij [OF that(2)] by (simp add: same_comp_def)
  have "same_comp d' (rId q) (rId q') \<and>
      (rId q \<noteq> rId q' \<longrightarrow> (\<exists>e\<in>set edges'. same_comp d' e (rId q)))"
    if q: "q \<in> set rows" "q' \<in> set rows" "rMbid q \<in> set (done @ [m])" "rMbid q = rMbid q'" for q q'
  proof (cases "rMbid q = m")
    case True
    with q S have J: "rId q \<in> set (i # is)" "rId q' \<in> set (i # is)" by auto
    have "\<exists>e\<in>set edges'. same_comp d' e (rId q)" if "rId q \<noteq> rId q'"
    proof -
      have "is \<noteq> []" using J that by auto
      with r(6) obtain e where "e \<in> set edges'" "same_comp d' e i" by blast
      with same [of i "rId q"] J(1) show ?thesis using uf.same_trans by (metis list.set_intros(1))
    qed
    with same [OF J] show ?thesis by blast
  next
    case False
    with q have "rMbid q \<in> set done" by simp
    note o = M(4) [OF q(1,2) this q(4)] M(5) [OF q(1,2) this q(4)]
    have mono: "same_comp d x y \<Longrightarrow> same_comp d' x y" if "x \<in> ?V" "y \<in> ?V" for x y
      using r(2) that by (simp add: uf.evolves_def)
    note V' = in_ids [OF q(1)] in_ids [OF q(2)]
    have "\<exists>e\<in>set edges'. same_comp d' e (rId q)" if "rId q \<noteq> rId q'"
      using o(2) [OF that] r(3) E mono [OF _ V'(1)] by blast
    with mono [OF V' o(1)] show ?thesis by blast
  qed
  with ev r(4) have "mbid_inv rows s (done @ [m]) (edges', d')"
    unfolding mbid_inv_def fst_conv snd_conv by blast
  with r(1) Cons show ?thesis by simp
qed

lemma unionByMBID_spec:
  assumes "uf_inv (ids rows) s" "[] \<notin> set mbids"
    and "\<And>r. r \<in> set rows \<Longrightarrow> rMbid r \<noteq> [] \<Longrightarrow> bound s (rId r) = rMbid r"
  shows "\<exists>st. unionByMBID mbids rows s = Some st \<and> mbid_inv rows s mbids st"
  unfolding unionByMBID_def
proof (rule fold_opt_rule [where I = "mbid_inv rows s"])
  show "mbid_inv rows s [] ([], s)" using assms(1) by (simp add: mbid_inv_def uf.evolves_refl)
next
  fix xs x ys and st :: "string list \<times> union_find"
  assume split: "mbids = xs @ x # ys" and I: "mbid_inv rows s xs st"
  have "x \<noteq> []" using split assms(2) by auto
  have I': "mbid_inv rows s xs (fst st, snd st)" using I by simp
  note * = mbid_inv_step [OF I' \<open>x \<noteq> []\<close>, unfolded prod.collapse]
  show "\<exists>s'. (case map rId (filter (\<lambda>r. rMbid r = x) rows) of
         [] \<Rightarrow> Some st | i # is \<Rightarrow> mbid_bucket i is st) = Some s' \<and> mbid_inv rows s (xs @ [x]) s'"
    by (rule *) (rule assms(3))
qed

lemma final_edges_spec:
  assumes "uf_inv V d" "set edges \<subseteq> V"
  shows "\<exists>d'. final_edges edges d = Some (map (the_root d) edges, d') \<and> uf_inv V d' \<and>
    (\<forall>y\<in>V. the_root d' y = the_root d y)"
  using assms
proof (induction edges arbitrary: d)
  case (Cons e es)
  then have eV: "e \<in> V" by simp
  obtain d1 where d1: "uf_find e d = Some (d1, the_root d e)" "uf_inv V d1" "\<forall>y\<in>V. the_root d1 y = the_root d y"
    using uf_find_spec [OF Cons.prems(1) eV] by blast
  have es: "set es \<subseteq> V" using Cons.prems(2) by simp
  then have "map (the_root d1) es = map (the_root d) es" using d1(3) by auto
  with Cons.IH [OF d1(2) es] d1 show ?case by auto
qed simp

lemma root_members_spec:
  assumes "uf_inv V d" "ids rows \<subseteq> V"
  shows "\<exists>d'. root_members rows d = Some (map (\<lambda>r. (the_root d (rId r), member_of_row r)) rows, d') \<and>
    (\<forall>y\<in>V. the_root d' y = the_root d y)"
  using assms
proof (induction rows arbitrary: d)
  case (Cons r rs)
  then have rV: "rId r \<in> V" "ids rs \<subseteq> V" by (auto simp: ids_def)
  obtain d1 where d1: "uf_find (rId r) d = Some (d1, the_root d (rId r))" "uf_inv V d1"
    "\<forall>y\<in>V. the_root d1 y = the_root d y"
    using uf_find_spec [OF Cons.prems(1) rV(1)] by blast
  with Cons.IH [OF d1(2) rV(2)] rV(2) show ?case by (auto simp: ids_def subset_iff)
qed simp

section \<open>The whole scan\<close>

text \<open>The rows have distinct primary keys; \<open>keys\<close> and \<open>mbids\<close> enumerate the keys of the two
  bucket maps, in any order.\<close>

definition scan_order :: "(string \<Rightarrow> string) \<Rightarrow> string list \<Rightarrow> string list \<Rightarrow> artistRow list \<Rightarrow> bool" where
  "scan_order nkey keys mbids rows \<longleftrightarrow>
     distinct (map rId rows) \<and> distinct keys \<and> distinct mbids \<and>
     set keys = set (filter (\<lambda>k. k \<noteq> []) (map (\<lambda>r. nkey (rName r)) rows)) \<and>
     set mbids = set (filter (\<lambda>m. m \<noteq> []) (map rMbid rows))"

text \<open>What the final component map guarantees.\<close>

definition sound_roots ::
  "(string \<Rightarrow> string) \<Rightarrow> artistRow list \<Rightarrow> (string \<Rightarrow> string) \<Rightarrow> string set \<Rightarrow> bool" where
  "sound_roots nkey rows root finals \<longleftrightarrow>
     (\<forall>r\<in>set rows. \<forall>q\<in>set rows. rMbid r \<noteq> [] \<longrightarrow> rMbid r = rMbid q \<longrightarrow>
        root (rId r) = root (rId q) \<and> (r \<noteq> q \<longrightarrow> root (rId r) \<in> finals)) \<and>
     (\<forall>r\<in>set rows. \<forall>q\<in>set rows. root (rId r) = root (rId q) \<longrightarrow> rMbid r \<noteq> [] \<longrightarrow> rMbid q \<noteq> [] \<longrightarrow>
        rMbid r = rMbid q) \<and>
     (\<forall>r\<in>set rows. \<forall>q\<in>set rows. nkey (rName r) \<noteq> [] \<longrightarrow> nkey (rName r) = nkey (rName q) \<longrightarrow>
        (\<forall>x\<in>set rows. \<forall>y\<in>set rows. nkey (rName x) = nkey (rName r) \<longrightarrow> nkey (rName y) = nkey (rName r) \<longrightarrow>
           rMbid x \<noteq> [] \<longrightarrow> rMbid y \<noteq> [] \<longrightarrow> rMbid x = rMbid y) \<longrightarrow>
        root (rId r) = root (rId q))"

lemma name_pass_coherent:
  assumes D: "distinct (map rId rows)" and I: "name_inv nkey rows keys t"
    and r: "r \<in> set rows" and q: "q \<in> set rows" and k: "nkey (rName r) \<in> set keys" "nkey (rName r) = nkey (rName q)"
    and coh: "\<forall>x\<in>set rows. \<forall>y\<in>set rows. nkey (rName x) = nkey (rName r) \<longrightarrow> nkey (rName y) = nkey (rName r) \<longrightarrow>
      rMbid x \<noteq> [] \<longrightarrow> rMbid y \<noteq> [] \<longrightarrow> rMbid x = rMbid y"
  shows "same_comp t (rId r) (rId q)"
proof -
  note N = name_invD [OF I]
  have owner: "\<exists>x\<in>set rows. nkey (rName x) = nkey (rName p) \<and> rMbid x = bound t (rId p)"
    if p: "p \<in> set rows" "bound t (rId p) \<noteq> []" for p
  proof -
    obtain y where y: "y \<in> ids rows" "same_comp t (rId p) y" "rMbid (row_of rows y) = bound t (rId p)"
      using N(6) [unfolded uf.realised_def] p(2) in_ids [OF p(1)] by metis
    then obtain x where x: "x \<in> set rows" "y = rId x" by (auto simp: ids_def)
    have "row_of rows (rId p) = p" "row_of rows y = x"
      using row_of_id [OF D] p(1) x by blast+
    moreover have "rId p = y \<or> nkey (rName (row_of rows (rId p))) = nkey (rName (row_of rows y))"
      using N(3) [OF in_ids [OF p(1)] y(1,2)] by (simp only: same_key_def)
    ultimately have "nkey (rName x) = nkey (rName p)" by metis
    with x(1) y(3) \<open>row_of rows y = x\<close> show ?thesis by blast
  qed
  have st: "uf.settled t (rId r) (rId q)" by (rule N(5) [OF r q k])
  show ?thesis
  proof (rule ccontr)
    assume "\<not> same_comp t (rId r) (rId q)"
    with st have b: "bound t (rId r) \<noteq> []" "bound t (rId q) \<noteq> []" "bound t (rId r) \<noteq> bound t (rId q)"
      by (simp_all add: uf.settled_def)
    obtain x y where "x \<in> set rows" "nkey (rName x) = nkey (rName r)" "rMbid x = bound t (rId r)"
      "y \<in> set rows" "nkey (rName y) = nkey (rName q)" "rMbid y = bound t (rId q)"
      using owner [OF r b(1)] owner [OF q b(2)] by blast
    with coh b k(2) show False by metis
  qed
qed

lemma evolves_same:
  "uf.evolves V s t \<Longrightarrow> x \<in> V \<Longrightarrow> y \<in> V \<Longrightarrow> same_comp s x y \<Longrightarrow> same_comp t x y"
  by (simp add: uf.evolves_def)

lemma same_comp_root: "same_comp d x y \<longleftrightarrow> the_root d x = the_root d y"
  by (simp add: same_comp_def)

lemma groupDuplicates_run:
  assumes "scan_order nkey keys mbids rows"
  shows "\<exists>root finals. sound_roots nkey rows root finals \<and>
    groupDuplicates nkey keys mbids rows =
      Some (sort_key (\<lambda>g. ndName (hd (gMembers g)))
        (map (\<lambda>(root, members). make_group nkey finals root members)
          (filter (\<lambda>(root, members). 2 \<le> length members)
            (classes (map (\<lambda>r. (root (rId r), member_of_row r)) rows)))))"
proof (cases "rows = []")
  case True
  then show ?thesis by (auto simp: sound_roots_def groupDuplicates_def classes_def)
next
  case False
  let ?V = "ids rows" and ?init = "initUnionFind rows"
  have D: "distinct (map rId rows)" "distinct keys" "[] \<notin> set mbids"
    and K: "\<And>r. r \<in> set rows \<Longrightarrow> nkey (rName r) \<noteq> [] \<Longrightarrow> nkey (rName r) \<in> set keys"
    and M: "\<And>r. r \<in> set rows \<Longrightarrow> rMbid r \<noteq> [] \<Longrightarrow> rMbid r \<in> set mbids"
    using assms by (auto simp: scan_order_def)
  obtain s where s: "unionByNameKey nkey keys rows ?init = Some s" "name_inv nkey rows keys s"
    using unionByNameKey_spec [OF D(1,2)] by blast
  note N = name_invD [OF s(2)]
  have keep: "bound t (rId r) = rMbid r"
    if "uf.evolves ?V ?init t" "r \<in> set rows" "rMbid r \<noteq> []" for t r
    using that init_bound [OF D(1) that(2)] in_ids [OF that(2)] by (auto simp: uf.evolves_def)
  obtain edges t where t: "unionByMBID mbids rows s = Some (edges, t)" "mbid_inv rows s mbids (edges, t)"
    using unionByMBID_spec [OF N(2) D(3) keep [OF N(1)]] by auto
  note B = mbid_invD [OF t(2)]
  have ev: "uf.evolves ?V ?init t" using N(1) B(1) by (rule uf.evolves_trans)
  obtain u where u: "final_edges edges t = Some (map (the_root t) edges, u)" "uf_inv ?V u"
    "\<And>y. y \<in> ?V \<Longrightarrow> the_root u y = the_root t y"
    using final_edges_spec [OF B(2,3)] by blast
  obtain w where w: "root_members rows u = Some (map (\<lambda>r. (the_root u (rId r), member_of_row r)) rows, w)"
    using root_members_spec [OF u(2) subset_refl] by blast
  have eq: "map (\<lambda>r. (the_root u (rId r), member_of_row r)) rows =
      map (\<lambda>r. (the_root t (rId r), member_of_row r)) rows"
    using u(3) in_ids by auto
  have run: "groupDuplicates nkey keys mbids rows =
      Some (sort_key (\<lambda>g. ndName (hd (gMembers g)))
        (map (\<lambda>(root, members). make_group nkey (set (map (the_root t) edges)) root members)
          (filter (\<lambda>(root, members). 2 \<le> length members)
            (classes (map (\<lambda>r. (the_root t (rId r), member_of_row r)) rows)))))"
    using False by (simp only: groupDuplicates_def s(1) t(1) u(1) w eq collectGroups_def
        bind.bind_lunit if_False prod.case option.map)
  have "the_root t (rId r) = the_root t (rId q) \<and> (r \<noteq> q \<longrightarrow> the_root t (rId r) \<in> set (map (the_root t) edges))"
    if r: "r \<in> set rows" "q \<in> set rows" "rMbid r \<noteq> []" "rMbid r = rMbid q" for r q
  proof -
    note m = M [OF r(1,3)]
    have "rId r \<noteq> rId q" if "r \<noteq> q" using D(1) r(1,2) that by (auto simp: distinct_map dest: inj_onD)
    then have "\<exists>e\<in>set edges. the_root t (rId r) = the_root t e" if "r \<noteq> q"
      using that B(5) [OF r(1,2) m r(4)] by (metis same_comp_root)
    with B(4) [OF r(1,2) m r(4)] show ?thesis unfolding same_comp_root set_map by blast
  qed
  moreover have "rMbid r = rMbid q"
    if r: "r \<in> set rows" "q \<in> set rows" "the_root t (rId r) = the_root t (rId q)" "rMbid r \<noteq> []" "rMbid q \<noteq> []" for r q
  proof -
    have "bound t (rId r) = bound t (rId q)" using r(3) by (simp add: bound_def)
    with keep [OF ev r(1,4)] keep [OF ev r(2,5)] show ?thesis by simp
  qed
  moreover have "the_root t (rId r) = the_root t (rId q)"
    if r: "r \<in> set rows" "q \<in> set rows" "nkey (rName r) \<noteq> []" "nkey (rName r) = nkey (rName q)"
      "\<forall>x\<in>set rows. \<forall>y\<in>set rows. nkey (rName x) = nkey (rName r) \<longrightarrow> nkey (rName y) = nkey (rName r) \<longrightarrow>
           rMbid x \<noteq> [] \<longrightarrow> rMbid y \<noteq> [] \<longrightarrow> rMbid x = rMbid y" for r q
  proof -
    have "same_comp s (rId r) (rId q)"
      by (rule name_pass_coherent [OF D(1) s(2) r(1,2) K [OF r(1,3)] r(4,5)])
    with evolves_same [OF B(1) in_ids [OF r(1)] in_ids [OF r(2)]] show ?thesis
      by (simp only: same_comp_root)
  qed
  ultimately have "sound_roots nkey rows (the_root t) (set (map (the_root t) edges))"
    unfolding sound_roots_def by blast
  with run show ?thesis by blast
qed

section \<open>The reported groups\<close>

lemma classes_member:
  "(k, vs) \<in> set (classes xs) \<longleftrightarrow> k \<in> fst ` set xs \<and> vs = map snd (filter (\<lambda>x. fst x = k) xs)"
  by (auto simp: classes_def)

definition unmarked :: "near_duplicate_artist \<Rightarrow> near_duplicate_artist" where
  "unmarked m = m\<lparr>ndConflict := False\<rparr>"

lemma mark_unmarked: "map unmarked (fst (markDisambiguationConflicts ms)) = map unmarked ms"
  by (auto simp: markDisambiguationConflicts_def unmarked_def)

lemma member_unmarked: "unmarked (member_of_row r) = member_of_row r"
  by (simp add: unmarked_def member_of_row_def)

lemma make_group_members:
  "map unmarked (gMembers (make_group nkey finals root ms)) = map unmarked (sort_key ndName ms)"
  using mark_unmarked [of "sort_key ndName ms"] by (simp add: make_group_def Let_def case_prod_beta)

text \<open>A reported group is the rows of one component, by name.\<close>

lemma reported_group:
  assumes "scan_order nkey keys mbids rows" "groupDuplicates nkey keys mbids rows = Some gs"
  shows "\<exists>root finals. sound_roots nkey rows root finals \<and>
    (\<forall>g. g \<in> set gs \<longleftrightarrow> (\<exists>k \<in> (\<lambda>r. root (rId r)) ` set rows.
       g = make_group nkey finals k (map member_of_row (filter (\<lambda>r. root (rId r) = k) rows)) \<and>
       2 \<le> length (filter (\<lambda>r. root (rId r) = k) rows)))"
proof -
  obtain root finals where sr: "sound_roots nkey rows root finals"
    and gs: "gs = sort_key (\<lambda>g. ndName (hd (gMembers g)))
        (map (\<lambda>(root, members). make_group nkey finals root members)
          (filter (\<lambda>(root, members). 2 \<le> length members)
            (classes (map (\<lambda>r. (root (rId r), member_of_row r)) rows))))"
    using groupDuplicates_run [OF assms(1)] assms(2) by auto
  have f: "map snd (filter (\<lambda>x. fst x = k) (map (\<lambda>r. (root (rId r), member_of_row r)) rows)) =
      map member_of_row (filter (\<lambda>r. root (rId r) = k) rows)" for k
    by (simp add: filter_map comp_def)
  have "g \<in> set gs \<longleftrightarrow> (\<exists>k \<in> (\<lambda>r. root (rId r)) ` set rows.
       g = make_group nkey finals k (map member_of_row (filter (\<lambda>r. root (rId r) = k) rows)) \<and>
       2 \<le> length (filter (\<lambda>r. root (rId r) = k) rows))" for g
    unfolding gs set_sort set_map set_filter image_iff
    by (auto simp: classes_member f image_iff Bex_def split: prod.splits)
  with sr show ?thesis by blast
qed

lemma group_rows:
  assumes "m \<in> set (gMembers (make_group nkey finals k (map member_of_row rs)))"
  shows "\<exists>r\<in>set rs. ndID m = rId r \<and> ndName m = rName r \<and> ndMBID m = rMbid r"
proof -
  have "unmarked m \<in> set (map unmarked (gMembers (make_group nkey finals k (map member_of_row rs))))"
    using assms by simp
  then have "unmarked m \<in> member_of_row ` set rs"
    unfolding make_group_members by (auto simp: member_unmarked)
  then obtain r where r: "r \<in> set rs" "unmarked m = member_of_row r" by blast
  then have "ndID (unmarked m) = rId r" "ndName (unmarked m) = rName r" "ndMBID (unmarked m) = rMbid r"
    by (simp_all add: member_of_row_def)
  with r(1) show ?thesis by (auto simp: unmarked_def)
qed

lemma group_ids:
  "mset (map ndID (gMembers (make_group nkey finals k (map member_of_row rs)))) = mset (map rId rs)"
proof -
  have u: "ndID \<circ> unmarked = ndID" by (auto simp: unmarked_def)
  let ?g = "make_group nkey finals k (map member_of_row rs)"
  have "map ndID (gMembers ?g) = map ndID (map unmarked (gMembers ?g))" by (simp add: u)
  also have "\<dots> = map ndID (map unmarked (sort_key ndName (map member_of_row rs)))"
    by (simp only: make_group_members)
  also have "\<dots> = map ndID (sort_key ndName (map member_of_row rs))" by (simp add: u)
  finally have "mset (map ndID (gMembers ?g)) = mset (map ndID (sort_key ndName (map member_of_row rs)))"
    by simp
  then show ?thesis
    by (simp add: member_of_row_def image_mset.compositionality comp_def)
qed

section \<open>Properties\<close>

text \<open>C7. A merge candidate never mixes two MusicBrainz identities: whatever the rows and the
  order in which the bucket maps are ranged over, no reported group has two members with different
  non-empty MBIDs, however many rows without one bridge them.\<close>

theorem duplicates_never_mix_mbids:
  assumes "scan_order nkey keys mbids rows" "groupDuplicates nkey keys mbids rows = Some gs"
    and "g \<in> set gs" "m \<in> set (gMembers g)" "m' \<in> set (gMembers g)" "ndMBID m \<noteq> []" "ndMBID m' \<noteq> []"
  shows "ndMBID m = ndMBID m'"
proof -
  obtain root finals where sr: "sound_roots nkey rows root finals"
    and gs: "\<forall>g. g \<in> set gs \<longleftrightarrow> (\<exists>k \<in> (\<lambda>r. root (rId r)) ` set rows.
       g = make_group nkey finals k (map member_of_row (filter (\<lambda>r. root (rId r) = k) rows)) \<and>
       2 \<le> length (filter (\<lambda>r. root (rId r) = k) rows))"
    using reported_group [OF assms(1,2)] by blast
  obtain k where g: "g = make_group nkey finals k (map member_of_row (filter (\<lambda>r. root (rId r) = k) rows))"
    using gs assms(3) by blast
  obtain r r' where "r \<in> set rows" "root (rId r) = k" "ndMBID m = rMbid r"
    "r' \<in> set rows" "root (rId r') = k" "ndMBID m' = rMbid r'"
    using group_rows [OF assms(4) [unfolded g]] group_rows [OF assms(5) [unfolded g]] by auto
  with sr assms(6,7) show ?thesis unfolding sound_roots_def by metis
qed

text \<open>Two rows are offered as one artist.\<close>

definition reported_together :: "near_duplicate_group list \<Rightarrow> artistRow \<Rightarrow> artistRow \<Rightarrow> bool" where
  "reported_together gs r q \<longleftrightarrow>
     list_ex (\<lambda>g. {rId r, rId q} \<subseteq> set (map ndID (gMembers g))) gs"

lemma same_root_reported:
  assumes gs: "\<forall>g. g \<in> set gs \<longleftrightarrow> (\<exists>k \<in> (\<lambda>r. root (rId r)) ` set rows.
       g = make_group nkey finals k (map member_of_row (filter (\<lambda>r. root (rId r) = k) rows)) \<and>
       2 \<le> length (filter (\<lambda>r. root (rId r) = k) rows))"
    and r: "r \<in> set rows" "q \<in> set rows" "r \<noteq> q" "root (rId r) = root (rId q)"
  shows "reported_together gs r q"
proof -
  let ?rs = "filter (\<lambda>x. root (rId x) = root (rId r)) rows"
  let ?g = "make_group nkey finals (root (rId r)) (map member_of_row ?rs)"
  have in_rs: "r \<in> set ?rs" "q \<in> set ?rs" using r by auto
  then have "card {r, q} \<le> card (set ?rs)" by (intro card_mono) auto
  then have "2 \<le> length ?rs" using r(3) card_length [of ?rs] by simp
  then have "?g \<in> set gs" using gs r(1) by blast
  moreover have "set (map ndID (gMembers ?g)) = rId ` set ?rs"
    using arg_cong [OF group_ids, of set_mset] by simp
  ultimately show ?thesis using in_rs unfolding reported_together_def list_ex_iff by blast
qed


text \<open>The scan is complete for names up to the guard: two rows with one non-empty name key are
  reported together unless the rows of that key carry two different MBIDs; a conflicting row never
  strands the others by its place in the bucket.\<close>

theorem shared_name_key_reported:
  assumes "scan_order nkey keys mbids rows"
    and "r \<in> set rows" "q \<in> set rows" "r \<noteq> q" "nkey (rName r) \<noteq> []" "nkey (rName r) = nkey (rName q)"
    and "\<forall>x\<in>set rows. \<forall>y\<in>set rows. nkey (rName x) = nkey (rName r) \<longrightarrow> nkey (rName y) = nkey (rName r) \<longrightarrow>
           rMbid x \<noteq> [] \<longrightarrow> rMbid y \<noteq> [] \<longrightarrow> rMbid x = rMbid y"
  shows "\<exists>gs. groupDuplicates nkey keys mbids rows = Some gs \<and> reported_together gs r q"
proof -
  obtain gs where gs: "groupDuplicates nkey keys mbids rows = Some gs"
    using groupDuplicates_run [OF assms(1)] by blast
  from reported_group [OF assms(1) this] obtain root finals where sr: "sound_roots nkey rows root finals"
    and g: "\<forall>g. g \<in> set gs \<longleftrightarrow> (\<exists>k \<in> (\<lambda>r. root (rId r)) ` set rows.
       g = make_group nkey finals k (map member_of_row (filter (\<lambda>r. root (rId r) = k) rows)) \<and>
       2 \<le> length (filter (\<lambda>r. root (rId r) = k) rows))" by blast
  from sr assms(2,3,5-7) have "root (rId r) = root (rId q)" unfolding sound_roots_def by blast
  with same_root_reported [OF g assms(2-4)] gs show ?thesis by blast
qed

lemma sort_key_Cons: "ms \<noteq> [] \<Longrightarrow> \<exists>x xs. sort_key f ms = x # xs \<and> set (x # xs) = set ms"
  by (metis list.exhaust set_empty set_sort)

lemma findSharedMBID_iff:
  "findSharedMBID ms = v \<and> v \<noteq> [] \<longleftrightarrow> v \<noteq> [] \<and> ms \<noteq> [] \<and> (\<forall>m\<in>set ms. ndMBID m = v)"
  by (cases ms) (auto simp: list_all_iff)

lemma make_group_reason:
  "gReason (make_group nkey finals k ms) = mbid \<longleftrightarrow>
     k \<in> finals \<and> findSharedMBID (sort_key ndName ms) \<noteq> []"
  by (auto simp: make_group_def Let_def case_prod_beta)

lemma make_group_key:
  "gReason (make_group nkey finals k ms) = mbid \<Longrightarrow>
   gKey (make_group nkey finals k ms) = findSharedMBID (sort_key ndName ms)"
  by (auto simp: make_group_def Let_def case_prod_beta split: if_splits)

lemma members_mbids:
  "(\<forall>m\<in>set (gMembers (make_group nkey finals k ms)). ndMBID m = v) \<longleftrightarrow> (\<forall>m\<in>set ms. ndMBID m = v)"
proof -
  let ?g = "make_group nkey finals k ms"
  have u: "ndMBID \<circ> unmarked = ndMBID" by (auto simp: unmarked_def)
  have "map ndMBID (gMembers ?g) = map ndMBID (map unmarked (gMembers ?g))" by (simp add: u)
  also have "\<dots> = map ndMBID (map unmarked (sort_key ndName ms))" by (simp only: make_group_members)
  also have "\<dots> = map ndMBID (sort_key ndName ms)" by (simp add: u)
  finally have "set (map ndMBID (gMembers ?g)) = ndMBID ` set ms" by simp
  then have "ndMBID ` set (gMembers ?g) = ndMBID ` set ms" by simp
  then show ?thesis by (metis (no_types, lifting) imageE imageI)
qed

text \<open>The label of a reported group is exact: a group has at least two members, its reason is
  the MBID if and only if all its members carry one and the same non-empty MBID, and then its key is
  that MBID.\<close>

theorem group_reason_exact:
  assumes "scan_order nkey keys mbids rows" "groupDuplicates nkey keys mbids rows = Some gs" "g \<in> set gs"
  shows "2 \<le> length (gMembers g) \<and>
    (gReason g = mbid \<longleftrightarrow> (\<exists>v. v \<noteq> [] \<and> (\<forall>m\<in>set (gMembers g). ndMBID m = v))) \<and>
    (gReason g = mbid \<longrightarrow> (\<forall>m\<in>set (gMembers g). ndMBID m = gKey g))"
proof -
  obtain root finals where sr: "sound_roots nkey rows root finals"
    and gs: "\<forall>g. g \<in> set gs \<longleftrightarrow> (\<exists>k \<in> (\<lambda>r. root (rId r)) ` set rows.
       g = make_group nkey finals k (map member_of_row (filter (\<lambda>r. root (rId r) = k) rows)) \<and>
       2 \<le> length (filter (\<lambda>r. root (rId r) = k) rows))"
    using reported_group [OF assms(1,2)] by blast
  obtain k where "g = make_group nkey finals k (map member_of_row (filter (\<lambda>r. root (rId r) = k) rows))"
    and two: "2 \<le> length (filter (\<lambda>r. root (rId r) = k) rows)"
    using gs assms(3) by blast
  then obtain rs where rs: "rs = filter (\<lambda>r. root (rId r) = k) rows" "2 \<le> length rs"
    and g: "g = make_group nkey finals k (map member_of_row rs)" by blast
  let ?ms = "map member_of_row rs"
  have len: "length (gMembers g) = length rs"
    using arg_cong [OF group_ids, of size] by (simp add: g)
  have ne: "?ms \<noteq> []" "sort_key ndName ?ms \<noteq> []" using rs(2) by (auto simp: sort_key_Cons dest: arg_cong [of _ _ length])
  note S = findSharedMBID_iff [of "sort_key ndName ?ms"]
  have fin: "k \<in> finals" if v: "v \<noteq> []" "\<forall>m\<in>set ?ms. ndMBID m = v" for v
  proof -
    obtain r q rest where rq: "rs = r # q # rest" using rs(2) by (cases rs; cases "tl rs") auto
    have "distinct rows" using assms(1) by (auto simp: scan_order_def distinct_map)
    then have "distinct rs" using rs(1) by simp
    with rq have "r \<noteq> q" by simp
    moreover have sub: "set rs = {x \<in> set rows. root (rId x) = k}" using rs(1) by simp
    have "r \<in> set rs" "q \<in> set rs" using rq by simp_all
    then have "r \<in> set rows" "q \<in> set rows" "root (rId r) = k" unfolding sub by simp_all
    moreover have "rMbid r = v" "rMbid q = v" using v(2) rq by (auto simp: member_of_row_def)
    ultimately show ?thesis using sr v(1) unfolding sound_roots_def by metis
  qed
  have "findSharedMBID (sort_key ndName ?ms) \<noteq> [] \<longleftrightarrow>
      (\<exists>v. v \<noteq> [] \<and> (\<forall>m\<in>set ?ms. ndMBID m = v))"
  proof
    assume "findSharedMBID (sort_key ndName ?ms) \<noteq> []"
    with S [of "findSharedMBID (sort_key ndName ?ms)"] show "\<exists>v. v \<noteq> [] \<and> (\<forall>m\<in>set ?ms. ndMBID m = v)"
      unfolding set_sort by blast
  next
    assume "\<exists>v. v \<noteq> [] \<and> (\<forall>m\<in>set ?ms. ndMBID m = v)"
    then obtain v where "v \<noteq> []" "\<forall>m\<in>set ?ms. ndMBID m = v" by blast
    with S [of v] ne(2) show "findSharedMBID (sort_key ndName ?ms) \<noteq> []" unfolding set_sort by blast
  qed
  then have iff: "gReason g = mbid \<longleftrightarrow> (\<exists>v. v \<noteq> [] \<and> (\<forall>m\<in>set ?ms. ndMBID m = v))"
    unfolding g make_group_reason using fin by blast
  have key: "\<forall>m\<in>set ?ms. ndMBID m = gKey g" if m: "gReason g = mbid"
  proof -
    have "findSharedMBID (sort_key ndName ?ms) \<noteq> []" using m unfolding g make_group_reason by simp
    moreover have "gKey g = findSharedMBID (sort_key ndName ?ms)"
      using make_group_key m unfolding g by blast
    ultimately show ?thesis using S [of "gKey g"] unfolding set_sort by simp
  qed
  show ?thesis
    using len rs(2) iff key unfolding g members_mbids by simp
qed

section \<open>Witnesses\<close>

text \<open>The second row shares its name key with the first, the third its MBID.\<close>

definition dup_row :: "string \<Rightarrow> string \<Rightarrow> string \<Rightarrow> artistRow" where
  "dup_row i n m = \<lparr>rId = i, rName = n, rPath = [], rMbid = m, rDisamb = []\<rparr>"

definition dup_rows :: "artistRow list" where
  "dup_rows = [dup_row ''1'' ''A'' ''x'', dup_row ''2'' ''a'' [], dup_row ''3'' ''b'' ''x'']"

definition dup_groups :: "near_duplicate_group list" where
  "dup_groups = the (groupDuplicates to_lower [''b'', ''a''] [''x''] dup_rows)"

lemma dup_scan: "scan_order to_lower [''b'', ''a''] [''x''] dup_rows"
proof -
  have "distinct (map rId dup_rows)" by (simp add: dup_rows_def dup_row_def)
  moreover have "map (\<lambda>r. to_lower (rName r)) dup_rows = [''a'', ''a'', ''b'']" by code_simp
  moreover have "map rMbid dup_rows = [''x'', [], ''x'']" by code_simp
  ultimately show ?thesis unfolding scan_order_def by auto
qed

lemma dup_run: "groupDuplicates to_lower [''b'', ''a''] [''x''] dup_rows = Some dup_groups"
proof -
  obtain gs where "groupDuplicates to_lower [''b'', ''a''] [''x''] dup_rows = Some gs"
    using groupDuplicates_run [OF dup_scan] by blast
  then show ?thesis by (simp add: dup_groups_def)
qed

lemma dup_shape:
  "map (\<lambda>g. (gReason g, map (\<lambda>m. (ndID m, ndMBID m)) (gMembers g))) dup_groups =
     [(name_key, [(''1'', ''x''), (''2'', []), (''3'', ''x'')])]"
  by code_simp

lemma dup_group:
  obtains g m1 m2 m3 where "dup_groups = [g]" "gReason g = name_key" "gMembers g = [m1, m2, m3]"
    "ndMBID m1 = ''x''" "ndMBID m3 = ''x''" "ndID m1 = ''1''" "ndID m3 = ''3''"
proof -
  obtain g where g: "dup_groups = [g]" "gReason g = name_key"
    "map (\<lambda>m. (ndID m, ndMBID m)) (gMembers g) = [(''1'', ''x''), (''2'', []), (''3'', ''x'')]"
    using dup_shape by (auto simp: map_eq_Cons_conv)
  from g(3) obtain m1 m2 m3 where "gMembers g = [m1, m2, m3]"
    "ndMBID m1 = ''x''" "ndMBID m3 = ''x''" "ndID m1 = ''1''" "ndID m3 = ''3''"
    by (auto simp: map_eq_Cons_conv)
  with g show thesis by (intro that)
qed

theorem duplicates_never_mix_mbids_witness:
  "\<exists>g\<in>set dup_groups. \<exists>m\<in>set (gMembers g). \<exists>m'\<in>set (gMembers g).
     ndID m \<noteq> ndID m' \<and> ndMBID m = ndMBID m' \<and> ndMBID m = ''x''"
proof -
  obtain g m1 m2 m3 where g: "dup_groups = [g]" "gMembers g = [m1, m2, m3]"
    "ndMBID m1 = ''x''" "ndMBID m3 = ''x''" "ndID m1 = ''1''" "ndID m3 = ''3''"
    by (rule dup_group)
  have "g \<in> set [g]" by simp
  then have "g \<in> set dup_groups" unfolding g(1) .
  with g have "g \<in> set dup_groups" "m1 \<in> set (gMembers g)" "m3 \<in> set (gMembers g)"
    "ndMBID m1 \<noteq> []" "ndMBID m3 \<noteq> []" by simp_all
  from duplicates_never_mix_mbids [OF dup_scan dup_run this] this g show ?thesis
    by (intro bexI [of _ g] bexI [of _ m1] bexI [of _ m3]) simp_all
qed


theorem shared_name_key_reported_witness:
  "reported_together dup_groups (dup_rows ! 0) (dup_rows ! 1)"
proof -
  have r: "dup_rows ! 0 \<in> set dup_rows" "dup_rows ! 1 \<in> set dup_rows" "dup_rows ! 0 \<noteq> dup_rows ! 1"
    by (simp_all add: dup_rows_def dup_row_def)
  have k: "to_lower (rName (dup_rows ! 0)) \<noteq> []"
    "to_lower (rName (dup_rows ! 0)) = to_lower (rName (dup_rows ! 1))" by code_simp+
  have c: "\<forall>x\<in>set dup_rows. \<forall>y\<in>set dup_rows. to_lower (rName x) = to_lower (rName (dup_rows ! 0)) \<longrightarrow>
      to_lower (rName y) = to_lower (rName (dup_rows ! 0)) \<longrightarrow>
      rMbid x \<noteq> [] \<longrightarrow> rMbid y \<noteq> [] \<longrightarrow> rMbid x = rMbid y"
    by code_simp
  from shared_name_key_reported [OF dup_scan r k c] show ?thesis unfolding dup_run by blast
qed

theorem group_reason_exact_witness:
  "map gReason dup_groups = [name_key] \<and> 2 \<le> length (gMembers (hd dup_groups))"
proof -
  obtain g m1 m2 m3 where g: "dup_groups = [g]" "gReason g = name_key"
    by (rule dup_group)
  have "g \<in> set [g]" by simp
  then have "g \<in> set dup_groups" unfolding g(1) .
  from group_reason_exact [OF dup_scan dup_run this] g(2) show ?thesis unfolding g(1) by simp
qed

end
