(* ===== verification/Similarity.thy ===== *)
theory Similarity
  imports Prelude
begin

text \<open>
  Name similarity, \<open>internal/provider/similarity.go\<close>: the two-row edit distance, the
  normalisation of a name and the percentage score every search adapter filters by.
\<close>

section \<open>Edit distance\<close>

text \<open>One row of the table: the cell of the previous row above-left and above, and the cell to
  the left. The two buffers of the code are the argument and the result.\<close>

fun lev_cells :: "'a \<Rightarrow> 'a list \<Rightarrow> nat list \<Rightarrow> nat \<Rightarrow> nat list" where
  "lev_cells x (y # ys) (p0 # p1 # ps) left =
     (let cost = (if x = y then 0 else 1);
          ins = left + 1;
          del = p1 + 1;
          sub = p0 + cost;
          c = ins;
          c = (if del < c then del else c);
          c = (if sub < c then sub else c)
      in c # lev_cells x ys (p1 # ps) c)"
| "lev_cells x ys ps left = []"

fun lev_rows :: "nat \<Rightarrow> 'a list \<Rightarrow> 'a list \<Rightarrow> nat list \<Rightarrow> nat list" where
  "lev_rows i [] b prev = prev"
| "lev_rows i (x # xs) b prev = lev_rows (i + 1) xs b (i # lev_cells x b prev i)"

definition LevenshteinRunes :: "'a list \<Rightarrow> 'a list \<Rightarrow> nat" where
  "LevenshteinRunes a b =
     (if length a = 0 then length b
      else if length b = 0 then length a
      else lev_rows 1 a b [0..<length b + 1] ! length b)"

text \<open>The recursive definition on prefixes the table computes.\<close>

fun ed :: "'a list \<Rightarrow> 'a list \<Rightarrow> nat \<Rightarrow> nat \<Rightarrow> nat" where
  "ed a b 0 j = j"
| "ed a b (Suc i) 0 = Suc i"
| "ed a b (Suc i) (Suc j) =
     min (min (ed a b (Suc i) j + 1) (ed a b i (Suc j) + 1))
       (ed a b i j + (if a ! i = b ! j then 0 else 1))"

text \<open>The abstract notion: \<open>n\<close> insertions, deletions and replacements turn one list into the
  other.\<close>

inductive edits :: "nat \<Rightarrow> 'a list \<Rightarrow> 'a list \<Rightarrow> bool" where
  edits_nil: "edits 0 [] []"
| edits_keep: "edits n xs ys \<Longrightarrow> edits n (xs @ [x]) (ys @ [x])"
| edits_replace: "edits n xs ys \<Longrightarrow> edits (Suc n) (xs @ [x]) (ys @ [y])"
| edits_delete: "edits n xs ys \<Longrightarrow> edits (Suc n) (xs @ [x]) ys"
| edits_insert: "edits n xs ys \<Longrightarrow> edits (Suc n) xs (ys @ [y])"

lemma lev_cells_ed:
  assumes "k \<le> length b"
  shows "lev_cells (a ! i) (drop k b) (map (ed a b i) [k..<length b + 1]) (ed a b (Suc i) k) =
    map (ed a b (Suc i)) [k + 1..<length b + 1]"
  using assms
proof (induction "length b - k" arbitrary: k)
  case 0
  then show ?case by simp
next
  case (Suc n)
  then have k: "k < length b" by simp
  then have d: "drop k b = b ! k # drop (k + 1) b" by (simp add: Cons_nth_drop_Suc)
  have u: "[k..<length b + 1] = k # (k + 1) # [k + 2..<length b + 1]"
    "[k + 1..<length b + 1] = (k + 1) # [k + 2..<length b + 1]"
    using k by (simp_all add: upt_conv_Cons)
  have IH: "lev_cells (a ! i) (drop (k + 1) b) (map (ed a b i) [k + 1..<length b + 1]) (ed a b (Suc i) (k + 1)) =
      map (ed a b (Suc i)) [k + 2..<length b + 1]"
    using Suc.hyps(1) [of "k + 1"] Suc.hyps(2) k by simp
  have c: "ed a b (Suc i) (k + 1) =
      (let c = ed a b (Suc i) k + 1;
           c = (if ed a b i (k + 1) + 1 < c then ed a b i (k + 1) + 1 else c);
           s = ed a b i k + (if a ! i = b ! k then 0 else 1)
       in if s < c then s else c)"
    by (simp add: Let_def)
  show ?case
    unfolding d u(1) list.map lev_cells.simps Let_def
    using IH c unfolding u(2) list.map Let_def by simp
qed

lemma lev_rows_ed:
  assumes "i + length xs = length a" "xs = drop i a"
  shows "lev_rows (i + 1) xs b (map (ed a b i) [0..<length b + 1]) =
    map (ed a b (length a)) [0..<length b + 1]"
  using assms
proof (induction xs arbitrary: i)
  case Nil
  then show ?case by simp
next
  case (Cons x xs)
  from Cons.prems(1) have i: "i < length a" by (metis add_less_cancel_left add_0_right length_greater_0_conv list.distinct(1))
  with Cons.prems(2) have x: "x = a ! i" "xs = drop (i + 1) a"
    by (simp_all add: Cons_nth_drop_Suc [symmetric])
  have row: "(i + 1) # lev_cells x b (map (ed a b i) [0..<length b + 1]) (i + 1) =
      map (ed a b (i + 1)) [0..<length b + 1]"
    using lev_cells_ed [of 0 b a i] x(1)
    by (simp add: upt_conv_Cons [of 0 "Suc (length b)"] del: upt_Suc)
  have "lev_rows (i + 1 + 1) xs b (map (ed a b (i + 1)) [0..<length b + 1]) =
      map (ed a b (length a)) [0..<length b + 1]"
    using Cons.prems(1) x(2) by (intro Cons.IH) simp_all
  with row show ?case by simp
qed

lemma ed_right0: "ed a b i 0 = i"
  by (cases i) simp_all

lemma LevenshteinRunes_ed: "LevenshteinRunes a b = ed a b (length a) (length b)"
proof (cases "a = [] \<or> b = []")
  case True
  then show ?thesis by (auto simp: LevenshteinRunes_def ed_right0)
next
  case False
  have "map (ed a b 0) [0..<length b + 1] = [0..<length b + 1]"
    by (rule map_idI) simp
  with lev_rows_ed [of 0 a a b] have "lev_rows 1 a b [0..<length b + 1] = map (ed a b (length a)) [0..<length b + 1]"
    by simp
  with False show ?thesis by (simp add: LevenshteinRunes_def del: upt_Suc)
qed

lemma ed_edits: "i \<le> length a \<Longrightarrow> j \<le> length b \<Longrightarrow> edits (ed a b i j) (take i a) (take j b)"
proof (induction a b i j rule: ed.induct)
  case (1 a b j)
  then show ?case
  proof (induction j)
    case (Suc j)
    then show ?case using edits_insert [of j "[]" "take j b" "b ! j"] by (simp add: take_Suc_conv_app_nth)
  qed (simp add: edits_nil)
next
  case (2 a b i)
  then have "edits (Suc n) (take (Suc n) a) []" if "n \<le> i" for n
    using that
  proof (induction n)
    case 0
    then show ?case using edits_delete [OF edits_nil, of "a ! 0"] by (cases a) simp_all
  next
    case (Suc n)
    then show ?case using edits_delete [of "Suc n" "take (Suc n) a" "[]" "a ! Suc n"]
      by (simp add: take_Suc_conv_app_nth)
  qed
  then show ?case by simp
next
  case (3 a b i j)
  have t: "take (Suc i) a = take i a @ [a ! i]" "take (Suc j) b = take j b @ [b ! j]"
    using 3 by (simp_all add: take_Suc_conv_app_nth)
  consider "ed a b (Suc i) (Suc j) = Suc (ed a b (Suc i) j)" | "ed a b (Suc i) (Suc j) = Suc (ed a b i (Suc j))"
    | "ed a b (Suc i) (Suc j) = ed a b i j + (if a ! i = b ! j then 0 else 1)"
    by (metis (no_types, lifting) Suc_eq_plus1 ed.simps(3) min_def)
  then show ?case
  proof cases
    case 1
    have "edits (ed a b (Suc i) j) (take (Suc i) a) (take j b)" using "3.IH" "3.prems" by simp
    then show ?thesis unfolding 1 t(2) by (rule edits_insert)
  next
    case 2
    have "edits (ed a b i (Suc j)) (take i a) (take (Suc j) b)" using "3.IH" "3.prems" by simp
    then show ?thesis unfolding 2 t(1) by (rule edits_delete)
  next
    case 3
    have e: "edits (ed a b i j) (take i a) (take j b)" using "3.IH" "3.prems" by simp
    show ?thesis
    proof (cases "a ! i = b ! j")
      case True
      then show ?thesis using edits_keep [OF e, of "a ! i"] unfolding 3 t by simp
    next
      case False
      then show ?thesis using edits_replace [OF e] unfolding 3 t by simp
    qed
  qed
qed

lemma ed_least: "edits n xs ys \<Longrightarrow> length xs \<le> length a \<Longrightarrow> length ys \<le> length b \<Longrightarrow>
   xs = take (length xs) a \<Longrightarrow> ys = take (length ys) b \<Longrightarrow> ed a b (length xs) (length ys) \<le> n"
proof (induction rule: edits.induct)
  case edits_nil
  then show ?case by simp
next
  case (edits_keep n xs ys x)
  then have "xs = take (length xs) a" "ys = take (length ys) b" "a ! length xs = b ! length ys"
    by (auto simp: take_Suc_conv_app_nth)
  with edits_keep show ?case by (simp add: min_le_iff_disj)
next
  case (edits_replace n xs ys x y)
  then have "xs = take (length xs) a" "ys = take (length ys) b"
    by (auto simp: take_Suc_conv_app_nth)
  with edits_replace have "ed a b (length xs) (length ys) \<le> n" by simp
  then show ?case by (auto simp: min_le_iff_disj)
next
  case (edits_delete n xs ys x)
  then have "xs = take (length xs) a" by (auto simp: take_Suc_conv_app_nth)
  with edits_delete show ?case by (cases "length ys") (simp_all add: ed_right0 min_le_iff_disj)
next
  case (edits_insert n xs ys y)
  then have "ys = take (length ys) b" by (auto simp: take_Suc_conv_app_nth)
  with edits_insert show ?case by (cases "length xs") (simp_all add: min_le_iff_disj)
qed


lemma edits_swap: "edits n xs ys \<Longrightarrow> edits n ys xs"
  by (induction rule: edits.induct) (auto intro: edits.intros)

lemma LevenshteinRunes_least: "edits n a b \<Longrightarrow> LevenshteinRunes a b \<le> n"
  using ed_least [of n a b a b] by (simp add: LevenshteinRunes_ed)

lemma LevenshteinRunes_edits: "edits (LevenshteinRunes a b) a b"
  using ed_edits [of "length a" a "length b" b] by (simp add: LevenshteinRunes_ed)

lemma LevenshteinRunes_sym: "LevenshteinRunes a b = LevenshteinRunes b a"
  using LevenshteinRunes_least [OF edits_swap [OF LevenshteinRunes_edits]] by (rule order_antisym)
    (rule LevenshteinRunes_least [OF edits_swap [OF LevenshteinRunes_edits]])

lemma edits_0: "edits n xs ys \<Longrightarrow> n = 0 \<Longrightarrow> xs = ys"
  by (induction rule: edits.induct) auto

lemma edits_refl: "edits 0 xs xs"
  by (induction xs rule: rev_induct) (auto intro: edits.intros)

lemma LevenshteinRunes_0: "LevenshteinRunes a b = 0 \<longleftrightarrow> a = b"
proof
  assume "LevenshteinRunes a b = 0"
  then show "a = b" using LevenshteinRunes_edits [of a b] by (intro edits_0) simp_all
next
  assume "a = b"
  then show "LevenshteinRunes a b = 0" using LevenshteinRunes_least [OF edits_refl, of b] by simp
qed

text \<open>C21. The two-row edit distance is the edit distance: \<open>LevenshteinRunes\<close> returns a number of
  insertions, deletions and replacements that turns the one name into the other, and no smaller
  number does.\<close>

theorem LevenshteinRunes_optimal: "LevenshteinRunes a b = (LEAST n. edits n a b)"
proof (rule Least_equality [symmetric])
  show "edits (LevenshteinRunes a b) a b" by (rule LevenshteinRunes_edits)
  show "edits n a b \<Longrightarrow> LevenshteinRunes a b \<le> n" for n by (rule LevenshteinRunes_least)
qed

section \<open>Similarity of names\<close>

text \<open>Names are ASCII here: \<open>unicode.IsLetter\<close> and \<open>unicode.IsDigit\<close> are the letters and digits
  of the prelude, and a rune is a byte.\<close>

definition DefaultNameSimilarityThreshold :: int where
  "DefaultNameSimilarityThreshold = 60"

definition NormalizeName :: "string \<Rightarrow> string" where
  "NormalizeName s =
     (let s = to_lower (trim_space s);
          s = trim_space (filter (\<lambda>r. is_letter r \<or> is_digit r \<or> r = CHR '' '') s)
      in if has_prefix s ''the ''
         then (let after = trim_space (trim_prefix s ''the '')
               in if after \<noteq> [] \<and> after \<noteq> ''the'' then after else s)
         else s)"

definition NameSimilarity :: "string \<Rightarrow> string \<Rightarrow> int" where
  "NameSimilarity a b =
     (let ta = trim_space a; tb = trim_space b
      in if equal_fold ta tb \<and> (ta \<noteq> [] \<or> a = [] \<and> b = []) then 100
         else
           let a = NormalizeName a; b = NormalizeName b
           in if a = [] \<or> b = [] then 0
              else if a = b then 100
              else
                let maxLen = (if length b > length a then length b else length a);
                    dist = LevenshteinRunes a b
                in if dist \<ge> maxLen then 0
                   else 100 - (int dist * 100) div int maxLen)"

fun best_similarity :: "string \<Rightarrow> string list \<Rightarrow> int \<Rightarrow> int" where
  "best_similarity query [] best = best"
| "best_similarity query (c # cs) best =
     (if c = [] then best_similarity query cs best
      else let s = NameSimilarity query c
        in if s > best then (if s = 100 then 100 else best_similarity query cs s)
           else best_similarity query cs best)"

definition BestNameSimilarity :: "string \<Rightarrow> string list \<Rightarrow> int" where
  "BestNameSimilarity query candidates = best_similarity query candidates 0"

text \<open>A similarity score is a percentage, symmetric in its names.\<close>

theorem NameSimilarity_range:
  "0 \<le> NameSimilarity a b \<and> NameSimilarity a b \<le> 100 \<and> NameSimilarity a b = NameSimilarity b a"
proof -
  have q: "0 \<le> (int d * 100) div int m \<and> (int d * 100) div int m \<le> 100" if "d < m" for d m :: nat
  proof -
    have "(int d * 100) div int m \<le> (int m * 100) div int m"
      using that by (intro zdiv_mono1) simp_all
    with that show ?thesis by (simp add: pos_imp_zdiv_nonneg_iff)
  qed
  have "0 \<le> NameSimilarity a b \<and> NameSimilarity a b \<le> 100"
    using q by (auto simp: NameSimilarity_def Let_def)
  moreover have "NameSimilarity a b = NameSimilarity b a"
  proof -
    let ?A = "NormalizeName a" and ?B = "NormalizeName b"
    have c: "(equal_fold (trim_space a) (trim_space b) \<and> (trim_space a \<noteq> [] \<or> a = [] \<and> b = [])) =
        (equal_fold (trim_space b) (trim_space a) \<and> (trim_space b \<noteq> [] \<or> b = [] \<and> a = []))"
      by (auto simp: equal_fold_def to_lower_def)
    have m: "(if length ?B > length ?A then length ?B else length ?A) =
        (if length ?A > length ?B then length ?A else length ?B)" by simp
    show ?thesis
      unfolding NameSimilarity_def Let_def c m LevenshteinRunes_sym [of ?A ?B]
      by (simp only: disj_commute [of "?A = []"] eq_commute [of ?A ?B])
  qed
  ultimately show ?thesis by simp
qed

lemma NameSimilarity_bounds: "0 \<le> NameSimilarity a b" "NameSimilarity a b \<le> 100"
proof -
  have q: "0 \<le> (int d * 100) div int m \<and> (int d * 100) div int m \<le> 100" if "d < m" for d m :: nat
  proof -
    have "(int d * 100) div int m \<le> (int m * 100) div int m"
      using that by (intro zdiv_mono1) simp_all
    with that show ?thesis by (simp add: pos_imp_zdiv_nonneg_iff)
  qed
  then show "0 \<le> NameSimilarity a b" "NameSimilarity a b \<le> 100"
    by (auto simp: NameSimilarity_def Let_def)
qed

lemma fold_max_top: "(\<And>x. x \<in> set xs \<Longrightarrow> x \<le> t) \<Longrightarrow> fold max xs t = (t :: int)"
  by (induction xs) (auto simp: max_def)

lemma best_similarity_fold:
  "best \<le> 100 \<Longrightarrow>
   best_similarity q cs best = fold max (map (NameSimilarity q) (filter (\<lambda>c. c \<noteq> []) cs)) best"
proof (induction cs arbitrary: best)
  case (Cons c cs)
  let ?F = "\<lambda>b. fold max (map (NameSimilarity q) (filter (\<lambda>c. c \<noteq> []) cs)) b"
  have top: "?F 100 = 100"
    by (rule fold_max_top) (auto simp: NameSimilarity_bounds)
  show ?case
  proof (cases "c \<noteq> [] \<and> NameSimilarity q c > best")
    case True
    then have "max (NameSimilarity q c) best = NameSimilarity q c" by simp
    with True Cons.IH [of "NameSimilarity q c"] NameSimilarity_bounds(2) [of q c] top show ?thesis
      by (simp add: Let_def)
  next
    case False
    then have "c \<noteq> [] \<longrightarrow> max (NameSimilarity q c) best = best" by (auto simp: max_def)
    with False Cons.IH [of best] Cons.prems show ?thesis by (cases "c = []") (simp_all add: Let_def)
  qed
qed simp

text \<open>\<open>BestNameSimilarity\<close> is the maximum over the non-empty names, early exit included: an
  empty name is never scored, and without any name the score is 0.\<close>

theorem BestNameSimilarity_max:
  "BestNameSimilarity q cs = Max (insert 0 (NameSimilarity q ` set (filter (\<lambda>c. c \<noteq> []) cs)))"
proof -
  have "Max (set (0 # map (NameSimilarity q) (filter (\<lambda>c. c \<noteq> []) cs))) =
      fold max (map (NameSimilarity q) (filter (\<lambda>c. c \<noteq> []) cs)) 0"
    by (rule Max.set_eq_fold)
  then show ?thesis by (simp add: BestNameSimilarity_def best_similarity_fold)
qed

end
