(* ===== verification/Albums.thy ===== *)
theory Albums
  imports Similarity
begin

text \<open>
  Album evidence and the identification gates: \<open>internal/artist/albumgate.go\<close>,
  \<open>albumsource.go\<close>, \<open>albums.go\<close>, \<open>mbidcandidate.go\<close>, \<open>disambiguation.go\<close>, and the callers of
  the gate in \<open>internal/api/album_gate.go\<close> and \<open>internal/rule/album_gate.go\<close>.

  \<open>NormalizeAlbumName\<close> rests on \<open>regexp\<close> and is the parameter \<open>norm\<close>; the directory listing and
  the provider's release-group fetch are parameters that may fail.
\<close>

section \<open>Album evidence\<close>

text \<open>The Go type is an int with three named values; \<open>EvidenceOther\<close> stands for the rest.\<close>

datatype album_evidence = EvidenceUnknown | EvidenceNone | EvidenceFound | EvidenceOther int

record album_set =
  asTitles :: "string list"
  asEvidence :: album_evidence
  asOrigin :: string

text \<open>What \<open>os.ReadDir\<close> yields: an error, or the entries with their directory flag.\<close>

type_synonym read_dir = "string \<Rightarrow> string + (string \<times> bool) list"

definition list_local_albums :: "read_dir \<Rightarrow> string \<Rightarrow> string + string list" where
  "list_local_albums readDir path =
     (case readDir path of
        Inl e \<Rightarrow> Inl e
      | Inr entries \<Rightarrow>
          Inr (sort (map fst (filter (\<lambda>(name, isDir). isDir \<and> \<not> has_prefix name ''.'') entries))))"

definition ListLocalAlbums :: "read_dir \<Rightarrow> string \<Rightarrow> string list" where
  "ListLocalAlbums readDir path = (case list_local_albums readDir path of Inl e \<Rightarrow> [] | Inr as \<Rightarrow> as)"

text \<open>The result of a source: the set and the errors to report. \<open>ctxErr\<close> is \<open>ctx.Err()\<close>.\<close>

definition filesystem_albums ::
  "read_dir \<Rightarrow> string option \<Rightarrow> string option \<Rightarrow> album_set \<times> string list" where
  "filesystem_albums readDir ctxErr path =
     (let set0 = \<lparr>asTitles = [], asEvidence = EvidenceUnknown, asOrigin = ''filesystem''\<rparr> in
      case path of
        None \<Rightarrow> (set0, [''no artist path recorded''])
      | Some p \<Rightarrow>
          if p = [] then (set0, [''no artist path recorded''])
          else (case ctxErr of
              Some e \<Rightarrow> (set0, [e])
            | None \<Rightarrow> (case list_local_albums readDir p of
                Inl e \<Rightarrow> (set0, [e])
              | Inr albums \<Rightarrow>
                  if length albums = 0 then (set0\<lparr>asEvidence := EvidenceNone\<rparr>, [])
                  else (set0\<lparr>asTitles := albums, asEvidence := EvidenceFound\<rparr>, []))))"

text \<open>A chain is the list of its sources' answers in order, each with the source's name; a source
  after the first hit is not consulted, so its answer does not enter.\<close>

fun chain_loop ::
  "(string \<times> album_set \<times> string list) list \<Rightarrow> nat \<Rightarrow> string list \<Rightarrow> (album_set \<times> string list) + (nat \<times> string list)" where
  "chain_loop [] noneCount errs = Inr (noneCount, errs)"
| "chain_loop ((name, s, e) # rest) noneCount errs =
     (let errs = errs @ e in
      case asEvidence s of
        EvidenceFound \<Rightarrow> Inl (if asOrigin s = [] then s\<lparr>asOrigin := name\<rparr> else s, errs)
      | EvidenceNone \<Rightarrow> chain_loop rest (noneCount + 1) errs
      | _ \<Rightarrow> chain_loop rest noneCount errs)"

definition chain_albums :: "(string \<times> album_set \<times> string list) list \<Rightarrow> album_set \<times> string list" where
  "chain_albums sources =
     (case chain_loop sources 0 [] of
        Inl r \<Rightarrow> r
      | Inr (noneCount, errs) \<Rightarrow>
          if length sources > 0 \<and> noneCount = length sources
          then (\<lparr>asTitles = [], asEvidence = EvidenceNone, asOrigin = ''chain''\<rparr>, errs)
          else (\<lparr>asTitles = [], asEvidence = EvidenceUnknown, asOrigin = ''chain''\<rparr>, errs))"

section \<open>Comparing catalogues\<close>

record album_match =
  amLocalName :: string
  amRemoteName :: string
  amMatched :: bool

record album_comparison =
  acMatches :: "album_match list"
  acLocalOnly :: "string list"
  acRemoteOnly :: "string list"
  acMatchCount :: int
  acLocalCount :: int
  acRemoteCount :: int
  acMatchPercent :: int

definition zero_comparison :: album_comparison where
  "zero_comparison = \<lparr>acMatches = [], acLocalOnly = [], acRemoteOnly = [], acMatchCount = 0,
     acLocalCount = 0, acRemoteCount = 0, acMatchPercent = 0\<rparr>"

text \<open>The remote map as an association list: normalised title, first original, matched flag.
  \<open>norm\<close> is \<open>NormalizeAlbumName\<close>, which rests on \<open>regexp\<close> and Unicode classes.\<close>

fun remote_entries ::
  "(string \<Rightarrow> string) \<Rightarrow> string list \<Rightarrow> (string \<times> string \<times> bool) list \<Rightarrow> (string \<times> string \<times> bool) list" where
  "remote_entries norm [] es = es"
| "remote_entries norm (t # ts) es =
     remote_entries norm ts (if norm t \<in> fst ` set es then es else es @ [(norm t, t, False)])"

definition mark_entry ::
  "string \<Rightarrow> (string \<times> string \<times> bool) list \<Rightarrow> (string \<times> string \<times> bool) list" where
  "mark_entry k es = map (\<lambda>(k', t, m). (k', t, m \<or> k' = k)) es"

fun match_locals ::
  "(string \<Rightarrow> string) \<Rightarrow> string list \<Rightarrow> (string \<times> string \<times> bool) list \<Rightarrow> album_comparison \<Rightarrow>
   album_comparison \<times> (string \<times> string \<times> bool) list" where
  "match_locals norm [] es cmp = (cmp, es)"
| "match_locals norm (l # ls) es cmp =
     (case map_of es (norm l) of
        Some (t, m) \<Rightarrow>
          match_locals norm ls (mark_entry (norm l) es)
            (cmp\<lparr>acMatches := acMatches cmp @ [\<lparr>amLocalName = l, amRemoteName = t, amMatched = True\<rparr>],
                  acMatchCount := acMatchCount cmp + 1\<rparr>)
      | None \<Rightarrow> match_locals norm ls es (cmp\<lparr>acLocalOnly := acLocalOnly cmp @ [l]\<rparr>))"

definition CompareAlbums :: "(string \<Rightarrow> string) \<Rightarrow> string list \<Rightarrow> string list \<Rightarrow> album_comparison" where
  "CompareAlbums norm localDirs remoteTitles =
     (let cmp = zero_comparison\<lparr>acLocalCount := int (length localDirs),
                                 acRemoteCount := int (length remoteTitles)\<rparr> in
      if length localDirs = 0 \<and> length remoteTitles = 0 then cmp
      else
        let (cmp, es) = match_locals norm localDirs (remote_entries norm remoteTitles []) cmp;
            cmp = cmp\<lparr>acRemoteOnly := sort (map (\<lambda>(k, t, m). t) (filter (\<lambda>(k, t, m). \<not> m) es))\<rparr>
        in if acLocalCount cmp > 0
           then cmp\<lparr>acMatchPercent := (acMatchCount cmp * 100) div acLocalCount cmp\<rparr>
           else cmp)"

definition CompareAlbumSet ::
  "(string \<Rightarrow> string) \<Rightarrow> album_set \<Rightarrow> string list \<Rightarrow> album_comparison \<times> album_evidence" where
  "CompareAlbumSet norm local remoteTitles =
     (CompareAlbums norm (if asEvidence local = EvidenceFound then asTitles local else []) remoteTitles,
      asEvidence local)"

section \<open>The gate\<close>

definition AlbumOverlapAutoLinkFloor :: int where "AlbumOverlapAutoLinkFloor = 70"
definition AlbumOverlapReviewFloor :: int where "AlbumOverlapReviewFloor = 30"

datatype album_gate_decision = AlbumGateDecline | AlbumGateReview | AlbumGatePermit

record album_gate_input =
  giEvidence :: album_evidence
  giOverlapPercent :: int
  giCandidateReleaseCount :: int
  giCandidateReleasesKnown :: bool
  giUncontestedBest :: bool
  giRedFlag :: string

text \<open>The reasons, with what their text is formatted from.\<close>

datatype gate_reason =
    LocalUnreadable | NoLocalAlbums | UnrecognizedState album_evidence | ReleasesNotAvailable
  | NoReleaseGroups | SeveralOverlap int | Flagged int string | Admitted int int
  | BelowAutoLink int int | BelowReview int int

definition EvaluateAlbumGate :: "album_gate_input \<Rightarrow> album_gate_decision \<times> gate_reason" where
  "EvaluateAlbumGate inp =
     (case giEvidence inp of
        EvidenceUnknown \<Rightarrow> (AlbumGateDecline, LocalUnreadable)
      | EvidenceNone \<Rightarrow> (AlbumGateDecline, NoLocalAlbums)
      | EvidenceOther n \<Rightarrow> (AlbumGateDecline, UnrecognizedState (EvidenceOther n))
      | EvidenceFound \<Rightarrow>
          if \<not> giCandidateReleasesKnown inp then (AlbumGateDecline, ReleasesNotAvailable)
          else if giCandidateReleaseCount inp = 0 then (AlbumGateDecline, NoReleaseGroups)
          else if giOverlapPercent inp \<ge> AlbumOverlapAutoLinkFloor then
            (if \<not> giUncontestedBest inp then (AlbumGateReview, SeveralOverlap AlbumOverlapAutoLinkFloor)
             else if giRedFlag inp \<noteq> []
               then (AlbumGateReview, Flagged (giOverlapPercent inp) (giRedFlag inp))
             else (AlbumGatePermit, Admitted (giOverlapPercent inp) AlbumOverlapAutoLinkFloor))
          else if giOverlapPercent inp \<ge> AlbumOverlapReviewFloor
            then (AlbumGateReview, BelowAutoLink (giOverlapPercent inp) AlbumOverlapAutoLinkFloor)
          else (AlbumGateDecline, BelowReview (giOverlapPercent inp) AlbumOverlapReviewFloor))"

section \<open>Search candidates\<close>

record search_result =
  srProviderID :: string
  srName :: string
  srSortName :: string
  srType :: string
  srDisambiguation :: string
  srOrigin :: string
  srScore :: int
  srMusicBrainzID :: string
  srSource :: string

definition candidateRedFlagWords :: "string list" where
  "candidateRedFlagWords = [''tribute'', ''cover band'', ''karaoke'', ''soundalike'']"

definition CandidateRedFlag :: "search_result option \<Rightarrow> string" where
  "CandidateRedFlag res =
     (case res of None \<Rightarrow> []
      | Some r \<Rightarrow> (case find (\<lambda>w. str_contains (to_lower (srDisambiguation r)) w) candidateRedFlagWords of
          Some w \<Rightarrow> ''a '' @ w @ '' act'' | None \<Rightarrow> []))"

definition is_hex :: "char \<Rightarrow> bool" where
  "is_hex c \<longleftrightarrow> is_digit c \<or> (97 \<le> char_code c \<and> char_code c \<le> 102) \<or> (65 \<le> char_code c \<and> char_code c \<le> 70)"

definition IsValidMBID :: "string \<Rightarrow> bool" where
  "IsValidMBID s \<longleftrightarrow> length s = 36 \<and>
     list_all (\<lambda>(i, c). if i \<in> {8, 13, 18, 23} then c = CHR ''-'' else is_hex c)
       (zip [0..<length s] s)"

definition MBIDMinProviderScore :: int where "MBIDMinProviderScore = 85"
definition MBIDMinNameSimilarity :: int where "MBIDMinNameSimilarity = 85"
definition MBIDAmbiguityMargin :: int where "MBIDAmbiguityMargin = 10"

definition isMusicBrainzSourcedResult :: "search_result \<Rightarrow> bool" where
  "isMusicBrainzSourcedResult r = equal_fold (srSource r) ''musicbrainz''"

text \<open>The first of the highest-scoring hits a loop does not skip.\<close>

fun pick_best :: "(search_result \<Rightarrow> bool) \<Rightarrow> search_result list \<Rightarrow> search_result option \<Rightarrow> search_result option" where
  "pick_best skip [] best = best"
| "pick_best skip (r # rs) best =
     (if skip r then pick_best skip rs best
      else pick_best skip rs
        (case best of None \<Rightarrow> Some r | Some b \<Rightarrow> (if srScore r > srScore b then Some r else Some b)))"

definition BestMBIDCandidates :: "search_result list \<Rightarrow> search_result option \<times> search_result option" where
  "BestMBIDCandidates results =
     (case pick_best (\<lambda>r. \<not> IsValidMBID (srMusicBrainzID r)) results None of
        None \<Rightarrow> (None, None)
      | Some best \<Rightarrow>
          (Some best,
           pick_best (\<lambda>r. \<not> IsValidMBID (srMusicBrainzID r) \<or> \<not> isMusicBrainzSourcedResult r
               \<or> equal_fold (srMusicBrainzID r) (srMusicBrainzID best)) results None))"

datatype mbid_rejection =
    NoCandidate | LowScore string int | LowSimilarity string int | Ambiguous string int string int

definition EvaluateMBIDCandidate ::
  "string \<Rightarrow> search_result option \<Rightarrow> search_result option \<Rightarrow> mbid_rejection option" where
  "EvaluateMBIDCandidate artistName best runnerUp =
     (case best of
        None \<Rightarrow> Some NoCandidate
      | Some b \<Rightarrow>
          if srScore b < MBIDMinProviderScore then Some (LowScore (srName b) (srScore b))
          else let sim = NameSimilarity artistName (srName b) in
            if sim < MBIDMinNameSimilarity then Some (LowSimilarity (srName b) sim)
            else (case runnerUp of
                Some r \<Rightarrow>
                  if srScore b - srScore r < MBIDAmbiguityMargin
                  then Some (Ambiguous (srName b) (srScore b) (srName r) (srScore r)) else None
              | None \<Rightarrow> None))"

text \<open>\<open>SplitNameDisambiguation\<close> reads and writes the name and the disambiguation.\<close>

definition SplitNameDisambiguation ::
  "(string \<times> string) option \<Rightarrow> (string \<times> string) option \<Rightarrow> (string \<times> string) option \<times> bool" where
  "SplitNameDisambiguation a meta =
     (case (a, meta) of
        (Some (name, dis), Some (mname, mdis)) \<Rightarrow>
          if dis \<noteq> [] then (a, False)
          else if mname = [] \<or> mdis = [] then (a, False)
          else if \<not> equal_fold name (mname @ '' ('' @ mdis @ '')'') then (a, False)
          else (Some (mname, mdis), True)
      | _ \<Rightarrow> (a, False))"

section \<open>The callers of the gate\<close>

text \<open>The per-request release-group cache of \<open>internal/api/album_gate.go\<close>: the entries, and the
  MBIDs fetched so far, last first. A provider call may answer differently each time: \<open>fetch\<close>
  receives the calls made before it. \<open>None\<close> is the nil cache.\<close>

record release_group_cache =
  rgEntries :: "string \<rightharpoonup> string list \<times> bool"
  rgCalls :: "string list"

type_synonym group_fetcher = "string list \<Rightarrow> string \<Rightarrow> string + string list"

definition cache_holds :: "release_group_cache option \<Rightarrow> string \<Rightarrow> bool" where
  "cache_holds c m = (case c of None \<Rightarrow> False | Some c \<Rightarrow> rgEntries c m \<noteq> None)"

definition cache_titles ::
  "group_fetcher \<Rightarrow> release_group_cache option \<Rightarrow> string \<Rightarrow>
   release_group_cache option \<times> string list \<times> bool" where
  "cache_titles fetch c m =
     (case c of
        None \<Rightarrow> (None, [], False)
      | Some cc \<Rightarrow>
          if m = [] then (c, [], False)
          else (case rgEntries cc m of
              Some (ts, known) \<Rightarrow> (c, ts, known)
            | None \<Rightarrow> (case fetch (rgCalls cc) m of
                Inl e \<Rightarrow> (Some (cc\<lparr>rgEntries := (rgEntries cc)(m \<mapsto> ([], False)), rgCalls := m # rgCalls cc\<rparr>), [], False)
              | Inr ts \<Rightarrow> (Some (cc\<lparr>rgEntries := (rgEntries cc)(m \<mapsto> (ts, True)), rgCalls := m # rgCalls cc\<rparr>), ts, True))))"

definition normalizeMBID :: "string \<Rightarrow> string" where
  "normalizeMBID s = to_lower (trim_space s)"

definition tier3RivalCatalogueBudget :: nat where "tier3RivalCatalogueBudget = 2"

fun rival_loop ::
  "(string \<Rightarrow> string) \<Rightarrow> group_fetcher \<Rightarrow> album_set \<Rightarrow> string \<Rightarrow> search_result list \<Rightarrow> nat \<Rightarrow>
   release_group_cache option \<Rightarrow> release_group_cache option \<times> bool" where
  "rival_loop norm fetch local best [] fetched c = (c, False)"
| "rival_loop norm fetch local best (r # rs) fetched c =
     (if srMusicBrainzID r = [] \<or> equal_fold (srMusicBrainzID r) best
      then rival_loop norm fetch local best rs fetched c
      else if \<not> IsValidMBID (normalizeMBID (srMusicBrainzID r))
      then rival_loop norm fetch local best rs fetched c
      else
        let cachedAlready = cache_holds c (srMusicBrainzID r) in
        if \<not> cachedAlready \<and> fetched \<ge> tier3RivalCatalogueBudget then (c, False)
        else
          let (c, remote, known) = cache_titles fetch c (srMusicBrainzID r);
              fetched = (if cachedAlready then fetched else fetched + 1)
          in if \<not> known then (c, True)
             else if length remote = 0 then rival_loop norm fetch local best rs fetched c
             else if acMatchPercent (fst (CompareAlbumSet norm local remote)) \<ge> AlbumOverlapAutoLinkFloor
             then (c, True)
             else rival_loop norm fetch local best rs fetched c)"

definition tier3RivalClearsOverlapFloor where
  "tier3RivalClearsOverlapFloor norm fetch local results best c =
     rival_loop norm fetch local (srMusicBrainzID best) results 0 c"

definition tier3AlbumGateDeclines ::
  "(string \<Rightarrow> string) \<Rightarrow> group_fetcher \<Rightarrow> album_set \<Rightarrow> search_result list \<Rightarrow> search_result \<Rightarrow>
   release_group_cache option \<Rightarrow> release_group_cache option \<times> bool" where
  "tier3AlbumGateDeclines norm fetch local results best c =
     (let inp = \<lparr>giEvidence = asEvidence local, giOverlapPercent = 0, giCandidateReleaseCount = 0,
                giCandidateReleasesKnown = False, giUncontestedBest = False,
                giRedFlag = CandidateRedFlag (Some best)\<rparr>;
          (c, inp) =
            (if asEvidence local = EvidenceFound
             then let (c, remote, known) = cache_titles fetch c (srMusicBrainzID best);
                      inp = inp\<lparr>giCandidateReleasesKnown := known,
                               giCandidateReleaseCount := int (length remote)\<rparr>;
                      inp = (if known then inp\<lparr>giOverlapPercent :=
                               acMatchPercent (fst (CompareAlbumSet norm local remote))\<rparr> else inp);
                      (c, contested) = tier3RivalClearsOverlapFloor norm fetch local results best c
                  in (c, inp\<lparr>giUncontestedBest := \<not> contested\<rparr>)
             else (c, inp))
      in (c, fst (EvaluateAlbumGate inp) \<noteq> AlbumGatePermit))"

record scored_candidate =
  scResult :: search_result
  scReleaseCount :: int
  scReleasesKnown :: bool
  scComparison :: "album_comparison option"

definition tier2GatePermits :: "album_set \<Rightarrow> scored_candidate \<Rightarrow> bool" where
  "tier2GatePermits local cand =
     (fst (EvaluateAlbumGate
        \<lparr>giEvidence = asEvidence local,
         giOverlapPercent = (case scComparison cand of None \<Rightarrow> 0 | Some ac \<Rightarrow> acMatchPercent ac),
         giCandidateReleaseCount = scReleaseCount cand,
         giCandidateReleasesKnown = scReleasesKnown cand,
         giUncontestedBest = True,
         giRedFlag = CandidateRedFlag (Some (scResult cand))\<rparr>) = AlbumGatePermit)"

text \<open>The rule engine's gate, \<open>internal/rule/album_gate.go\<close>: the album source's answer for the
  artist (\<open>None\<close> when no source is wired), the fetcher, whether the artist is locked.\<close>

definition rule_gate_permits ::
  "(string \<Rightarrow> string) \<Rightarrow> (album_set \<times> string list) option \<Rightarrow> (string \<Rightarrow> string + string list) option \<Rightarrow>
   bool option \<Rightarrow> search_result option \<Rightarrow> bool \<times> gate_reason option" where
  "rule_gate_permits norm albums fetcher locked best =
     (case (albums, fetcher, locked, best) of
        (Some (local, err), Some fetch, Some lk, Some b) \<Rightarrow>
          if lk then (True, None)
          else if asEvidence local \<noteq> EvidenceFound then (True, None)
          else if srMusicBrainzID b = [] then (True, None)
          else (case fetch (srMusicBrainzID b) of
              Inl e \<Rightarrow> (True, None)
            | Inr titles \<Rightarrow>
                (case EvaluateAlbumGate
                   \<lparr>giEvidence = asEvidence local,
                    giOverlapPercent = acMatchPercent (fst (CompareAlbumSet norm local titles)),
                    giCandidateReleaseCount = int (length titles),
                    giCandidateReleasesKnown = True, giUncontestedBest = True,
                    giRedFlag = CandidateRedFlag (Some b)\<rparr> of
                   (AlbumGatePermit, reason) \<Rightarrow> (True, None)
                 | (_, reason) \<Rightarrow> (False, Some reason)))
      | _ \<Rightarrow> (True, None))"

section \<open>Catalogue comparison\<close>

lemma remote_entries_spec:
  "distinct (map fst es) \<Longrightarrow>
   distinct (map fst (remote_entries norm ts es)) \<and>
   fst ` set (remote_entries norm ts es) = fst ` set es \<union> norm ` set ts \<and>
   (\<forall>(k, t, m)\<in>set (remote_entries norm ts es). (k, t, m) \<in> set es \<or> t \<in> set ts \<and> k = norm t \<and> \<not> m)"
proof (induction ts arbitrary: es)
  case (Cons t ts)
  show ?case
  proof (cases "norm t \<in> fst ` set es")
    case True
    with Cons.IH [OF Cons.prems] show ?thesis by auto
  next
    case False
    then have "distinct (map fst (es @ [(norm t, t, False)]))" using Cons.prems by auto
    from Cons.IH [OF this] False show ?thesis by auto
  qed
qed auto

lemma mark_entry_keys: "map fst (mark_entry k es) = map fst es"
  by (auto simp: mark_entry_def)

lemma mark_entry_set: "(k', t, m) \<in> set (mark_entry k es) \<longleftrightarrow>
    (\<exists>m0. (k', t, m0) \<in> set es \<and> m = (m0 \<or> k' = k))"
  by (force simp: mark_entry_def)

lemma match_locals_spec:
  assumes "match_locals norm ls es c = (c', es')"
  shows "acMatchCount c' = acMatchCount c + int (length (filter (\<lambda>l. norm l \<in> fst ` set es) ls))"
    and "acLocalOnly c' = acLocalOnly c @ filter (\<lambda>l. norm l \<notin> fst ` set es) ls"
    and "acLocalCount c' = acLocalCount c"
    and "(k, t, m) \<in> set es' \<longleftrightarrow> (\<exists>m0. (k, t, m0) \<in> set es \<and> m = (m0 \<or> k \<in> norm ` set ls))"
proof -
  have "acMatchCount c' = acMatchCount c + int (length (filter (\<lambda>l. norm l \<in> fst ` set es) ls)) \<and>
    acLocalOnly c' = acLocalOnly c @ filter (\<lambda>l. norm l \<notin> fst ` set es) ls \<and>
    acLocalCount c' = acLocalCount c \<and>
    (\<forall>k t m. (k, t, m) \<in> set es' \<longleftrightarrow> (\<exists>m0. (k, t, m0) \<in> set es \<and> m = (m0 \<or> k \<in> norm ` set ls)))"
    using assms
  proof (induction norm ls es c rule: match_locals.induct)
    case (1 norm es c)
    then show ?case by auto
  next
    case (2 norm l ls es c)
    show ?case
    proof (cases "map_of es (norm l)")
      case None
      then have n: "norm l \<notin> fst ` set es" by (simp add: map_of_eq_None_iff)
      have IH: "acMatchCount c' = acMatchCount c + int (length (filter (\<lambda>l. norm l \<in> fst ` set es) ls))"
        "acLocalOnly c' = acLocalOnly c @ [l] @ filter (\<lambda>l. norm l \<notin> fst ` set es) ls"
        "acLocalCount c' = acLocalCount c"
        "\<forall>k t m. (k, t, m) \<in> set es' \<longleftrightarrow> (\<exists>m0. (k, t, m0) \<in> set es \<and> m = (m0 \<or> k \<in> norm ` set ls))"
        using "2.IH"(1) [OF None] "2.prems" None by auto
      have "\<And>k t m0. (k, t, m0) \<in> set es \<Longrightarrow> k \<noteq> norm l" using n by force
      with IH n show ?thesis by auto
    next
      case (Some v)
      obtain t0 m0 where v: "v = (t0, m0)" by (cases v)
      have i: "norm l \<in> fst ` set es" using map_of_SomeD [OF Some] by force
      have keys: "fst ` set (mark_entry (norm l) es) = fst ` set es"
        using arg_cong [OF mark_entry_keys, of set "norm l" es] by simp
      have IH: "acMatchCount c' = acMatchCount c + 1 + int (length (filter (\<lambda>l. norm l \<in> fst ` set es) ls))"
        "acLocalOnly c' = acLocalOnly c @ filter (\<lambda>l. norm l \<notin> fst ` set es) ls"
        "acLocalCount c' = acLocalCount c"
        "\<forall>k t m. (k, t, m) \<in> set es' \<longleftrightarrow>
           (\<exists>m0. (k, t, m0) \<in> set (mark_entry (norm l) es) \<and> m = (m0 \<or> k \<in> norm ` set ls))"
        using "2.IH"(2) [OF Some v [symmetric]] "2.prems" Some v keys by auto
      from IH i show ?thesis unfolding mark_entry_set by auto
    qed
  qed
  then show "acMatchCount c' = acMatchCount c + int (length (filter (\<lambda>l. norm l \<in> fst ` set es) ls))"
    and "acLocalOnly c' = acLocalOnly c @ filter (\<lambda>l. norm l \<notin> fst ` set es) ls"
    and "acLocalCount c' = acLocalCount c"
    and "(k, t, m) \<in> set es' \<longleftrightarrow> (\<exists>m0. (k, t, m0) \<in> set es \<and> m = (m0 \<or> k \<in> norm ` set ls))"
    by blast+
qed

definition matched :: "(string \<Rightarrow> string) \<Rightarrow> string list \<Rightarrow> string list \<Rightarrow> string list" where
  "matched norm local remote = filter (\<lambda>l. norm l \<in> norm ` set remote) local"

lemma CompareAlbums_spec:
  "acMatchCount (CompareAlbums norm local remote) = int (length (matched norm local remote)) \<and>
   acLocalOnly (CompareAlbums norm local remote) = filter (\<lambda>l. norm l \<notin> norm ` set remote) local \<and>
   norm ` set (acRemoteOnly (CompareAlbums norm local remote)) = norm ` set remote - norm ` set local \<and>
   acMatchPercent (CompareAlbums norm local remote) =
     (int (length (matched norm local remote)) * 100) div int (length local)"
proof (cases "local = [] \<and> remote = []")
  case True
  then show ?thesis by (simp add: CompareAlbums_def zero_comparison_def matched_def)
next
  case False
  let ?es = "remote_entries norm remote []"
  let ?c = "zero_comparison\<lparr>acLocalCount := int (length local), acRemoteCount := int (length remote)\<rparr>"
  obtain c es where m: "match_locals norm local ?es ?c = (c, es)"
    by (cases "match_locals norm local ?es ?c")
  have E: "fst ` set ?es = norm ` set remote"
    and T: "\<And>k t m. (k, t, m) \<in> set ?es \<Longrightarrow> t \<in> set remote \<and> k = norm t \<and> \<not> m"
    using remote_entries_spec [of "[]" norm remote] by auto
  note S = match_locals_spec [OF m]
  let ?ro = "sort (map (\<lambda>(k, t, m). t) (filter (\<lambda>(k, t, m). \<not> m) es))"
  let ?c1 = "c\<lparr>acRemoteOnly := ?ro\<rparr>"
  have run: "CompareAlbums norm local remote =
      (if acLocalCount ?c1 > 0 then ?c1\<lparr>acMatchPercent := (acMatchCount ?c1 * 100) div acLocalCount ?c1\<rparr> else ?c1)"
    unfolding CompareAlbums_def Let_def m length_0_conv by (simp only: False if_False prod.case)
  have pct0: "acMatchPercent c = 0" if "local = []"
    using m that by (simp add: zero_comparison_def) (metis album_comparison.select_convs(7)
        album_comparison.update_convs(5,6))
  have cnt: "acMatchCount c = int (length (matched norm local remote))"
    using S(1) by (simp add: E matched_def zero_comparison_def)
  have lc: "acLocalCount c = int (length local)" using S(3) by simp
  have lo: "acLocalOnly c = filter (\<lambda>l. norm l \<notin> norm ` set remote) local"
    using S(2) by (simp add: E zero_comparison_def)
  have ro: "norm ` set ?ro = norm ` set remote - norm ` set local"
  proof (rule set_eqI)
    fix k
    have e: "(k', t, False) \<in> set es \<longleftrightarrow> (k', t, False) \<in> set ?es \<and> k' \<notin> norm ` set local" for k' t
      using S(4) [of k' t False] by auto
    have "k \<in> norm ` set ?ro \<longleftrightarrow> (\<exists>k' t. (k', t, False) \<in> set es \<and> k = norm t)"
      by (force simp: image_iff)
    also have "\<dots> \<longleftrightarrow> (\<exists>k' t. (k', t, False) \<in> set ?es \<and> k' \<notin> norm ` set local \<and> k = norm t)"
      by (simp only: e conj_assoc)
    also have "\<dots> \<longleftrightarrow> (\<exists>k' t m. (k', t, m) \<in> set ?es \<and> k' \<notin> norm ` set local \<and> k = k')"
      using T by metis
    also have "\<dots> \<longleftrightarrow> k \<in> fst ` set ?es \<and> k \<notin> norm ` set local" by force
    finally show "k \<in> norm ` set ?ro \<longleftrightarrow> k \<in> norm ` set remote - norm ` set local"
      using E by simp
  qed
  show ?thesis
    unfolding run using cnt lc lo ro pct0 by auto
qed

text \<open>The catalogue comparison is exact: the local albums split into the matched ones and
  \<open>LocalOnly\<close>, in order; \<open>RemoteOnly\<close> covers exactly the remote titles no local album has; and
  the percentage is a percentage.\<close>

theorem CompareAlbums_exact:
  "acMatchCount (CompareAlbums norm local remote) =
     int (length (filter (\<lambda>l. norm l \<in> norm ` set remote) local)) \<and>
   acLocalOnly (CompareAlbums norm local remote) = filter (\<lambda>l. norm l \<notin> norm ` set remote) local \<and>
   norm ` set (acRemoteOnly (CompareAlbums norm local remote)) = norm ` set remote - norm ` set local \<and>
   0 \<le> acMatchPercent (CompareAlbums norm local remote) \<and>
   acMatchPercent (CompareAlbums norm local remote) \<le> 100"
proof -
  have "(int (length (matched norm local remote)) * 100) div int (length local) \<le> 100"
  proof (cases "local = []")
    case False
    have "(int (length (matched norm local remote)) * 100) div int (length local)
        \<le> (int (length local) * 100) div int (length local)"
      by (rule zdiv_mono1) (simp_all add: matched_def False)
    then show ?thesis using False by simp
  qed simp
  moreover have "0 \<le> (int (length (matched norm local remote)) * 100) div int (length local)"
    by (cases "local = []") (simp_all add: pos_imp_zdiv_nonneg_iff)
  ultimately show ?thesis
    using CompareAlbums_spec [of norm local remote] by (simp add: matched_def)
qed

section \<open>Chains of sources\<close>

lemma chain_loop_spec:
  "chain_loop ss n errs =
     (case find (\<lambda>(name, s, e). asEvidence s = EvidenceFound) ss of
        Some (name, s, e) \<Rightarrow> Inl (if asOrigin s = [] then s\<lparr>asOrigin := name\<rparr> else s,
           errs @ concat (map (\<lambda>(name, s, e). e) (takeWhile (\<lambda>(name, s, e). asEvidence s \<noteq> EvidenceFound) ss)) @ e)
      | None \<Rightarrow> Inr (n + length (filter (\<lambda>(name, s, e). asEvidence s = EvidenceNone) ss),
           errs @ concat (map (\<lambda>(name, s, e). e) ss)))"
proof (induction ss arbitrary: n errs)
  case (Cons x ss)
  obtain name s e where x: "x = (name, s, e)" by (cases x)
  show ?case using Cons by (cases "asEvidence s") (auto simp: x Let_def split: option.splits)
qed simp

lemma chain_evidence:
  "asEvidence (fst (chain_albums ss)) =
     (if list_ex (\<lambda>(name, s, e). asEvidence s = EvidenceFound) ss then EvidenceFound
      else if ss \<noteq> [] \<and> list_all (\<lambda>(name, s, e). asEvidence s = EvidenceNone) ss then EvidenceNone
      else EvidenceUnknown)"
proof (cases "find (\<lambda>(name, s, e). asEvidence s = EvidenceFound) ss")
  case None
  then have none: "\<not> list_ex (\<lambda>(name, s, e). asEvidence s = EvidenceFound) ss"
    by (auto simp: find_None_iff list_ex_iff)
  have "length (filter (\<lambda>(name, s, e). asEvidence s = EvidenceNone) ss) = length ss \<longleftrightarrow>
      list_all (\<lambda>(name, s, e). asEvidence s = EvidenceNone) ss"
    by (metis (no_types, lifting) filter_True length_filter_less less_irrefl list_all_iff)
  with None none show ?thesis by (simp add: chain_albums_def chain_loop_spec)
next
  case (Some x)
  obtain name s e where x: "x = (name, s, e)" by (cases x)
  have "x \<in> set ss \<and> asEvidence s = EvidenceFound"
    using Some x by (auto simp: find_Some_iff in_set_conv_nth)
  moreover from this have "list_ex (\<lambda>(name, s, e). asEvidence s = EvidenceFound) ss"
    using x by (auto simp: list_ex_iff)
  ultimately show ?thesis using Some x by (simp add: chain_albums_def chain_loop_spec)
qed

text \<open>\<open>None\<close> is unanimous or does not happen: a chain reports albums if and only if one of its
  sources does, reports their absence if and only if it has a source and every one reports it, and
  reports not knowing in every other case, the empty chain included.\<close>

theorem chain_none_is_unanimous:
  "(asEvidence (fst (chain_albums ss)) = EvidenceFound \<longleftrightarrow>
      list_ex (\<lambda>(name, s, e). asEvidence s = EvidenceFound) ss) \<and>
   (asEvidence (fst (chain_albums ss)) = EvidenceNone \<longleftrightarrow>
      ss \<noteq> [] \<and> list_all (\<lambda>(name, s, e). asEvidence s = EvidenceNone) ss) \<and>
   (asEvidence (fst (chain_albums ss)) \<in> {EvidenceFound, EvidenceNone, EvidenceUnknown})"
proof -
  have "\<not> (list_ex (\<lambda>(name, s, e). asEvidence s = EvidenceFound) ss \<and>
      list_all (\<lambda>(name, s, e). asEvidence s = EvidenceNone) ss)"
    by (force simp: list_ex_iff list_all_iff)
  then show ?thesis by (auto simp: chain_evidence)
qed

section \<open>The gate\<close>

lemma gate_permit_iff:
  "fst (EvaluateAlbumGate inp) = AlbumGatePermit \<longleftrightarrow>
     giEvidence inp = EvidenceFound \<and> giCandidateReleasesKnown inp \<and> giCandidateReleaseCount inp \<noteq> 0 \<and>
     70 \<le> giOverlapPercent inp \<and> giUncontestedBest inp \<and> giRedFlag inp = []"
  by (cases "giEvidence inp")
    (auto simp: EvaluateAlbumGate_def AlbumOverlapAutoLinkFloor_def)

lemma le_div_iff_int: "0 < (b :: int) \<Longrightarrow> c \<le> a div b \<longleftrightarrow> c * b \<le> a"
proof
  assume b: "0 < b" and "c \<le> a div b"
  then have "c * b \<le> (a div b) * b" by (intro mult_right_mono) simp_all
  also have "\<dots> \<le> a" using b by (metis minus_mod_eq_div_mult pos_mod_sign diff_le_eq le_add_same_cancel1)
  finally show "c * b \<le> a" .
next
  assume b: "0 < b" and "c * b \<le> a"
  then have "(c * b) div b \<le> a div b" by (intro zdiv_mono1)
  with b show "c \<le> a div b" by simp
qed

lemma percent_70:
  "70 \<le> acMatchPercent (CompareAlbums norm local remote) \<longleftrightarrow>
     local \<noteq> [] \<and> 7 * length local \<le> 10 * length (matched norm local remote)"
proof (cases "local = []")
  case True
  then show ?thesis using CompareAlbums_spec [of norm local remote] by simp
next
  case False
  have "70 \<le> (int (length (matched norm local remote)) * 100) div int (length local) \<longleftrightarrow>
      70 * int (length local) \<le> int (length (matched norm local remote)) * 100"
    using False by (simp add: le_div_iff_int)
  also have "\<dots> \<longleftrightarrow> 7 * length local \<le> 10 * length (matched norm local remote)" by linarith
  finally show ?thesis using False CompareAlbums_spec [of norm local remote] by simp
qed

text \<open>The contract of a source: what it reports holds of the place it looked at, \<open>None\<close> when that
  could not be read.\<close>

locale album_source =
  fixes look :: "'w \<Rightarrow> album_set \<times> string list" and holds :: "'w \<Rightarrow> string list option"
  assumes none_sound: "asEvidence (fst (look w)) = EvidenceNone \<Longrightarrow> holds w = Some []"
    and found_sound: "asEvidence (fst (look w)) = EvidenceFound \<Longrightarrow>
      asTitles (fst (look w)) \<noteq> [] \<and> holds w = Some (asTitles (fst (look w)))"
begin

text \<open>A permit rests on a catalogue that was read.\<close>

lemma permit_read:
  assumes "fst (EvaluateAlbumGate inp) = AlbumGatePermit"
    and "giEvidence inp = asEvidence (fst (look w))"
    and "giOverlapPercent inp = acMatchPercent (fst (CompareAlbumSet norm (fst (look w)) remote))"
  shows "\<exists>albums. holds w = Some albums \<and> albums \<noteq> [] \<and>
    7 * length albums \<le> 10 * length (matched norm albums remote)"
proof -
  have E: "asEvidence (fst (look w)) = EvidenceFound"
    and P: "70 \<le> acMatchPercent (CompareAlbums norm (asTitles (fst (look w))) remote)"
    using assms by (auto simp: gate_permit_iff CompareAlbumSet_def)
  from found_sound [OF E] P show ?thesis by (auto simp: percent_70)
qed

end

definition readable_albums :: "read_dir \<times> string option \<times> string option \<Rightarrow> string list option" where
  "readable_albums w =
     (case w of (readDir, ctxErr, path) \<Rightarrow>
        (case path of None \<Rightarrow> None
         | Some p \<Rightarrow> if p = [] then None
             else (case list_local_albums readDir p of Inl e \<Rightarrow> None | Inr albums \<Rightarrow> Some albums)))"

interpretation fs: album_source "\<lambda>(readDir, ctxErr, path). filesystem_albums readDir ctxErr path" readable_albums
  by unfold_locales
    (auto simp: filesystem_albums_def readable_albums_def Let_def
      split: option.splits sum.splits if_splits)

section \<open>The release-group cache and the rival budget\<close>

lemma cache_titles_spec:
  assumes "cache_titles fetch (Some c) m = (c', ts, known)" "m \<noteq> []"
  shows "\<exists>cc. c' = Some cc \<and> rgEntries cc m \<noteq> None \<and> dom (rgEntries cc) = insert m (dom (rgEntries c)) \<and>
    rgCalls cc = (if rgEntries c m = None then [m] else []) @ rgCalls c"
  using assms by (auto simp: cache_titles_def split: option.splits sum.splits prod.splits)

definition fresh_calls :: "release_group_cache \<Rightarrow> release_group_cache \<Rightarrow> string list \<Rightarrow> bool" where
  "fresh_calls c c' new \<longleftrightarrow> rgCalls c' = new @ rgCalls c \<and> distinct new \<and>
     set new \<inter> dom (rgEntries c) = {} \<and> dom (rgEntries c') = dom (rgEntries c) \<union> set new"

lemma fresh_calls_trans:
  "fresh_calls c d new \<Longrightarrow> fresh_calls d e new' \<Longrightarrow> fresh_calls c e (new' @ new)"
  by (auto simp: fresh_calls_def)

lemma cache_titles_fresh:
  assumes "cache_titles fetch (Some c) m = (c', ts, known)"
  shows "\<exists>cc new. c' = Some cc \<and> fresh_calls c cc new \<and>
    length new \<le> (if cache_holds (Some c) m then 0 else 1)"
proof (cases "m = []")
  case True
  with assms show ?thesis by (intro exI [of _ c] exI [of _ "[]"]) (auto simp: cache_titles_def fresh_calls_def)
next
  case False
  from cache_titles_spec [OF assms this] obtain cc where cc: "c' = Some cc"
    "dom (rgEntries cc) = insert m (dom (rgEntries c))"
    "rgCalls cc = (if rgEntries c m = None then [m] else []) @ rgCalls c" by blast
  show ?thesis
  proof (cases "rgEntries c m")
    case None
    with cc show ?thesis
      by (intro exI [of _ cc] exI [of _ "[m]"]) (auto simp: fresh_calls_def cache_holds_def)
  next
    case (Some v)
    with cc show ?thesis
      by (intro exI [of _ cc] exI [of _ "[]"]) (auto simp: fresh_calls_def cache_holds_def)
  qed
qed

lemma rival_loop_fresh:
  assumes "rival_loop norm fetch local best rs n (Some c) = (c', b)" "n \<le> 2"
  shows "\<exists>cc new. c' = Some cc \<and> fresh_calls c cc new \<and> n + length new \<le> 2"
  using assms
proof (induction rs arbitrary: n c)
  case Nil
  then show ?case by (intro exI [of _ c] exI [of _ "[]"]) (simp add: fresh_calls_def)
next
  case (Cons r rs)
  have stop: "\<exists>cc new. Some c = Some cc \<and> fresh_calls c cc new \<and> n + length new \<le> 2"
    using Cons.prems(2) by (intro exI [of _ c] exI [of _ "[]"]) (simp add: fresh_calls_def)
  let ?m = "srMusicBrainzID r" and ?held = "cache_holds (Some c) (srMusicBrainzID r)"
  obtain c1 ts known where t: "cache_titles fetch (Some c) ?m = (c1, ts, known)"
    by (cases "cache_titles fetch (Some c) ?m")
  from cache_titles_fresh [OF this] obtain cc new where n: "c1 = Some cc" "fresh_calls c cc new"
    "length new \<le> (if ?held then 0 else 1)" by blast
  consider (skip) "?m = [] \<or> equal_fold ?m best \<or> \<not> IsValidMBID (normalizeMBID ?m)"
    | (spent) "\<not> (?m = [] \<or> equal_fold ?m best)" "IsValidMBID (normalizeMBID ?m)" "\<not> ?held" "n \<ge> 2"
    | (ask) "\<not> (?m = [] \<or> equal_fold ?m best)" "IsValidMBID (normalizeMBID ?m)" "?held \<or> n < 2"
    by linarith
  then show ?case
  proof cases
    case skip
    then have "rival_loop norm fetch local best (r # rs) n (Some c) = rival_loop norm fetch local best rs n (Some c)"
      by (cases "?m = [] \<or> equal_fold ?m best") simp_all
    then show ?thesis using Cons.IH [of n c] Cons.prems by simp
  next
    case spent
    then show ?thesis using Cons.prems stop by (auto simp: tier3RivalCatalogueBudget_def)
  next
    case ask
    let ?n = "if ?held then n else n + 1"
    have bound: "n + length new \<le> ?n" "?n \<le> 2" using n(3) ask(3) Cons.prems(2) by (auto split: if_splits)
    have run: "rival_loop norm fetch local best (r # rs) n (Some c) =
        (if \<not> known then (c1, True)
         else if length ts = 0 then rival_loop norm fetch local best rs ?n c1
         else if acMatchPercent (fst (CompareAlbumSet norm local ts)) \<ge> AlbumOverlapAutoLinkFloor
         then (c1, True) else rival_loop norm fetch local best rs ?n c1)"
      using ask t by (auto simp: tier3RivalCatalogueBudget_def Let_def)
    show ?thesis
    proof (cases "c' = c1")
      case True
      with n bound show ?thesis by (intro exI [of _ cc] exI [of _ new]) simp
    next
      case False
      with run Cons.prems(1) n(1) have "rival_loop norm fetch local best rs ?n (Some cc) = (c', b)"
        by (auto split: if_splits)
      from Cons.IH [OF this bound(2)] obtain cd new' where
        "c' = Some cd" "fresh_calls cc cd new'" "?n + length new' \<le> 2" by blast
      with fresh_calls_trans [OF n(2)] bound(1) show ?thesis
        by (intro exI [of _ cd] exI [of _ "new' @ new"]) auto
    qed
  qed
qed

lemma tier3_run:
  assumes "asEvidence local = EvidenceFound"
    and "cache_titles fetch c (srMusicBrainzID best) = (c1, remote, known)"
    and "rival_loop norm fetch local (srMusicBrainzID best) results 0 c1 = (c2, contested)"
  shows "tier3AlbumGateDeclines norm fetch local results best c =
    (c2, fst (EvaluateAlbumGate \<lparr>giEvidence = EvidenceFound,
       giOverlapPercent = (if known then acMatchPercent (fst (CompareAlbumSet norm local remote)) else 0),
       giCandidateReleaseCount = int (length remote), giCandidateReleasesKnown = known,
       giUncontestedBest = \<not> contested, giRedFlag = CandidateRedFlag (Some best)\<rparr>) \<noteq> AlbumGatePermit)"
  using assms by (simp add: tier3AlbumGateDeclines_def tier3RivalClearsOverlapFloor_def Let_def)

lemma tier3_not_found:
  assumes "asEvidence local \<noteq> EvidenceFound"
  shows "tier3AlbumGateDeclines norm fetch local results best c = (c, True)"
  using assms by (simp add: tier3AlbumGateDeclines_def gate_permit_iff)

text \<open>The gate's provider cost is bounded: deciding one candidate makes at most three
  release-group calls (the candidate and two rivals), never two for the same MBID and none for an
  MBID the cache holds, failed lookups included.\<close>

theorem tier3_fetch_budget:
  "\<exists>c' new. fst (tier3AlbumGateDeclines norm fetch local results best (Some c)) = Some c' \<and>
     rgCalls c' = new @ rgCalls c \<and> length new \<le> 3 \<and> distinct new \<and>
     set new \<inter> dom (rgEntries c) = {}"
proof (cases "asEvidence local = EvidenceFound")
  case True
  obtain c1 remote known where t: "cache_titles fetch (Some c) (srMusicBrainzID best) = (c1, remote, known)"
    by (cases "cache_titles fetch (Some c) (srMusicBrainzID best)")
  from cache_titles_fresh [OF this] obtain cc n1 where n1: "c1 = Some cc" "fresh_calls c cc n1" "length n1 \<le> 1"
    by (auto split: if_splits)
  obtain c2 contested where l: "rival_loop norm fetch local (srMusicBrainzID best) results 0 c1 = (c2, contested)"
    by (cases "rival_loop norm fetch local (srMusicBrainzID best) results 0 c1")
  from rival_loop_fresh [OF l [unfolded n1(1)]] obtain cd n2 where
    n2: "c2 = Some cd" "fresh_calls cc cd n2" "length n2 \<le> 2" by auto
  have "fresh_calls c cd (n2 @ n1)" using n1(2) n2(2) by (rule fresh_calls_trans)
  with n1(3) n2(1,3) tier3_run [OF True t l] show ?thesis
    by (intro exI [of _ cd] exI [of _ "n2 @ n1"]) (simp add: fresh_calls_def)
next
  case False
  then show ?thesis by (intro exI [of _ c] exI [of _ "[]"]) (simp add: tier3_not_found)
qed

text \<open>C23. An unattended name-search write is corroborated: when Tier 3 does not decline, the artist's
  directory was actually read and is not empty, the candidate's release groups were actually
  fetched, at least 70 percent of the local albums appear among them, and the candidate carries no red
  flag.\<close>

theorem tier3_write_is_corroborated:
  assumes "tier3AlbumGateDeclines norm fetch (fst (filesystem_albums readDir ctxErr path)) results best c = (c', False)"
  shows "\<exists>p albums remote. path = Some p \<and> list_local_albums readDir p = Inr albums \<and> albums \<noteq> [] \<and>
    snd (cache_titles fetch c (srMusicBrainzID best)) = (remote, True) \<and> remote \<noteq> [] \<and>
    7 * length albums \<le> 10 * length (filter (\<lambda>l. norm l \<in> norm ` set remote) albums) \<and>
    CandidateRedFlag (Some best) = []"
proof -
  let ?local = "fst (filesystem_albums readDir ctxErr path)"
  have F: "asEvidence ?local = EvidenceFound"
    using assms tier3_not_found by (metis prod.inject)
  obtain c1 remote known where t: "cache_titles fetch c (srMusicBrainzID best) = (c1, remote, known)"
    by (cases "cache_titles fetch c (srMusicBrainzID best)")
  obtain c2 contested where l: "rival_loop norm fetch ?local (srMusicBrainzID best) results 0 c1 = (c2, contested)"
    by (cases "rival_loop norm fetch ?local (srMusicBrainzID best) results 0 c1")
  let ?in = "\<lparr>giEvidence = EvidenceFound,
       giOverlapPercent = (if known then acMatchPercent (fst (CompareAlbumSet norm ?local remote)) else 0),
       giCandidateReleaseCount = int (length remote), giCandidateReleasesKnown = known,
       giUncontestedBest = \<not> contested, giRedFlag = CandidateRedFlag (Some best)\<rparr>"
  have P: "fst (EvaluateAlbumGate ?in) = AlbumGatePermit"
    using assms tier3_run [OF F t l] by simp
  then have k: "known" "remote \<noteq> []" "CandidateRedFlag (Some best) = []"
    by (simp_all add: gate_permit_iff)
  have "giEvidence ?in = asEvidence (fst ((\<lambda>(readDir, ctxErr, path). filesystem_albums readDir ctxErr path) (readDir, ctxErr, path)))"
    using F by simp
  moreover have "giOverlapPercent ?in = acMatchPercent (fst (CompareAlbumSet norm
      (fst ((\<lambda>(readDir, ctxErr, path). filesystem_albums readDir ctxErr path) (readDir, ctxErr, path))) remote))"
    using k(1) by simp
  ultimately obtain albums where "readable_albums (readDir, ctxErr, path) = Some albums" "albums \<noteq> []"
    "7 * length albums \<le> 10 * length (matched norm albums remote)"
    using fs.permit_read [OF P] by blast
  then show ?thesis using t k
    by (auto simp: readable_albums_def matched_def split: option.splits sum.splits if_splits)
qed

text \<open>The rule engine's gate refuses by contradiction only: exactly when both catalogues were
  read for an unlocked artist and they disagree, the candidate's is empty, or the candidate is
  flagged; a missing source, an unreadable directory or a failed fetch never refuses.\<close>

theorem rule_gate_refuses_only_contradiction:
  "\<not> fst (rule_gate_permits norm albums fetcher locked best) \<longleftrightarrow>
     (\<exists>local err fetch b titles. albums = Some (local, err) \<and> fetcher = Some fetch \<and> locked = Some False \<and>
        best = Some b \<and> asEvidence local = EvidenceFound \<and> srMusicBrainzID b \<noteq> [] \<and>
        fetch (srMusicBrainzID b) = Inr titles \<and>
        (titles = [] \<or> acMatchPercent (CompareAlbums norm (asTitles local) titles) < 70 \<or>
         0 < length (CandidateRedFlag (Some b))))"
proof -
  have g: "fst (case EvaluateAlbumGate i of (AlbumGatePermit, reason) \<Rightarrow> (True, None)
      | (_, reason) \<Rightarrow> (False, Some reason)) \<longleftrightarrow> fst (EvaluateAlbumGate i) = AlbumGatePermit" for i
    by (cases "EvaluateAlbumGate i"; cases "fst (EvaluateAlbumGate i)") auto
  show ?thesis
  proof (cases "albums = None \<or> fetcher = None \<or> locked = None \<or> best = None")
    case True
    then show ?thesis by (auto simp: rule_gate_permits_def split: option.splits)
  next
    case False
    then obtain local err fetch lk b where *: "albums = Some (local, err)" "fetcher = Some fetch"
      "locked = Some lk" "best = Some b" by fastforce
    show ?thesis
    proof (cases "lk \<or> asEvidence local \<noteq> EvidenceFound \<or> srMusicBrainzID b = []")
      case True
      then show ?thesis by (auto simp: * rule_gate_permits_def)
    next
      case F: False
      show ?thesis
        using F by (cases "fetch (srMusicBrainzID b)")
          (auto simp: * rule_gate_permits_def g gate_permit_iff CompareAlbumSet_def)
    qed
  qed
qed

section \<open>Adopting a search hit\<close>

lemma pick_best_Some:
  "pick_best skip rs best = Some b \<Longrightarrow>
     (best = Some b \<or> b \<in> set rs \<and> \<not> skip b) \<and>
     (\<forall>x. best = Some x \<longrightarrow> srScore x \<le> srScore b) \<and>
     (\<forall>r\<in>set rs. \<not> skip r \<longrightarrow> srScore r \<le> srScore b)"
  by (induction skip rs best rule: pick_best.induct) (fastforce split: if_splits option.splits)+

lemma pick_best_None: "pick_best skip rs best = None \<longleftrightarrow> best = None \<and> (\<forall>r\<in>set rs. skip r)"
  by (induction skip rs best rule: pick_best.induct) (auto split: option.splits)

text \<open>C24. A MusicBrainz ID is adopted from a search only when it stands out: the hit is a valid ID of
  the highest score among the valid hits, scores at least 85, resembles the stored name by at least
  85 percent, and every MusicBrainz hit for a different ID scores at least ten points less.\<close>

theorem adopted_candidate_stands_out:
  assumes "BestMBIDCandidates results = (best, runnerUp)"
    and "EvaluateMBIDCandidate artistName best runnerUp = None"
  shows "\<exists>b. best = Some b \<and> b \<in> set results \<and> IsValidMBID (srMusicBrainzID b) \<and> 85 \<le> srScore b \<and>
    85 \<le> NameSimilarity artistName (srName b) \<and>
    list_all (\<lambda>r. IsValidMBID (srMusicBrainzID r) \<longrightarrow> srScore r \<le> srScore b \<and>
      (isMusicBrainzSourcedResult r \<longrightarrow> \<not> equal_fold (srMusicBrainzID r) (srMusicBrainzID b) \<longrightarrow>
       srScore r + 10 \<le> srScore b)) results"
proof -
  obtain b where b: "best = Some b" using assms(2) by (cases best) (simp_all add: EvaluateMBIDCandidate_def)
  let ?skip = "\<lambda>r. \<not> IsValidMBID (srMusicBrainzID r) \<or> \<not> isMusicBrainzSourcedResult r
               \<or> equal_fold (srMusicBrainzID r) (srMusicBrainzID b)"
  have p: "pick_best (\<lambda>r. \<not> IsValidMBID (srMusicBrainzID r)) results None = Some b"
    and q: "pick_best ?skip results None = runnerUp"
    using assms(1) b by (auto simp: BestMBIDCandidates_def split: option.splits)
  note B = pick_best_Some [OF p]
  have s: "85 \<le> srScore b" "85 \<le> NameSimilarity artistName (srName b)"
    and m: "\<And>r. runnerUp = Some r \<Longrightarrow> srScore r + 10 \<le> srScore b"
    using assms(2) b by (auto simp: EvaluateMBIDCandidate_def MBIDMinProviderScore_def
        MBIDMinNameSimilarity_def MBIDAmbiguityMargin_def Let_def split: if_splits)
  have "srScore r + 10 \<le> srScore b" if r: "r \<in> set results" "\<not> ?skip r" for r
  proof (cases runnerUp)
    case None
    with q r show ?thesis by (auto simp: pick_best_None)
  next
    case (Some x)
    with pick_best_Some [of ?skip results None x] q r have "srScore r \<le> srScore x" by blast
    with m [OF Some] show ?thesis by simp
  qed
  with B b s show ?thesis by (auto simp: list_all_iff)
qed

section \<open>Witnesses\<close>

definition sample_hit :: search_result where
  "sample_hit = \<lparr>srProviderID = ''1'', srName = ''Can'', srSortName = ''Can'', srType = ''group'',
     srDisambiguation = [], srOrigin = [], srScore = 97,
     srMusicBrainzID = ''6df5cbb3-8b40-4d2a-a4ee-b0c3ff4b6bf2'', srSource = ''MusicBrainz''\<rparr>"

definition sample_fetch :: group_fetcher where
  "sample_fetch calls m = Inr [''Tago Mago'', ''Ege Bamyasi'']"

definition sample_dir :: read_dir where
  "sample_dir p = (if p = ''/m/Can'' then Inr [(''Tago Mago'', True), (''x.nfo'', False)] else Inl ''missing'')"

definition empty_cache :: release_group_cache where
  "empty_cache = \<lparr>rgEntries = Map.empty, rgCalls = []\<rparr>"

theorem tier3_write_is_corroborated_witness:
  "list_local_albums sample_dir ''/m/Can'' = Inr [''Tago Mago''] \<and> CandidateRedFlag (Some sample_hit) = []"
proof -
  let ?run = "tier3AlbumGateDeclines to_lower sample_fetch (fst (filesystem_albums sample_dir None (Some ''/m/Can'')))
      [sample_hit] sample_hit (Some empty_cache)"
  have "snd ?run = False" by code_simp
  then have "?run = (fst ?run, False)" by (metis prod.collapse)
  from tier3_write_is_corroborated [OF this] obtain albums where
    a: "list_local_albums sample_dir ''/m/Can'' = Inr albums" "CandidateRedFlag (Some sample_hit) = []"
    by auto
  have "list_local_albums sample_dir ''/m/Can'' = Inr [''Tago Mago'']" by code_simp
  with a(2) show ?thesis by blast
qed

theorem adopted_candidate_stands_out_witness:
  "IsValidMBID (srMusicBrainzID sample_hit) \<and> 85 \<le> srScore sample_hit \<and>
   85 \<le> NameSimilarity ''can'' (srName sample_hit)"
proof -
  have "BestMBIDCandidates [sample_hit] = (Some sample_hit, None)" by code_simp
  moreover have "EvaluateMBIDCandidate ''can'' (Some sample_hit) None = None" by code_simp
  ultimately have "\<exists>b. Some sample_hit = Some b \<and> b \<in> set [sample_hit] \<and> IsValidMBID (srMusicBrainzID b) \<and>
    85 \<le> srScore b \<and> 85 \<le> NameSimilarity ''can'' (srName b) \<and>
    list_all (\<lambda>r. IsValidMBID (srMusicBrainzID r) \<longrightarrow> srScore r \<le> srScore b \<and>
      (isMusicBrainzSourcedResult r \<longrightarrow> \<not> equal_fold (srMusicBrainzID r) (srMusicBrainzID b) \<longrightarrow>
       srScore r + 10 \<le> srScore b)) [sample_hit]"
    by (rule adopted_candidate_stands_out)
  then show ?thesis by auto
qed

end
