(* ===== verification/PeerPaths.thy ===== *)
theory PeerPaths
  imports Prelude "HOL-Library.Sublist"
begin

text \<open>
  Paths in a peer's namespace (\<open>internal/connection/roots.go\<close>, the path part of
  \<open>internal/connection/model.go\<close>): the translation of a host path by the longest matching prefix, the
  normal form built on Go's \<open>path.Clean\<close>, the root guard and the comparison of two peer paths. The
  guard is proved equivalent to a reference that walks directories; the records keep the fields of
  \<open>Connection\<close> the modelled code reads.
\<close>

section \<open>Connections and their path mappings\<close>

record path_mapping =
  pmHostPrefix :: string
  pmPlatformPrefix :: string

record connection =
  connID :: string
  connName :: string
  connType :: string
  connEnabled :: bool
  connPathMappings :: "path_mapping list"

definition TypeEmby :: string where "TypeEmby = ''emby''"
definition TypeJellyfin :: string where "TypeJellyfin = ''jellyfin''"
definition TypeLidarr :: string where "TypeLidarr = ''lidarr''"

definition slash :: char where "slash = CHR ''/''"
definition backslash :: char where "backslash = CHR 0x5C"

definition toPosixPath :: "string \<Rightarrow> string" where
  "toPosixPath p = map (\<lambda>c. if c = backslash then slash else c) p"

definition pathRemainder :: "string \<Rightarrow> string \<Rightarrow> string option" where
  "pathRemainder p pre =
     (if p = pre then Some []
      else if has_prefix p (pre @ [slash]) then Some (drop (length pre) p)
      else None)"

definition trim_slashes :: "string \<Rightarrow> string" where
  "trim_slashes s = trim_right (\<lambda>c. c = slash) s"

text \<open>The loop of \<open>MapArtistPath\<close>: the state is \<open>(bestLen, mapped)\<close>.\<close>

definition mapping_step :: "string \<Rightarrow> path_mapping \<Rightarrow> int \<times> string \<Rightarrow> int \<times> string" where
  "mapping_step posixHost m st =
     (case st of (bestLen, mapped) \<Rightarrow>
        let host = trim_slashes (toPosixPath (pmHostPrefix m)) in
        if host = [] then st
        else case pathRemainder posixHost host of
          None \<Rightarrow> st
        | Some remainder \<Rightarrow>
            if int (length host) > bestLen
            then (int (length host), trim_slashes (toPosixPath (pmPlatformPrefix m)) @ remainder)
            else st)"

definition MapArtistPath :: "connection option \<Rightarrow> string \<Rightarrow> string" where
  "MapArtistPath c hostPath =
     (case c of
        None \<Rightarrow> hostPath
      | Some conn \<Rightarrow>
          if hostPath = [] then hostPath
          else let posixHost = toPosixPath hostPath in
            snd (fold (mapping_step posixHost) (connPathMappings conn) (-1, posixHost)))"

section \<open>The comparison form of a path\<close>

text \<open>\<open>path.Clean\<close> of Go's standard library. The elements written so far are kept as a stack, the
  last one first; \<open>..\<close> removes the last one unless it is itself a leading \<open>..\<close> of a relative
  path.\<close>

definition clean_step :: "bool \<Rightarrow> string \<Rightarrow> string list \<Rightarrow> string list" where
  "clean_step rooted c out =
     (if c = [] \<or> c = ''.'' then out
      else if c = ''..'' then
        (case out of
           [] \<Rightarrow> if rooted then [] else [''..'']
         | t # ts \<Rightarrow> if t = ''..'' then (if rooted then out else ''..'' # out) else ts)
      else c # out)"

definition clean_elements :: "bool \<Rightarrow> string \<Rightarrow> string list" where
  "clean_elements rooted p = rev (fold (clean_step rooted) (split_on slash p) [])"

definition is_rooted :: "string \<Rightarrow> bool" where
  "is_rooted p \<longleftrightarrow> (case p of [] \<Rightarrow> False | c # _ \<Rightarrow> c = slash)"

definition path_clean :: "string \<Rightarrow> string" where
  "path_clean p =
     (let rooted = is_rooted p; out = clean_elements rooted p in
      if rooted then slash # join_with [slash] out
      else if out = [] then ''.'' else join_with [slash] out)"

definition normalizeRootPath :: "string \<Rightarrow> string" where
  "normalizeRootPath p =
     (let trimmed = trim_space (toPosixPath p) in
      if trimmed = [] then [] else trim_slashes (path_clean trimmed))"

definition PathWithinRoots :: "string \<Rightarrow> string list \<Rightarrow> bool" where
  "PathWithinRoots candidate roots \<longleftrightarrow>
     candidate \<noteq> [] \<and> roots \<noteq> [] \<and>
     (let p = normalizeRootPath candidate in
      p \<noteq> [] \<and>
      list_ex (\<lambda>r. let root = normalizeRootPath r in root \<noteq> [] \<and> pathRemainder p root \<noteq> None) roots)"

definition SamePeerPath :: "string \<Rightarrow> string \<Rightarrow> bool" where
  "SamePeerPath a b \<longleftrightarrow>
     (let na = normalizeRootPath a; nb = normalizeRootPath b in na \<noteq> [] \<and> nb \<noteq> [] \<and> na = nb)"

text \<open>What the refusal names: the host path, the path that was refused (equal when no mapping
  matched) and the roots the peer reported, normalised and sorted.\<close>

record root_refusal =
  rrConnName :: string
  rrConnType :: string
  rrHostPath :: string
  rrPlatformPath :: string
  rrRoots :: "string list"

definition RemedyForOutsideRoots ::
  "string \<Rightarrow> string \<Rightarrow> string \<Rightarrow> string \<Rightarrow> string list \<Rightarrow> root_refusal" where
  "RemedyForOutsideRoots name type hostPath platformPath roots =
     \<lparr>rrConnName = name, rrConnType = type, rrHostPath = hostPath, rrPlatformPath = platformPath,
      rrRoots = sort (filter (\<lambda>n. n \<noteq> []) (map normalizeRootPath roots))\<rparr>"

record peer_artist =
  paID :: string
  paName :: string
  paPath :: string

section \<open>The guard as containment\<close>

text \<open>The reference: where a path leads when its elements are walked one by one from the root
  directory, as a list of directory names.\<close>

definition walk_step :: "string \<Rightarrow> string list \<Rightarrow> string list" where
  "walk_step c dir =
     (if c = [] \<or> c = ''.'' then dir else if c = ''..'' then butlast dir else dir @ [c])"

definition location :: "string \<Rightarrow> string list" where
  "location p = fold walk_step (split_on slash (trim_space (toPosixPath p))) []"

definition absolute_path :: "string \<Rightarrow> bool" where
  "absolute_path p \<longleftrightarrow> is_rooted (trim_space (toPosixPath p))"

definition plain_element :: "string \<Rightarrow> bool" where
  "plain_element c \<longleftrightarrow> c \<noteq> [] \<and> c \<noteq> ''.'' \<and> c \<noteq> ''..'' \<and> slash \<notin> set c"

lemma walk_plain:
  assumes "list_all (\<lambda>c. slash \<notin> set c) cs" "list_all plain_element dir"
  shows "list_all plain_element (fold walk_step cs dir)"
  using assms
proof (induction cs arbitrary: dir)
  case (Cons c cs)
  have "list_all plain_element (walk_step c dir)"
    using Cons.prems by (auto simp: walk_step_def plain_element_def list_all_iff dest: in_set_butlastD)
  with Cons show ?case by simp
qed simp

lemma location_plain: "list_all plain_element (location p)"
  unfolding location_def
  by (rule walk_plain) (auto simp: list_all_iff dest: split_on_no_sep)

lemma clean_walk:
  assumes "list_all plain_element (rev out)" "list_all (\<lambda>c. slash \<notin> set c) cs"
  shows "rev (fold (clean_step True) cs out) = fold walk_step cs (rev out)"
  using assms
proof (induction cs arbitrary: out)
  case (Cons c cs)
  have e: "rev (clean_step True c out) = walk_step c (rev out)"
    using Cons.prems(1) by (cases out) (auto simp: clean_step_def walk_step_def plain_element_def butlast_append)
  have "list_all plain_element (rev (clean_step True c out))"
    unfolding e using Cons.prems walk_plain [of "[c]" "rev out"] by simp
  from Cons.IH [OF this] Cons.prems(2) show ?case by (simp add: e)
qed simp

lemma clean_elements_location:
  "trim_space (toPosixPath p) = q \<Longrightarrow> clean_elements True q = location p"
  unfolding clean_elements_def location_def
  by (subst clean_walk) (auto simp: list_all_iff dest: split_on_no_sep)

definition render :: "string list \<Rightarrow> string" where
  "render xs = concat (map (\<lambda>x. slash # x) xs)"

lemma render_append: "render (xs @ ys) = render xs @ render ys"
  by (simp add: render_def)

lemma render_join: "xs \<noteq> [] \<Longrightarrow> slash # join_with [slash] xs = render xs"
proof (induction xs)
  case (Cons x xs)
  then show ?case by (cases xs) (simp_all add: render_def)
qed simp

lemma split_on_append: "split_on c (u @ c # v) = split_on c u @ split_on c v"
proof (induction u)
  case (Cons x u)
  then show ?case by (cases "split_on c u") (auto split: list.splits)
qed simp

lemma split_on_render: "list_all plain_element xs \<Longrightarrow> split_on slash (render xs) = [] # xs"
proof (induction xs rule: rev_induct)
  case (snoc x xs)
  then show ?case
    by (simp add: render_append split_on_append split_on_plain render_def [of "[x]"] plain_element_def)
qed (simp add: render_def)

lemma trim_slashes_render: "list_all plain_element xs \<Longrightarrow> trim_slashes (render xs) = render xs"
proof (cases xs rule: rev_cases)
  case (snoc ys y)
  assume "list_all plain_element xs"
  then have y: "y \<noteq> []" "slash \<notin> set y" using snoc by (auto simp: plain_element_def)
  then obtain u z where u: "y = u @ [z]" by (cases y rule: rev_cases) auto
  have "rev (render xs) = z # rev (render ys @ slash # u)"
    by (simp add: snoc u render_append render_def)
  moreover have "z \<noteq> slash" using y u by auto
  ultimately show ?thesis
    unfolding trim_slashes_def trim_right_def by (simp flip: rev_swap)
qed (simp add: render_def trim_slashes_def trim_right_def)

lemma normalize_absolute:
  assumes "absolute_path p"
  shows "normalizeRootPath p = render (location p)"
proof -
  define q where "q = trim_space (toPosixPath p)"
  have q: "is_rooted q" "q \<noteq> []"
    using assms by (auto simp: absolute_path_def is_rooted_def q_def)
  have c: "path_clean q = slash # join_with [slash] (location p)"
    using q clean_elements_location [of p q] by (simp add: path_clean_def Let_def q_def)
  show ?thesis
  proof (cases "location p = []")
    case True
    then show ?thesis
      using q c by (simp add: normalizeRootPath_def Let_def q_def [symmetric] render_def
          trim_slashes_def trim_right_def)
  next
    case False
    then show ?thesis
      using q c by (simp add: normalizeRootPath_def Let_def q_def [symmetric] render_join
          trim_slashes_render location_plain)
  qed
qed


lemma clean_step_elements:
  "list_all (\<lambda>c. c \<noteq> [] \<and> slash \<notin> set c) out \<Longrightarrow> slash \<notin> set c \<Longrightarrow>
     list_all (\<lambda>c. c \<noteq> [] \<and> slash \<notin> set c) (clean_step rooted c out)"
  by (cases out) (auto simp: clean_step_def slash_def)

lemma clean_elements_nonempty:
  "list_all (\<lambda>c. c \<noteq> [] \<and> slash \<notin> set c) (clean_elements rooted p)"
proof -
  have "list_all (\<lambda>c. slash \<notin> set c) cs \<Longrightarrow> list_all (\<lambda>c. c \<noteq> [] \<and> slash \<notin> set c) out \<Longrightarrow>
      list_all (\<lambda>c. c \<noteq> [] \<and> slash \<notin> set c) (fold (clean_step rooted) cs out)" for cs out
    by (induction cs arbitrary: out) (simp_all add: clean_step_elements)
  from this [of "split_on slash p" "[]"] show ?thesis
    by (auto simp: clean_elements_def list_all_iff dest: split_on_no_sep)
qed

lemma trim_slashes_hd: "c \<noteq> slash \<Longrightarrow> \<exists>t. trim_slashes (c # s) = c # t"
  unfolding trim_slashes_def trim_right_def
  by (simp add: dropWhile_append) (metis rev_rev_ident)

lemma normalize_relative:
  assumes "\<not> absolute_path p"
  shows "normalizeRootPath p = [] \<or> \<not> is_rooted (normalizeRootPath p)"
proof -
  define q where "q = trim_space (toPosixPath p)"
  have "\<exists>c s. path_clean q = c # s \<and> c \<noteq> slash"
  proof (cases "clean_elements False q")
    case Nil
    then show ?thesis using assms
      by (simp add: path_clean_def Let_def absolute_path_def q_def slash_def)
  next
    case (Cons w ws)
    moreover have "w \<noteq> []" "slash \<notin> set w"
      using clean_elements_nonempty [of False q] Cons by auto
    ultimately show ?thesis using assms
      by (cases w; cases ws) (auto simp: path_clean_def Let_def absolute_path_def q_def)
  qed
  then obtain c s t where "path_clean q = c # s" "c \<noteq> slash" "trim_slashes (c # s) = c # t"
    using trim_slashes_hd by blast
  then show ?thesis
    by (simp add: normalizeRootPath_def Let_def is_rooted_def flip: q_def)
qed

lemma pathRemainder_iff:
  "pathRemainder p root = Some r \<longleftrightarrow> p = root @ r \<and> (r = [] \<or> (\<exists>t. r = slash # t))"
  by (auto simp: pathRemainder_def has_prefix_iff split: if_splits)

lemma render_inject:
  assumes "list_all plain_element xs" "list_all plain_element ys"
  shows "render xs = render ys \<longleftrightarrow> xs = ys"
  by (metis split_on_render assms list.inject)

lemma render_remainder:
  assumes "list_all plain_element xs" "list_all plain_element ys"
  shows "pathRemainder (render xs) (render ys) \<noteq> None \<longleftrightarrow> prefix ys xs"
proof
  assume "pathRemainder (render xs) (render ys) \<noteq> None"
  then obtain r where r: "render xs = render ys @ r" "r = [] \<or> (\<exists>t. r = slash # t)"
    by (auto simp: pathRemainder_iff)
  show "prefix ys xs"
  proof (cases "r = []")
    case True
    then show ?thesis using r render_inject assms by simp
  next
    case False
    then obtain t where "render xs = render ys @ slash # t" using r by auto
    then have "[] # xs = ([] # ys) @ split_on slash t"
      using split_on_render [OF assms(1)] split_on_render [OF assms(2)] split_on_append by metis
    then show ?thesis by simp
  qed
next
  assume "prefix ys xs"
  then obtain zs where zs: "xs = ys @ zs" by (auto simp: prefix_def)
  have "pathRemainder (render xs) (render ys) = Some (render zs)"
    unfolding pathRemainder_iff by (cases zs) (auto simp: zs render_append render_def)
  then show "pathRemainder (render xs) (render ys) \<noteq> None" by simp
qed

lemma render_eq_Nil [simp]: "render xs = [] \<longleftrightarrow> xs = []"
  by (cases xs) (simp_all add: render_def)

lemma is_rooted_render: "xs \<noteq> [] \<Longrightarrow> is_rooted (render xs @ s)"
  by (cases xs) (simp_all add: render_def is_rooted_def)

lemma within_one_root:
  assumes "absolute_path p" "location p \<noteq> []"
  shows "normalizeRootPath r \<noteq> [] \<and> pathRemainder (normalizeRootPath p) (normalizeRootPath r) \<noteq> None \<longleftrightarrow>
    absolute_path r \<and> location r \<noteq> [] \<and> prefix (location r) (location p)"
proof (cases "absolute_path r")
  case True
  then show ?thesis
    using render_remainder [OF location_plain [of p] location_plain [of r]] assms
    by (simp add: normalize_absolute)
next
  case False
  have "normalizeRootPath r = []" if "pathRemainder (normalizeRootPath p) (normalizeRootPath r) \<noteq> None"
  proof (rule ccontr)
    assume n: "normalizeRootPath r \<noteq> []"
    from that obtain s where "render (location p) = normalizeRootPath r @ s"
      using assms by (auto simp: normalize_absolute pathRemainder_iff)
    then have "is_rooted (normalizeRootPath r @ s)" using is_rooted_render [of "location p" "[]"] assms by simp
    with n have "is_rooted (normalizeRootPath r)" by (cases "normalizeRootPath r") (simp_all add: is_rooted_def)
    with n False normalize_relative show False by blast
  qed
  with False show ?thesis by auto
qed

lemma location_Nil_path: "location [] = []"
  by (simp add: location_def walk_step_def toPosixPath_def trim_space_def trim_left_def trim_right_def)

text \<open>C40. The root guard is containment of directories: an absolute path passes exactly when one of
  the peer's roots is an absolute path to a directory other than the root directory, and walking the
  path element by element (\<open>.\<close> staying, \<open>..\<close> going up) ends in that directory or below it. So no
  \<open>..\<close>, doubled slash, backslash or shared name prefix lets a path escape.\<close>

theorem path_guard_is_containment:
  assumes "absolute_path p"
  shows "PathWithinRoots p roots \<longleftrightarrow>
    list_ex (\<lambda>r. absolute_path r \<and> location r \<noteq> [] \<and> prefix (location r) (location p)) roots"
proof (cases "location p = []")
  case True
  then show ?thesis
    using assms by (auto simp: PathWithinRoots_def Let_def normalize_absolute list_ex_iff)
next
  case False
  then have "p \<noteq> []" using location_Nil_path by auto
  with False assms show ?thesis
    using within_one_root [OF assms False]
    by (cases "roots = []") (simp_all add: PathWithinRoots_def Let_def normalize_absolute)
qed

theorem path_guard_is_containment_witness:
  "\<not> PathWithinRoots ''/music/../etc'' [''/music''] \<and> PathWithinRoots ''/music/A/../B'' [''/music/'']"
proof -
  have a: "absolute_path ''/music/../etc''" "absolute_path ''/music/A/../B''" by code_simp+
  have "\<not> list_ex (\<lambda>r. absolute_path r \<and> location r \<noteq> [] \<and> prefix (location r) (location ''/music/../etc'')) [''/music'']"
    by code_simp
  moreover have "list_ex (\<lambda>r. absolute_path r \<and> location r \<noteq> [] \<and> prefix (location r) (location ''/music/A/../B'')) [''/music/'']"
    by code_simp
  ultimately show ?thesis
    using path_guard_is_containment [OF a(1)] path_guard_is_containment [OF a(2)] by blast
qed

lemma SamePeerPath_sym: "SamePeerPath a b \<longleftrightarrow> SamePeerPath b a"
  by (auto simp: SamePeerPath_def Let_def)

lemma SamePeerPath_empty [simp]: "\<not> SamePeerPath [] b"
  by (simp add: SamePeerPath_def Let_def normalizeRootPath_def toPosixPath_def trim_space_def
      trim_left_def trim_right_def)


section \<open>The longest mapping wins\<close>

definition mapping_host :: "path_mapping \<Rightarrow> string" where
  "mapping_host m = trim_slashes (toPosixPath (pmHostPrefix m))"

definition covers :: "string \<Rightarrow> string \<Rightarrow> bool" where
  "covers host p \<longleftrightarrow> host \<noteq> [] \<and> (p = host \<or> has_prefix p (host @ [slash]))"

definition claim_length :: "string \<Rightarrow> path_mapping \<Rightarrow> int" where
  "claim_length p m = (if covers (mapping_host m) p then int (length (mapping_host m)) else -1)"

definition translated :: "string \<Rightarrow> path_mapping \<Rightarrow> string" where
  "translated p m = trim_slashes (toPosixPath (pmPlatformPrefix m)) @ drop (length (mapping_host m)) p"

lemma mapping_step_eq:
  "mapping_step p m (b, q) =
     (if covers (mapping_host m) p \<and> claim_length p m > b then (claim_length p m, translated p m) else (b, q))"
  by (auto simp: mapping_step_def mapping_host_def [symmetric] Let_def covers_def pathRemainder_def
      claim_length_def translated_def)

definition best_mapping :: "string \<Rightarrow> path_mapping list \<Rightarrow> int \<times> string \<Rightarrow> bool" where
  "best_mapping p ms st \<longleftrightarrow>
     st = (-1, p) \<and> list_all (\<lambda>m. claim_length p m = -1) ms \<or>
     (\<exists>before m after. ms = before @ m # after \<and> covers (mapping_host m) p \<and>
        st = (claim_length p m, translated p m) \<and>
        list_all (\<lambda>m'. claim_length p m' < claim_length p m) before \<and>
        list_all (\<lambda>m'. claim_length p m' \<le> claim_length p m) after)"

lemma best_mapping_step:
  assumes "best_mapping p ms st"
  shows "best_mapping p (ms @ [m]) (mapping_step p m st)"
proof -
  obtain b q where st: "st = (b, q)" by (cases st)
  have low: "-1 \<le> claim_length p k" for k by (simp add: claim_length_def)
  have c: "claim_length p m = -1" if "\<not> covers (mapping_host m) p" using that by (simp add: claim_length_def)
  have pos: "claim_length p k > -1" if "covers (mapping_host k) p" for k
    using that by (simp add: claim_length_def)
  show ?thesis
  proof (cases "covers (mapping_host m) p \<and> claim_length p m > b")
    case True
    have "list_all (\<lambda>k. claim_length p k < claim_length p m) ms"
    proof -
      from assms [unfolded best_mapping_def st] consider
          "b = -1" "list_all (\<lambda>k. claim_length p k = -1) ms"
        | before k after where "ms = before @ k # after" "b = claim_length p k"
            "list_all (\<lambda>m'. claim_length p m' < claim_length p k) before"
            "list_all (\<lambda>m'. claim_length p m' \<le> claim_length p k) after"
        by blast
      then show ?thesis
      proof cases
        case 1
        then show ?thesis using True by (auto simp: list_all_iff)
      next
        case 2
        then show ?thesis using True by (auto simp: list_all_iff)
      qed
    qed
    then show ?thesis
      unfolding best_mapping_def st mapping_step_eq using True
      by (intro disjI2 exI [of _ ms] exI [of _ m] exI [of _ "[]"]) simp
  next
    case False
    then have e: "mapping_step p m st = st" by (auto simp: st mapping_step_eq)
    have le: "claim_length p m \<le> b"
    proof (cases "covers (mapping_host m) p")
      case True
      with False show ?thesis by simp
    next
      case no: False
      then show ?thesis using c low assms by (auto simp: best_mapping_def st)
    qed
    from assms [unfolded best_mapping_def st] consider
        "b = -1" "q = p" "list_all (\<lambda>k. claim_length p k = -1) ms"
      | before k after where "ms = before @ k # after" "covers (mapping_host k) p" "b = claim_length p k"
          "q = translated p k" "list_all (\<lambda>m'. claim_length p m' < claim_length p k) before"
          "list_all (\<lambda>m'. claim_length p m' \<le> claim_length p k) after"
      by blast
    then show ?thesis
    proof cases
      case 1
      then have "claim_length p m = -1" using le low [of m] by simp
      with 1 show ?thesis unfolding best_mapping_def e by (intro disjI1) (simp add: st)
    next
      case 2
      then show ?thesis
        unfolding best_mapping_def e using le st
        by - (rule disjI2, rule exI [of _ before], rule exI [of _ k], rule exI [of _ "after @ [m]"], simp)
    qed
  qed
qed

lemma best_mapping_fold: "best_mapping p ms (fold (mapping_step p) ms (-1, p))"
proof (induction ms rule: rev_induct)
  case Nil
  then show ?case by (simp add: best_mapping_def)
next
  case (snoc m ms)
  then show ?case by (simp add: best_mapping_step)
qed

lemma covers_empty: "\<not> covers host []"
  by (cases host) (simp_all add: covers_def)

text \<open>A host path is translated by the mapping with the longest matching prefix, the first of
  them on a tie, and is only folded to POSIX form when none matches; a prefix matches at a separator
  boundary only, the rest of the path is kept byte for byte, and an empty prefix never matches.\<close>

theorem MapArtistPath_longest:
  "let p = toPosixPath hostPath; ms = connPathMappings conn; out = MapArtistPath (Some conn) hostPath in
   out = p \<and> list_all (\<lambda>m. claim_length p m = -1) ms \<or>
   (\<exists>before m after. ms = before @ m # after \<and> covers (mapping_host m) p \<and>
      out = trim_slashes (toPosixPath (pmPlatformPrefix m)) @ drop (length (mapping_host m)) p \<and>
      list_all (\<lambda>m'. claim_length p m' < claim_length p m) before \<and>
      list_all (\<lambda>m'. claim_length p m' \<le> claim_length p m) after)"
proof (cases "hostPath = []")
  case True
  then show ?thesis
    by (simp add: MapArtistPath_def toPosixPath_def claim_length_def covers_empty list_all_iff)
next
  case False
  have out: "MapArtistPath (Some conn) hostPath =
      snd (fold (mapping_step (toPosixPath hostPath)) (connPathMappings conn) (-1, toPosixPath hostPath))"
    using False by (simp add: MapArtistPath_def Let_def)
  show ?thesis
    using best_mapping_fold [of "toPosixPath hostPath" "connPathMappings conn"]
    unfolding best_mapping_def Let_def out translated_def by (elim disjE exE conjE) (simp, auto)
qed

end
