(* ===== verification/PlatformLinks.thy ===== *)
theory PlatformLinks
  imports Prelude
begin

text \<open>
  The table of platform links (\<open>internal/artist/sqlite_platform.go\<close>, the \<open>Set*\<close> wrappers of
  \<open>internal/artist/service.go\<close>): which item of which connection stands for which artist. A table is
  the list of its rows in insertion order; the SQL statements are written out on it, the failures of
  each query are parameters. The locale \<open>link_store\<close> is what its clients rely on, interpreted for the
  overwriting write and for the stable write that keeps the lower id.
\<close>

section \<open>The table of platform links\<close>

record link =
  lkArtist :: string
  lkConn :: string
  lkPlatform :: string
  lkCreated :: string
  lkUpdated :: string

text \<open>The failures of a statement, per query, as the driver reports them.\<close>

record db_faults =
  dfHolder :: "string option"
  dfCurrent :: "string option"
  dfExec :: "string option"

definition no_faults :: db_faults where
  "no_faults = \<lparr>dfHolder = None, dfCurrent = None, dfExec = None\<rparr>"

datatype link_error =
    MissingArgument
  | ClaimedByAnotherArtist
  | PlatformIDNotFound
  | DbError string

record stable_outcome =
  soStoredID :: string
  soPreviousID :: string
  soDiverged :: bool

definition isUniqueConstraintErr :: "string \<Rightarrow> bool" where
  "isUniqueConstraintErr e \<longleftrightarrow> str_contains (to_lower e) ''unique constraint failed''"

definition has_key :: "string \<Rightarrow> string \<Rightarrow> link \<Rightarrow> bool" where
  "has_key a c r \<longleftrightarrow> lkArtist r = a \<and> lkConn r = c"

definition holder_of :: "string \<Rightarrow> string \<Rightarrow> link list \<Rightarrow> string option" where
  "holder_of c p rows = map_option lkArtist (find (\<lambda>r. lkConn r = c \<and> lkPlatform r = p) rows)"

definition stored_id :: "string \<Rightarrow> string \<Rightarrow> link list \<Rightarrow> string option" where
  "stored_id a c rows = map_option lkPlatform (find (has_key a c) rows)"

text \<open>\<open>INSERT ... ON CONFLICT (artist_id, connection_id) DO UPDATE\<close>, overwriting and with
  \<open>MIN(stored, excluded)\<close>.\<close>

definition upsert :: "string \<Rightarrow> string \<Rightarrow> string \<Rightarrow> string \<Rightarrow> link list \<Rightarrow> link list" where
  "upsert now a c p rows =
     (if stored_id a c rows = None
      then rows @ [\<lparr>lkArtist = a, lkConn = c, lkPlatform = p, lkCreated = now, lkUpdated = now\<rparr>]
      else map (\<lambda>r. if has_key a c r then r\<lparr>lkPlatform := p, lkUpdated := now\<rparr> else r) rows)"

definition upsert_min :: "string \<Rightarrow> string \<Rightarrow> string \<Rightarrow> string \<Rightarrow> link list \<Rightarrow> link list" where
  "upsert_min now a c p rows =
     (if stored_id a c rows = None
      then rows @ [\<lparr>lkArtist = a, lkConn = c, lkPlatform = p, lkCreated = now, lkUpdated = now\<rparr>]
      else map (\<lambda>r. if has_key a c r
                     then r\<lparr>lkUpdated := (if p < lkPlatform r then now else lkUpdated r),
                            lkPlatform := min (lkPlatform r) p\<rparr>
                     else r) rows)"

definition repo_Set ::
  "db_faults \<Rightarrow> string \<Rightarrow> string \<Rightarrow> string \<Rightarrow> string \<Rightarrow> link list \<Rightarrow> link_error + link list" where
  "repo_Set f now a c p rows =
     (case dfHolder f of
        Some e \<Rightarrow> Inl (DbError e)
      | None \<Rightarrow>
          if holder_of c p rows \<noteq> None \<and> holder_of c p rows \<noteq> Some a then Inl ClaimedByAnotherArtist
          else (case dfExec f of Some e \<Rightarrow> Inl (DbError e) | None \<Rightarrow> Inr (upsert now a c p rows)))"

definition repo_SetStable ::
  "db_faults \<Rightarrow> string \<Rightarrow> string \<Rightarrow> string \<Rightarrow> string \<Rightarrow> link list \<Rightarrow>
     link_error + stable_outcome \<times> link list" where
  "repo_SetStable f now a c p rows =
     (case dfHolder f of
        Some e \<Rightarrow> Inl (DbError e)
      | None \<Rightarrow>
          if holder_of c p rows \<noteq> None \<and> holder_of c p rows \<noteq> Some a then Inl ClaimedByAnotherArtist
          else (case dfCurrent f of
            Some e \<Rightarrow> Inl (DbError e)
          | None \<Rightarrow>
              if stored_id a c rows = Some p
              then Inr (\<lparr>soStoredID = p, soPreviousID = p, soDiverged = False\<rparr>, rows)
              else (case dfExec f of
                Some e \<Rightarrow> Inl (if isUniqueConstraintErr e then ClaimedByAnotherArtist else DbError e)
              | None \<Rightarrow>
                  Inr (case stored_id a c rows of
                         None \<Rightarrow> \<lparr>soStoredID = p, soPreviousID = [], soDiverged = False\<rparr>
                       | Some current \<Rightarrow>
                           \<lparr>soStoredID = (if p < current then p else current),
                            soPreviousID = current, soDiverged = True\<rparr>,
                       upsert_min now a c p rows))))"

definition SetPlatformID ::
  "db_faults \<Rightarrow> string \<Rightarrow> string \<Rightarrow> string \<Rightarrow> string \<Rightarrow> link list \<Rightarrow> link_error + link list" where
  "SetPlatformID f now a c p rows =
     (if a = [] \<or> c = [] \<or> p = [] then Inl MissingArgument else repo_Set f now a c p rows)"

definition SetPlatformIDStable ::
  "db_faults \<Rightarrow> string \<Rightarrow> string \<Rightarrow> string \<Rightarrow> string \<Rightarrow> link list \<Rightarrow>
     link_error + stable_outcome \<times> link list" where
  "SetPlatformIDStable f now a c p rows =
     (if a = [] \<or> c = [] \<or> p = [] then Inl MissingArgument else repo_SetStable f now a c p rows)"


definition repo_GetAll :: "string \<Rightarrow> link list \<Rightarrow> link list" where
  "repo_GetAll a rows = sort_key lkCreated (filter (\<lambda>r. lkArtist r = a) rows)"

definition repo_Delete :: "string \<Rightarrow> string \<Rightarrow> link list \<Rightarrow> link_error + link list" where
  "repo_Delete a c rows =
     (if list_ex (has_key a c) rows then Inr (filter (\<lambda>r. \<not> has_key a c r) rows)
      else Inl PlatformIDNotFound)"

definition repo_DeleteByArtistID :: "string \<Rightarrow> link list \<Rightarrow> link list" where
  "repo_DeleteByArtistID a rows = filter (\<lambda>r. lkArtist r \<noteq> a) rows"

definition ListArtistsWithPlatformMappings :: "link list \<Rightarrow> string list" where
  "ListArtistsWithPlatformMappings rows = sort (remdups (map lkArtist rows))"

section \<open>The abstract store\<close>

text \<open>What a link table promises, whatever rule decides between the stored and the incoming id.\<close>

locale link_store =
  fixes look :: "'s \<Rightarrow> 'k \<Rightarrow> 'v option"
    and ok :: "'s \<Rightarrow> bool"
    and store :: "'e \<Rightarrow> 'k \<Rightarrow> 'v \<Rightarrow> 's \<Rightarrow> 's option"
    and settle :: "'v option \<Rightarrow> 'v \<Rightarrow> 'v"
  assumes store_look: "ok s \<Longrightarrow> store e k v s = Some s' \<Longrightarrow> look s' = (look s)(k \<mapsto> settle (look s k) v)"
    and store_ok: "ok s \<Longrightarrow> store e k v s = Some s' \<Longrightarrow> ok s'"
begin

definition writes :: "('e \<times> 'k \<times> 'v) list \<Rightarrow> 's \<Rightarrow> 's option" where
  "writes ws s = fold_opt (\<lambda>(e, k, v). store e k v) ws s"

lemma writes_Nil [simp]: "writes [] s = Some s"
  by (simp add: writes_def)

lemma writes_Cons: "writes ((e, k, v) # ws) s = Option.bind (store e k v s) (writes ws)"
  by (simp add: writes_def writes_def [abs_def])

lemma writes_ok: "ok s \<Longrightarrow> writes ws s = Some s' \<Longrightarrow> ok s'"
proof (induction ws arbitrary: s)
  case (Cons w ws)
  obtain e k v where w: "w = (e, k, v)" by (cases w)
  from Cons.prems obtain s1 where "store e k v s = Some s1" "writes ws s1 = Some s'"
    by (auto simp: w writes_Cons bind_eq_Some_conv)
  with Cons.IH [of s1] store_ok [OF Cons.prems(1)] show ?case by blast
qed simp

lemma writes_value:
  "ok s \<Longrightarrow> writes ws s = Some s' \<Longrightarrow>
     look s' k = fold (\<lambda>v cur. Some (settle cur v)) (map (snd \<circ> snd) (filter (\<lambda>w. fst (snd w) = k) ws)) (look s k)"
proof (induction ws arbitrary: s)
  case (Cons w ws)
  obtain e k' v where w: "w = (e, k', v)" by (cases w)
  from Cons.prems obtain s1 where s1: "store e k' v s = Some s1" "writes ws s1 = Some s'"
    by (auto simp: w writes_Cons bind_eq_Some_conv)
  show ?case
    using Cons.IH [OF store_ok [OF Cons.prems(1) s1(1)] s1(2)] store_look [OF Cons.prems(1) s1(1)]
    by (simp add: w)
qed simp

lemma writes_frame:
  assumes "ok s" "writes ws s = Some s'" "k \<notin> (fst \<circ> snd) ` set ws"
  shows "look s' k = look s k"
proof -
  have "filter (\<lambda>w. fst (snd w) = k) ws = []" using assms(3) by (force simp: filter_empty_conv)
  then show ?thesis using writes_value [OF assms(1,2)] by simp
qed

lemma writes_keep:
  assumes "ok s" "writes ws s = Some s'" "look s k = Some v"
  shows "\<exists>v'. look s' k = Some v'"
proof -
  have "\<exists>v'. fold (\<lambda>v cur. Some (settle cur v)) vs cur = Some v'" if "cur \<noteq> None" for vs cur
    using that by (induction vs arbitrary: cur) auto
  then show ?thesis using writes_value [OF assms(1,2), of k] assms(3) by simp
qed

end

section \<open>The table implements it\<close>

definition links_ok :: "link list \<Rightarrow> bool" where
  "links_ok rows \<longleftrightarrow>
     distinct (map (\<lambda>r. (lkArtist r, lkConn r)) rows) \<and>
     distinct (map (\<lambda>r. (lkConn r, lkPlatform r)) rows)"

definition link_map :: "link list \<Rightarrow> string \<times> string \<Rightarrow> string option" where
  "link_map rows k = stored_id (fst k) (snd k) rows"

lemma stored_id_simps [simp]:
  "stored_id a c [] = None"
  "stored_id a c (r # rows) = (if has_key a c r then Some (lkPlatform r) else stored_id a c rows)"
  by (simp_all add: stored_id_def)

lemma stored_append:
  "stored_id a c (rows @ [r]) =
     (if stored_id a c rows = None \<and> has_key a c r then Some (lkPlatform r) else stored_id a c rows)"
  by (induction rows) auto

lemma stored_map:
  assumes "\<And>r. lkArtist (f r) = lkArtist r" "\<And>r. lkConn (f r) = lkConn r"
  shows "stored_id a' c' (map (\<lambda>r. if has_key a c r then f r else r) rows) =
     (if (a', c') = (a, c) then map_option (\<lambda>r. lkPlatform (f r)) (find (has_key a c) rows)
      else stored_id a' c' rows)"
  using assms by (induction rows) (auto simp: has_key_def)

lemma stored_None: "stored_id a c rows = None \<longleftrightarrow> list_all (\<lambda>r. \<not> has_key a c r) rows"
  by (induction rows) auto

lemma find_stored: "stored_id a c rows \<noteq> None \<Longrightarrow> find (has_key a c) rows \<noteq> None"
  by (simp add: stored_id_def)

lemma link_map_upsert: "link_map (upsert now a c p rows) = (link_map rows)((a, c) \<mapsto> p)"
proof
  fix k :: "string \<times> string"
  obtain a' c' where k: "k = (a', c')" by (cases k)
  show "link_map (upsert now a c p rows) k = ((link_map rows)((a, c) \<mapsto> p)) k"
  proof (cases "stored_id a c rows = None")
    case True
    then show ?thesis by (simp add: k link_map_def upsert_def stored_append) (auto simp: has_key_def)
  next
    case False
    then show ?thesis using find_stored [OF False]
      by (auto simp: k link_map_def upsert_def stored_map)
  qed
qed

lemma links_okD:
  assumes "links_ok rows" "r \<in> set rows" "s \<in> set rows"
  shows "lkArtist r = lkArtist s \<Longrightarrow> lkConn r = lkConn s \<Longrightarrow> r = s"
    and "lkConn r = lkConn s \<Longrightarrow> lkPlatform r = lkPlatform s \<Longrightarrow> r = s"
proof -
  have i: "inj_on (\<lambda>r. (lkArtist r, lkConn r)) (set rows)" "inj_on (\<lambda>r. (lkConn r, lkPlatform r)) (set rows)"
    using assms(1) by (simp_all add: links_ok_def distinct_map)
  show "lkArtist r = lkArtist s \<Longrightarrow> lkConn r = lkConn s \<Longrightarrow> r = s"
    using inj_onD [OF i(1) _ assms(2,3)] by simp
  show "lkConn r = lkConn s \<Longrightarrow> lkPlatform r = lkPlatform s \<Longrightarrow> r = s"
    using inj_onD [OF i(2) _ assms(2,3)] by simp
qed

lemma holder_unique:
  assumes ok: "links_ok rows" and h: "holder_of c p rows = None \<or> holder_of c p rows = Some a"
    and r: "r \<in> set rows" "lkConn r = c" "lkPlatform r = p"
  shows "lkArtist r = a"
proof (cases "find (\<lambda>r. lkConn r = c \<and> lkPlatform r = p) rows")
  case None
  then show ?thesis using r by (auto simp: find_None_iff)
next
  case (Some s)
  then have "s \<in> set rows" "lkConn s = c" "lkPlatform s = p" by (auto simp: find_Some_iff)
  then have "r = s" using links_okD(2) [OF ok r(1)] r by blast
  then show ?thesis using h Some by (simp add: holder_of_def)
qed

lemma links_ok_upsert:
  assumes ok: "links_ok rows" and h: "holder_of c p rows = None \<or> holder_of c p rows = Some a"
  shows "links_ok (upsert now a c p rows)"
proof (cases "stored_id a c rows = None")
  case True
  then have k: "\<And>r. r \<in> set rows \<Longrightarrow> \<not> has_key a c r" by (auto simp: stored_None list_all_iff)
  have "(a, c) \<notin> (\<lambda>r. (lkArtist r, lkConn r)) ` set rows" using k by (auto simp: has_key_def)
  moreover have "(c, p) \<notin> (\<lambda>r. (lkConn r, lkPlatform r)) ` set rows"
    using k holder_unique [OF ok h] by (auto simp: has_key_def)
  ultimately show ?thesis using ok by (simp add: links_ok_def upsert_def True)
next
  case False
  let ?g = "\<lambda>r. if has_key a c r then r\<lparr>lkPlatform := p, lkUpdated := now\<rparr> else r"
  have keys: "(\<lambda>r. (lkArtist r, lkConn r)) \<circ> ?g = (\<lambda>r. (lkArtist r, lkConn r))" by auto
  have d: "distinct rows" using ok by (simp add: links_ok_def distinct_map)
  have "inj_on ((\<lambda>r. (lkConn r, lkPlatform r)) \<circ> ?g) (set rows)"
  proof (rule inj_onI)
    fix r s
    assume rs: "r \<in> set rows" "s \<in> set rows"
      and e: "((\<lambda>r. (lkConn r, lkPlatform r)) \<circ> ?g) r = ((\<lambda>r. (lkConn r, lkPlatform r)) \<circ> ?g) s"
    then have c: "lkConn r = lkConn s"
      and q: "(if has_key a c r then p else lkPlatform r) = (if has_key a c s then p else lkPlatform s)"
      by (simp_all split: if_splits)
    have "has_key a c r \<longleftrightarrow> has_key a c s"
    proof (cases "lkConn r = c")
      case True
      then have "lkConn s = c" using c by simp
      with True q holder_unique [OF ok h rs(1) True] holder_unique [OF ok h rs(2)]
      show ?thesis unfolding has_key_def by metis
    next
      case False
      then show ?thesis using c unfolding has_key_def by metis
    qed
    then show "r = s"
      using c q links_okD [OF ok rs] unfolding has_key_def by metis
  qed
  then have "distinct (map (\<lambda>r. (lkConn r, lkPlatform r)) (map ?g rows))"
    unfolding map_map distinct_map using d by blast
  moreover have "distinct (map (\<lambda>r. (lkArtist r, lkConn r)) (map ?g rows))"
    unfolding map_map keys using ok by (simp add: links_ok_def)
  ultimately show ?thesis unfolding upsert_def if_not_P [OF False] links_ok_def by blast
qed


lemma stored_row:
  assumes "links_ok rows" "r \<in> set rows" "has_key a c r"
  shows "stored_id a c rows = Some (lkPlatform r)"
proof (cases "find (has_key a c) rows")
  case None
  then show ?thesis using assms by (auto simp: find_None_iff)
next
  case (Some s)
  then have "s \<in> set rows" "has_key a c s" by (auto simp: find_Some_iff)
  then have "s = r" using links_okD(1) [OF assms(1), of s r] assms by (simp add: has_key_def)
  then show ?thesis using Some by (simp add: stored_id_def)
qed

lemma upsert_min_eq:
  assumes "links_ok rows"
  shows "upsert_min now a c p rows =
    (case stored_id a c rows of None \<Rightarrow> upsert now a c p rows
     | Some q \<Rightarrow> if p < q then upsert now a c p rows else rows)"
proof (cases "stored_id a c rows")
  case None
  then show ?thesis by (simp add: upsert_min_def upsert_def)
next
  case (Some q)
  have q: "lkPlatform r = q" if "r \<in> set rows" "has_key a c r" for r
    using stored_row [OF assms that] Some by simp
  show ?thesis
  proof (cases "p < q")
    case True
    then show ?thesis
      using q by (auto simp: upsert_min_def upsert_def Some min_def intro!: map_cong)
  next
    case False
    have "map (\<lambda>r. if has_key a c r
                     then r\<lparr>lkUpdated := (if p < lkPlatform r then now else lkUpdated r),
                            lkPlatform := min (lkPlatform r) p\<rparr> else r) rows = map (\<lambda>r. r) rows"
      using q False by (intro map_cong refl) (simp add: min_def)
    then show ?thesis using False by (simp add: upsert_min_def Some)
  qed
qed

lemma link_map_upsert_min:
  assumes "links_ok rows"
  shows "link_map (upsert_min now a c p rows) =
    (link_map rows)((a, c) \<mapsto> (case link_map rows (a, c) of None \<Rightarrow> p | Some q \<Rightarrow> min q p))"
proof (cases "stored_id a c rows")
  case None
  then show ?thesis using assms by (simp add: upsert_min_eq link_map_upsert) (simp add: link_map_def)
next
  case (Some q)
  then have k: "link_map rows (a, c) = Some q" by (simp add: link_map_def)
  then have u: "(link_map rows)((a, c) \<mapsto> q) = link_map rows" by (simp add: fun_upd_idem)
  have "min q p = (if p < q then p else q)" by (simp add: min_def not_less [symmetric])
  then show ?thesis
    unfolding upsert_min_eq [OF assms] Some k
    using u by (simp add: link_map_upsert)
qed

lemma links_ok_upsert_min:
  assumes "links_ok rows" "holder_of c p rows = None \<or> holder_of c p rows = Some a"
  shows "links_ok (upsert_min now a c p rows)"
  using assms links_ok_upsert [OF assms] by (simp add: upsert_min_eq split: option.splits)

lemma repo_Set_Inr:
  "repo_Set f now a c p rows = Inr rows' \<longleftrightarrow>
     dfHolder f = None \<and> dfExec f = None \<and> (holder_of c p rows = None \<or> holder_of c p rows = Some a) \<and>
     rows' = upsert now a c p rows"
  by (auto simp: repo_Set_def split: option.splits)

lemma repo_SetStable_Inr:
  assumes "links_ok rows" "repo_SetStable f now a c p rows = Inr (out, rows')"
  shows "links_ok rows' \<and> link_map rows' =
      (link_map rows)((a, c) \<mapsto> (case link_map rows (a, c) of None \<Rightarrow> p | Some q \<Rightarrow> min q p))"
proof -
  have h: "holder_of c p rows = None \<or> holder_of c p rows = Some a"
    using assms(2) by (auto simp: repo_SetStable_def split: option.splits if_splits)
  show ?thesis
  proof (cases "stored_id a c rows = Some p")
    case True
    then have "rows' = rows" using assms(2) by (auto simp: repo_SetStable_def split: option.splits if_splits)
    with True assms(1) show ?thesis by (simp add: link_map_def fun_upd_idem)
  next
    case False
    then have "rows' = upsert_min now a c p rows"
      using assms(2) by (auto simp: repo_SetStable_def split: option.splits if_splits)
    with assms(1) h show ?thesis by (simp add: link_map_upsert_min links_ok_upsert_min)
  qed
qed

text \<open>The two writers as operations of the abstract store.\<close>

definition link_set :: "db_faults \<times> string \<Rightarrow> string \<times> string \<Rightarrow> string \<Rightarrow> link list \<Rightarrow> link list option" where
  "link_set e k p rows =
     (case SetPlatformID (fst e) (snd e) (fst k) (snd k) p rows of Inl _ \<Rightarrow> None | Inr rows' \<Rightarrow> Some rows')"

definition link_set_stable ::
  "db_faults \<times> string \<Rightarrow> string \<times> string \<Rightarrow> string \<Rightarrow> link list \<Rightarrow> link list option" where
  "link_set_stable e k p rows =
     (case SetPlatformIDStable (fst e) (snd e) (fst k) (snd k) p rows of
        Inl _ \<Rightarrow> None | Inr (_, rows') \<Rightarrow> Some rows')"

definition lowest_id :: "string option \<Rightarrow> string \<Rightarrow> string" where
  "lowest_id cur p = (case cur of None \<Rightarrow> p | Some q \<Rightarrow> min q p)"

interpretation overwrite: link_store link_map links_ok link_set "\<lambda>_ p. p"
  by unfold_locales
    (auto simp: link_set_def SetPlatformID_def repo_Set_Inr link_map_upsert links_ok_upsert
      split: sum.splits if_splits)

interpretation lowest: link_store link_map links_ok link_set_stable lowest_id
  by unfold_locales
    (auto simp: link_set_stable_def SetPlatformIDStable_def lowest_id_def dest: repo_SetStable_Inr
      split: sum.splits if_splits)


section \<open>Every operation keeps the unique indexes\<close>

text \<open>The tables the operations can produce, with any faults.\<close>

inductive reachable_links :: "link list \<Rightarrow> bool" where
  empty: "reachable_links []"
| set_id: "reachable_links rows \<Longrightarrow> SetPlatformID f now a c p rows = Inr rows' \<Longrightarrow> reachable_links rows'"
| set_stable: "reachable_links rows \<Longrightarrow> SetPlatformIDStable f now a c p rows = Inr (out, rows') \<Longrightarrow>
    reachable_links rows'"
| delete: "reachable_links rows \<Longrightarrow> repo_Delete a c rows = Inr rows' \<Longrightarrow> reachable_links rows'"
| delete_artist: "reachable_links rows \<Longrightarrow> reachable_links (repo_DeleteByArtistID a rows)"

lemma links_ok_filter: "links_ok rows \<Longrightarrow> links_ok (filter P rows)"
  by (simp add: links_ok_def distinct_map_filter)

lemma SetPlatformID_ok: "links_ok rows \<Longrightarrow> SetPlatformID f now a c p rows = Inr rows' \<Longrightarrow> links_ok rows'"
  by (auto simp: SetPlatformID_def repo_Set_Inr links_ok_upsert split: if_splits)

lemma SetPlatformIDStable_ok:
  "links_ok rows \<Longrightarrow> SetPlatformIDStable f now a c p rows = Inr (out, rows') \<Longrightarrow> links_ok rows'"
  by (auto simp: SetPlatformIDStable_def dest: repo_SetStable_Inr split: if_splits)

text \<open>C33. Whatever sequence of writes, stable writes and deletions ran, whatever queries failed, an
  artist has at most one link per connection and no platform item is linked to two artists: the
  lookup of any row's key gives that row's item, and two rows of one connection with the same item
  are the same row.\<close>

theorem links_stay_unique:
  assumes "reachable_links rows"
  shows "links_ok rows"
  using assms
proof induction
  case empty
  show ?case by (simp add: links_ok_def)
next
  case (delete rows a c rows')
  then show ?case by (auto simp: repo_Delete_def links_ok_filter split: if_splits)
qed (auto simp: repo_DeleteByArtistID_def links_ok_filter dest: SetPlatformID_ok SetPlatformIDStable_ok)

theorem links_stay_unique_witness:
  "links_ok [\<lparr>lkArtist = ''a'', lkConn = ''c'', lkPlatform = ''7'', lkCreated = ''t'', lkUpdated = ''t''\<rparr>]"
proof (rule links_stay_unique, rule reachable_links.set_id [OF reachable_links.empty])
  show "SetPlatformID no_faults ''t'' ''a'' ''c'' ''7'' [] =
      Inr [\<lparr>lkArtist = ''a'', lkConn = ''c'', lkPlatform = ''7'', lkCreated = ''t'', lkUpdated = ''t''\<rparr>]"
    by (simp add: SetPlatformID_def repo_Set_def no_faults_def holder_of_def upsert_def)
qed

section \<open>Refinement of the abstract map\<close>

definition spec_claimed :: "string \<Rightarrow> string \<Rightarrow> string \<Rightarrow> (string \<times> string \<Rightarrow> string option) \<Rightarrow> bool" where
  "spec_claimed a c p m \<longleftrightarrow> (\<exists>b. b \<noteq> a \<and> m (b, c) = Some p)"



lemma stored_in: "stored_id b c rows = Some p \<Longrightarrow> \<exists>r\<in>set rows. has_key b c r \<and> lkPlatform r = p"
  by (induction rows) (auto split: if_splits)

lemma claimed_iff:
  assumes "links_ok rows"
  shows "spec_claimed a c p (link_map rows) \<longleftrightarrow> holder_of c p rows \<noteq> None \<and> holder_of c p rows \<noteq> Some a"
proof
  assume "spec_claimed a c p (link_map rows)"
  then obtain b r where r: "b \<noteq> a" "r \<in> set rows" "has_key b c r" "lkPlatform r = p"
    using stored_in by (fastforce simp: spec_claimed_def link_map_def)
  then have "holder_of c p rows \<noteq> None \<and> \<not> (holder_of c p rows = None \<or> holder_of c p rows = Some a)"
    using holder_unique [OF assms, of c p a r] by (auto simp: has_key_def holder_of_def find_None_iff)
  then show "holder_of c p rows \<noteq> None \<and> holder_of c p rows \<noteq> Some a" by blast
next
  assume "holder_of c p rows \<noteq> None \<and> holder_of c p rows \<noteq> Some a"
  then obtain r where "find (\<lambda>r. lkConn r = c \<and> lkPlatform r = p) rows = Some r" "lkArtist r \<noteq> a"
    by (auto simp: holder_of_def)
  then have "r \<in> set rows" "has_key (lkArtist r) c r" "lkPlatform r = p" "lkArtist r \<noteq> a"
    by (auto simp: find_Some_iff has_key_def)
  then show "spec_claimed a c p (link_map rows)"
    using stored_row [OF assms] by (force simp: spec_claimed_def link_map_def)
qed



lemma stable_contract:
  assumes "links_ok rows"
  shows "map_sum id (map_prod soStoredID link_map) (repo_SetStable no_faults now a c p rows) =
    (if holder_of c p rows \<noteq> None \<and> holder_of c p rows \<noteq> Some a then Inl ClaimedByAnotherArtist
     else Inr (lowest_id (link_map rows (a, c)) p,
               (link_map rows)((a, c) \<mapsto> lowest_id (link_map rows (a, c)) p)))"
proof (cases "repo_SetStable no_faults now a c p rows")
  case (Inl e)
  then show ?thesis by (auto simp: repo_SetStable_def no_faults_def split: if_splits option.splits)
next
  case (Inr r)
  obtain out rows' where r: "r = (out, rows')" by (cases r)
  have "soStoredID out = lowest_id (link_map rows (a, c)) p"
    using Inr unfolding r
    by (auto simp: repo_SetStable_def lowest_id_def no_faults_def link_map_def min_def
        split: if_splits option.splits)
  moreover have "link_map rows' = (link_map rows)((a, c) \<mapsto> lowest_id (link_map rows (a, c)) p)"
    using repo_SetStable_Inr [OF assms] Inr unfolding r lowest_id_def by blast
  moreover have "\<not> (holder_of c p rows \<noteq> None \<and> holder_of c p rows \<noteq> Some a)"
    using Inr by (auto simp: repo_SetStable_def split: if_splits option.splits)
  ultimately show ?thesis using Inr r by simp
qed




section \<open>The stable write converges\<close>

text \<open>A scan that reports the items of one artist on one connection one after the other.\<close>

definition stable_run :: "string \<Rightarrow> string \<Rightarrow> string \<Rightarrow> string list \<Rightarrow> link list \<Rightarrow> link list option" where
  "stable_run now a c ps rows = fold_opt (\<lambda>p. link_set_stable (no_faults, now) (a, c) p) ps rows"

lemma fold_opt_map: "fold_opt f (map g xs) s = fold_opt (\<lambda>x. f (g x)) xs s"
proof (induction xs arbitrary: s)
  case (Cons x xs)
  then show ?case by (cases "f (g x) s") simp_all
qed simp

lemma stable_run_writes:
  "stable_run now a c ps rows = lowest.writes (map (\<lambda>p. ((no_faults, now), (a, c), p)) ps) rows"
  by (simp add: stable_run_def lowest.writes_def fold_opt_map)

lemma fold_lowest:
  "fold (\<lambda>v cur. Some (lowest_id cur v)) ps (Some q) = Some (Min (insert q (set ps)))"
proof (induction ps arbitrary: q)
  case (Cons p ps)
  have "Min (insert (min q p) (set ps)) = Min (insert q (set (p # ps)))"
    by (cases "ps = []") (simp_all add: min.assoc min.commute min.left_commute)
  with Cons show ?case by (simp add: lowest_id_def)
qed simp

lemma stable_run_runs:
  assumes "links_ok rows" "a \<noteq> []" "c \<noteq> []"
    and "\<forall>p\<in>set ps. p \<noteq> [] \<and> \<not> spec_claimed a c p (link_map rows)"
  shows "\<exists>rows'. stable_run now a c ps rows = Some rows'"
  using assms(1,4) unfolding stable_run_def
proof (induction ps arbitrary: rows)
  case (Cons p ps)
  have e: "map_sum id (map_prod soStoredID link_map) (SetPlatformIDStable no_faults now a c p rows) =
      Inr (lowest_id (link_map rows (a, c)) p, (link_map rows)((a, c) \<mapsto> lowest_id (link_map rows (a, c)) p))"
    using stable_contract [OF Cons.prems(1), of now a c p] claimed_iff [OF Cons.prems(1), of a c p] assms(2,3) Cons.prems(2)
    by (auto simp: SetPlatformIDStable_def)
  then obtain out rows1 where 1: "SetPlatformIDStable no_faults now a c p rows = Inr (out, rows1)"
    "link_map rows1 = (link_map rows)((a, c) \<mapsto> lowest_id (link_map rows (a, c)) p)"
    by (cases "SetPlatformIDStable no_faults now a c p rows") auto
  have "\<forall>p\<in>set ps. p \<noteq> [] \<and> \<not> spec_claimed a c p (link_map rows1)"
    using Cons.prems(2) by (auto simp: 1(2) spec_claimed_def)
  with Cons.IH [OF SetPlatformIDStable_ok [OF Cons.prems(1) 1(1)]] show ?case
    by (simp add: link_set_stable_def 1(1))
qed simp

text \<open>Stable writes converge: whatever the order in which a scan reports the items of an artist
  on a connection, and whatever was stored, the link ends at the lowest of the ids, and no other
  link moves.\<close>

theorem SetStable_converges:
  assumes "links_ok rows" "a \<noteq> []" "c \<noteq> []" "ps \<noteq> []"
    and "\<forall>p\<in>set ps. p \<noteq> [] \<and> \<not> spec_claimed a c p (link_map rows)"
  shows "\<exists>rows'. stable_run now a c ps rows = Some rows' \<and> links_ok rows' \<and>
    link_map rows' = (link_map rows)((a, c) \<mapsto> Min (set ps \<union> set_option (link_map rows (a, c))))"
proof -
  obtain rows' where r: "stable_run now a c ps rows = Some rows'"
    using stable_run_runs [OF assms(1,2,3,5)] by blast
  note w = r [unfolded stable_run_writes]
  have f: "filter (\<lambda>w. fst (snd w) = (a, c)) (map (\<lambda>p. ((no_faults, now), (a, c), p)) ps) =
      map (\<lambda>p. ((no_faults, now), (a, c), p)) ps"
    by (simp add: filter_map comp_def)
  have "link_map rows' (a, c) = fold (\<lambda>v cur. Some (lowest_id cur v)) ps (link_map rows (a, c))"
    using lowest.writes_value [OF assms(1) w, of "(a, c)"] unfolding f by (simp add: comp_def)
  also have "\<dots> = Some (Min (set ps \<union> set_option (link_map rows (a, c))))"
  proof (cases "link_map rows (a, c)")
    case None
    then show ?thesis using assms(4) fold_lowest [of "tl ps" "hd ps"] by (cases ps) (simp_all add: lowest_id_def)
  next
    case (Some q)
    then show ?thesis by (simp add: fold_lowest Un_commute)
  qed
  finally have "link_map rows' (a, c) = Some (Min (set ps \<union> set_option (link_map rows (a, c))))" .
  moreover have "link_map rows' k = link_map rows k" if "k \<noteq> (a, c)" for k
    by (rule lowest.writes_frame [OF assms(1) w]) (use that in auto)
  ultimately show ?thesis using r lowest.writes_ok [OF assms(1) w] by auto
qed

theorem SetStable_converges_witness:
  "\<exists>rows'. stable_run ''t'' ''a'' ''c'' [''9'', ''7'', ''8''] [] = Some rows' \<and> links_ok rows' \<and>
     link_map rows' = [(''a'', ''c'') \<mapsto> Min {''9'', ''7'', ''8''}]"
proof -
  have e: "link_map [] = (\<lambda>_. None)" by (simp add: fun_eq_iff link_map_def)
  show ?thesis
    using SetStable_converges [of "[]" "''a''" "''c''" "[''9'', ''7'', ''8'']" "''t''"]
    by (simp add: links_ok_def spec_claimed_def e)
qed

end
