(* ===== verification/Relink.thy ===== *)
theory Relink
  imports PeerPaths PlatformLinks "HOL-Library.AList"
begin

text \<open>
  Links after a directory move (\<open>internal/publish/relink.go\<close>, \<open>rename_sync.go\<close>, \<open>lidarr_selfheal.go\<close>):
  choosing the peer item that backs the moved directory, the poll loop around the peer's
  asynchronous scan, the pre-flight root guard, the read-back, and \<open>SyncRename\<close> over all connections
  with the Lidarr self-heal in front.

  The peers and the database are an environment: a script of answers per connection and the faults of
  each query. The poll loop is a function of the events its \<open>select\<close> receives; None is a loop that
  is still waiting when the events given to it are used up, and \<open>rename_returns\<close> shows that a deadline or
  a cancellation anywhere in them ends it. Messages are constructors that carry what the Go text
  is formatted from. An operation on links returns the new table; a rename also returns the pushes it
  made. Clients are built by connection type; the client code itself is outside the model.
\<close>

section \<open>What the peers and the database answer\<close>

datatype relink_error =
    EnumerateFailed string
  | AmbiguousName nat string
  | AmbiguousPath nat string
  | ScanFailed string
  | ContextDone string
  | BudgetSpent
  | LinkNotStored string link_error

text \<open>What the poll loop's \<open>select\<close> can receive: a tick, with the answer of the listing it asks for,
  the end of the poll budget, or the end of the call's context.\<close>

datatype poll_event =
    Tick "string + peer_artist list"
  | BudgetExpired
  | CtxDone string

text \<open>The answers of one peer during one rename, in the order the code asks: its roots, the path
  update, the read-back, the first listing, the scan trigger and the poll.\<close>

record peer_script =
  psRoots :: "string + string list"
  psUpdate :: "string option"
  psReadBack :: "string + string"
  psFirst :: "string + peer_artist list"
  psScan :: "string option"
  psEvents :: "poll_event list"

record artist_row =
  arName :: string
  arPath :: string
  arMBID :: string

record lidarr_artist =
  laID :: int
  laForeignArtistID :: string

text \<open>The environment of a rename. \<open>envArtist\<close> is None when no artist getter is wired, otherwise its
  answer (an error, or the row, or no row).\<close>

record rename_env =
  envConn :: "string \<Rightarrow> string + connection"
  envScript :: "string \<Rightarrow> peer_script"
  envArtist :: "(string + artist_row option) option"
  envListErr :: "string option"
  envFaults :: "string \<Rightarrow> db_faults"
  envNow :: string
  envLidarr :: "string + connection list"
  envLidarrArtists :: "string \<Rightarrow> string + lidarr_artist list"

section \<open>Resolving the item that backs a directory\<close>

definition honorsPathWrites :: "string \<Rightarrow> bool" where
  "honorsPathWrites t \<longleftrightarrow> t = TypeLidarr"

definition peerIsPathless :: "string \<Rightarrow> bool" where
  "peerIsPathless t \<longleftrightarrow> t = TypeEmby"

definition peerIsFolderBacked :: "string \<Rightarrow> bool" where
  "peerIsFolderBacked t \<longleftrightarrow> t = TypeJellyfin"

text \<open>The switch of the three client factories: a type they build a client for.\<close>

definition relinkResolverFactory :: "string \<Rightarrow> bool" where
  "relinkResolverFactory t \<longleftrightarrow> t = TypeEmby \<or> t = TypeJellyfin \<or> t = TypeLidarr"

definition renameRootListerFactory :: "string \<Rightarrow> bool" where
  "renameRootListerFactory t \<longleftrightarrow> t = TypeEmby \<or> t = TypeJellyfin \<or> t = TypeLidarr"

definition renamePathUpdaterFactory :: "string \<Rightarrow> bool" where
  "renamePathUpdaterFactory t \<longleftrightarrow> t = TypeEmby \<or> t = TypeJellyfin \<or> t = TypeLidarr"

fun dedupe_items :: "string list \<Rightarrow> peer_artist list \<Rightarrow> peer_artist list" where
  "dedupe_items seen [] = []"
| "dedupe_items seen (it # its) =
     (if paID it = [] \<or> paID it \<in> set seen then dedupe_items seen its
      else it # dedupe_items (paID it # seen) its)"

definition path_hit :: "string \<Rightarrow> peer_artist \<Rightarrow> bool" where
  "path_hit wantPath it \<longleftrightarrow> SamePeerPath (paPath it) wantPath"

definition name_hit :: "string \<Rightarrow> bool \<Rightarrow> peer_artist \<Rightarrow> bool" where
  "name_hit artistName peerPathless it \<longleftrightarrow>
     peerPathless \<and> artistName \<noteq> [] \<and> paName it = artistName \<and> paPath it = []"

definition keepCurrentIfStillValid ::
  "peer_artist list \<Rightarrow> string \<Rightarrow> string \<Rightarrow> string \<Rightarrow> bool \<Rightarrow> string" where
  "keepCurrentIfStillValid items wantPath artistName currentID peerPathless =
     (if currentID = [] then []
      else if list_ex (\<lambda>it. paID it = currentID \<and> (path_hit wantPath it \<or> name_hit artistName peerPathless it)) items
      then currentID
      else [])"

definition resolvePathHits ::
  "peer_artist list \<Rightarrow> string \<Rightarrow> string \<Rightarrow> string \<Rightarrow> relink_error + string" where
  "resolvePathHits pathHits wantPath artistName currentID =
     (if length pathHits = 1 then Inr (paID (hd pathHits))
      else if currentID \<noteq> [] \<and> list_ex (\<lambda>it. paID it = currentID) pathHits then Inr currentID
      else let named = filter (\<lambda>it. artistName \<noteq> [] \<and> paName it = artistName) pathHits in
        if length named = 1 then Inr (paID (hd named))
        else Inl (AmbiguousPath (length pathHits) wantPath))"

definition resolvePeerArtist ::
  "peer_artist list \<Rightarrow> string \<Rightarrow> string \<Rightarrow> string \<Rightarrow> bool \<Rightarrow> relink_error + string" where
  "resolvePeerArtist items wantPath artistName currentID peerPathless =
     (let deduped = dedupe_items [] items;
          pathHits = filter (path_hit wantPath) deduped;
          nameHits = filter (\<lambda>it. \<not> path_hit wantPath it \<and> name_hit artistName peerPathless it) deduped;
          kept = keepCurrentIfStillValid deduped wantPath artistName currentID peerPathless in
      if kept \<noteq> [] then Inr kept
      else if pathHits \<noteq> [] then resolvePathHits pathHits wantPath artistName currentID
      else case nameHits of
        [] \<Rightarrow> Inr []
      | [it] \<Rightarrow> Inr (paID it)
      | _ \<Rightarrow> Inl (AmbiguousName (length nameHits) artistName))"

definition tryResolve ::
  "string + peer_artist list \<Rightarrow> string \<Rightarrow> string \<Rightarrow> string \<Rightarrow> bool \<Rightarrow> relink_error + string" where
  "tryResolve listing wantPath artistName currentID peerPathless =
     (case listing of
        Inl e \<Rightarrow> Inl (EnumerateFailed e)
      | Inr items \<Rightarrow> resolvePeerArtist items wantPath artistName currentID peerPathless)"

section \<open>Relinking after a move\<close>

definition commitRelink ::
  "db_faults \<Rightarrow> string \<Rightarrow> string \<Rightarrow> string \<Rightarrow> string \<Rightarrow> string \<Rightarrow> link list \<Rightarrow>
     relink_error option \<times> link list" where
  "commitRelink f now connectionID artistID oldPlatformID newPlatformID rows =
     (if oldPlatformID = newPlatformID then (None, rows)
      else case SetPlatformID f now artistID connectionID newPlatformID rows of
        Inl e \<Rightarrow> (Some (LinkNotStored newPlatformID e), rows)
      | Inr rows' \<Rightarrow> (None, rows'))"

text \<open>The poll loop on the events its \<open>select\<close> receives; None when the events end and the loop is
  still waiting. The Go function returns the identifier together with the error of the commit.\<close>

fun relink_poll ::
  "(string + peer_artist list \<Rightarrow> relink_error + string) \<Rightarrow> (string \<Rightarrow> relink_error option \<times> link list) \<Rightarrow>
     link list \<Rightarrow> poll_event list \<Rightarrow> ((string \<times> relink_error option) \<times> link list) option" where
  "relink_poll resolve commit rows [] = None"
| "relink_poll resolve commit rows (CtxDone e # events) = Some (([], Some (ContextDone e)), rows)"
| "relink_poll resolve commit rows (BudgetExpired # events) = Some (([], Some BudgetSpent), rows)"
| "relink_poll resolve commit rows (Tick listing # events) =
     (case resolve listing of
        Inl e \<Rightarrow> Some (([], Some e), rows)
      | Inr pollID \<Rightarrow>
          if pollID \<noteq> [] then (case commit pollID of (err, rows') \<Rightarrow> Some ((pollID, err), rows'))
          else relink_poll resolve commit rows events)"

definition relinkArtist ::
  "rename_env \<Rightarrow> connection \<Rightarrow> string \<Rightarrow> string \<Rightarrow> string \<Rightarrow> string \<Rightarrow> link list \<Rightarrow>
     ((string \<times> relink_error option) \<times> link list) option" where
  "relinkArtist env conn artistID artistName newPlatformPath currentPlatformID rows =
     (let script = envScript env (connID conn);
          resolve = (\<lambda>listing. tryResolve listing newPlatformPath artistName currentPlatformID
                                (peerIsPathless (connType conn)));
          commit = (\<lambda>platformID. commitRelink (envFaults env (connID conn)) (envNow env) (connID conn)
                                   artistID currentPlatformID platformID rows) in
      case resolve (psFirst script) of
        Inl e \<Rightarrow> Some (([], Some e), rows)
      | Inr platformID \<Rightarrow>
          if platformID \<noteq> [] then (case commit platformID of (err, rows') \<Rightarrow> Some ((platformID, err), rows'))
          else case (if connType conn = TypeLidarr then None else psScan script) of
            Some e \<Rightarrow> Some (([], Some (ScanFailed e)), rows)
          | None \<Rightarrow> relink_poll resolve commit rows (psEvents script))"

definition verifyPeerPath :: "string + string \<Rightarrow> string \<Rightarrow> string + bool \<times> string" where
  "verifyPeerPath readBack sentPath =
     (case readBack of Inl e \<Rightarrow> Inl e | Inr got \<Rightarrow> Inr (SamePeerPath got sentPath, got))"

section \<open>Renaming: one connection\<close>

datatype guard_error =
    NoRootList string
  | RootsUnreadable string
  | NotInRoots root_refusal

datatype remap_error =
    MappingsUnavailable string
  | FetchingConnection string
  | UnsupportedType string
  | RefusedPath guard_error
  | UpdateFailed string
  | NoVerifySurface string
  | ReadBackFailed string
  | PathNotStored string string
  | LinkKept relink_error

datatype remap_outcome = PlatformRemapOK | PlatformRemapFailed remap_error

record remap_result =
  rmConnectionID :: string
  rmResult :: remap_outcome

definition guardPlatformPath :: "peer_script \<Rightarrow> connection \<Rightarrow> string \<Rightarrow> string \<Rightarrow> guard_error option" where
  "guardPlatformPath script conn hostPath platformPath =
     (if \<not> renameRootListerFactory (connType conn) then Some (NoRootList (connType conn))
      else case psRoots script of
        Inl e \<Rightarrow> Some (RootsUnreadable e)
      | Inr roots \<Rightarrow>
          if PathWithinRoots platformPath roots then None
          else Some (NotInRoots (RemedyForOutsideRoots (connName conn) (connType conn) hostPath platformPath roots)))"

definition artistNameFor :: "rename_env \<Rightarrow> string" where
  "artistNameFor env =
     (case envArtist env of
        None \<Rightarrow> []
      | Some (Inl e) \<Rightarrow> []
      | Some (Inr None) \<Rightarrow> []
      | Some (Inr (Some a)) \<Rightarrow> arName a)"

definition reconcilePeerLink ::
  "rename_env \<Rightarrow> connection \<Rightarrow> string \<Rightarrow> string \<Rightarrow> string \<Rightarrow> link list \<Rightarrow>
     (remap_outcome \<times> link list) option" where
  "reconcilePeerLink env conn artistID platformPath platformArtistID rows =
     (if \<not> relinkResolverFactory (connType conn)
      then Some (PlatformRemapFailed (NoVerifySurface (connType conn)), rows)
      else case verifyPeerPath (psReadBack (envScript env (connID conn))) platformPath of
        Inl e \<Rightarrow> Some (PlatformRemapFailed (ReadBackFailed e), rows)
      | Inr (honored, got) \<Rightarrow>
          if honored then Some (PlatformRemapOK, rows)
          else if honorsPathWrites (connType conn)
          then Some (PlatformRemapFailed (PathNotStored platformPath got), rows)
          else case relinkArtist env conn artistID (artistNameFor env) platformPath platformArtistID rows of
            None \<Rightarrow> None
          | Some ((newID, Some e), rows') \<Rightarrow> Some (PlatformRemapFailed (LinkKept e), rows')
          | Some ((newID, None), rows') \<Rightarrow> Some (PlatformRemapOK, rows'))"

text \<open>The last component lists the paths pushed: connection, item, path.\<close>

definition syncOne ::
  "rename_env \<Rightarrow> string \<Rightarrow> string \<Rightarrow> string \<times> string \<Rightarrow> link list \<Rightarrow>
     (remap_result \<times> link list \<times> (string \<times> string \<times> string) list) option" where
  "syncOne env artistID newPath pid rows =
     (case pid of (connectionID, platformArtistID) \<Rightarrow>
        let res = (\<lambda>r. \<lparr>rmConnectionID = connectionID, rmResult = r\<rparr>) in
        case envConn env connectionID of
          Inl e \<Rightarrow> Some (res (PlatformRemapFailed (FetchingConnection e)), rows, [])
        | Inr conn \<Rightarrow>
            if \<not> connEnabled conn then Some (res PlatformRemapOK, rows, [])
            else if \<not> renamePathUpdaterFactory (connType conn)
            then Some (res (PlatformRemapFailed (UnsupportedType (connType conn))), rows, [])
            else
              let script = envScript env (connID conn);
                  platformPath = MapArtistPath (Some conn) newPath in
              case guardPlatformPath script conn newPath platformPath of
                Some e \<Rightarrow> Some (res (PlatformRemapFailed (RefusedPath e)), rows, [])
              | None \<Rightarrow>
                  let pushed = [(connectionID, platformArtistID, platformPath)] in
                  case psUpdate script of
                    Some e \<Rightarrow> Some (res (PlatformRemapFailed (UpdateFailed e)), rows, pushed)
                  | None \<Rightarrow>
                      map_option (\<lambda>(out, rows'). (res out, rows', pushed))
                        (reconcilePeerLink env conn artistID platformPath platformArtistID rows))"

section \<open>Renaming: all connections\<close>

definition mbidFor :: "rename_env \<Rightarrow> string" where
  "mbidFor env =
     (case envArtist env of
        Some (Inr (Some a)) \<Rightarrow> trim_space (arMBID a)
      | _ \<Rightarrow> [])"

definition heal_match :: "string \<Rightarrow> lidarr_artist list \<Rightarrow> string" where
  "heal_match mbid artists =
     (case find (\<lambda>la. equal_fold (trim_space (laForeignArtistID la)) mbid) artists of
        None \<Rightarrow> [] | Some la \<Rightarrow> itoa (laID la))"

definition heal_step ::
  "rename_env \<Rightarrow> string \<Rightarrow> string \<Rightarrow> string list \<Rightarrow> connection \<Rightarrow>
     (string \<times> string) list \<times> link list \<Rightarrow> (string \<times> string) list \<times> link list" where
  "heal_step env artistID mbid alreadyLinked conn st =
     (case st of (linked, rows) \<Rightarrow>
        if \<not> connEnabled conn \<or> connID conn \<in> set alreadyLinked then st
        else case envLidarrArtists env (connID conn) of
          Inl e \<Rightarrow> st
        | Inr artists \<Rightarrow>
            let matchedID = heal_match mbid artists in
            if matchedID = [] then st
            else case SetPlatformIDStable (envFaults env (connID conn)) (envNow env) artistID (connID conn) matchedID rows of
              Inl e \<Rightarrow> st
            | Inr (out, rows') \<Rightarrow> (AList.update (connID conn) matchedID linked, rows'))"

definition selfHealLidarrLinks ::
  "rename_env \<Rightarrow> string \<Rightarrow> string \<Rightarrow> string list \<Rightarrow> link list \<Rightarrow> (string \<times> string) list \<times> link list" where
  "selfHealLidarrLinks env artistID mbid alreadyLinked rows =
     (let mbid = trim_space mbid in
      if mbid = [] then ([], rows)
      else case envLidarr env of
        Inl e \<Rightarrow> ([], rows)
      | Inr conns \<Rightarrow> fold (heal_step env artistID mbid alreadyLinked) conns ([], rows))"

fun sync_all ::
  "rename_env \<Rightarrow> string \<Rightarrow> string \<Rightarrow> (string \<times> string) list \<Rightarrow> link list \<Rightarrow>
     (remap_result list \<times> link list \<times> (string \<times> string \<times> string) list) option" where
  "sync_all env artistID newPath [] rows = Some ([], rows, [])"
| "sync_all env artistID newPath (pid # pids) rows =
     (case syncOne env artistID newPath pid rows of
        None \<Rightarrow> None
      | Some (r, rows1, pushed) \<Rightarrow>
          (case sync_all env artistID newPath pids rows1 of
             None \<Rightarrow> None
           | Some (rs, rows2, pushed2) \<Rightarrow> Some (r # rs, rows2, pushed @ pushed2)))"

text \<open>The code ranges over the healed links in map order, which Go leaves open; the model takes the
  order of the connections.\<close>

definition rename_targets :: "rename_env \<Rightarrow> string \<Rightarrow> link list \<Rightarrow> (string \<times> string) list \<times> link list" where
  "rename_targets env artistID rows =
     (let pids = map (\<lambda>r. (lkConn r, lkPlatform r)) (repo_GetAll artistID rows);
          mbid = mbidFor env;
          (healed, rows1) =
            (if mbid \<noteq> [] then selfHealLidarrLinks env artistID mbid (map fst pids) rows else ([], rows)) in
      (pids @ healed, rows1))"

definition SyncRename ::
  "rename_env \<Rightarrow> string \<Rightarrow> string \<Rightarrow> link list \<Rightarrow>
     (remap_result list \<times> link list \<times> (string \<times> string \<times> string) list) option" where
  "SyncRename env artistID newPath rows =
     (case envListErr env of
        Some e \<Rightarrow>
          Some ([\<lparr>rmConnectionID = [], rmResult = PlatformRemapFailed (MappingsUnavailable e)\<rparr>], rows, [])
      | None \<Rightarrow>
          (case rename_targets env artistID rows of (targets, rows1) \<Rightarrow>
             if targets = [] then Some ([], rows1, [])
             else sync_all env artistID newPath targets rows1))"


section \<open>A resolved item is evidenced\<close>

text \<open>What licenses a link: an item of the listing that sits at the directory, or, on a peer that
  has no paths to give, one without a path that carries the artist's name.\<close>

definition evidence :: "bool \<Rightarrow> string \<Rightarrow> string \<Rightarrow> peer_artist list \<Rightarrow> string \<Rightarrow> bool" where
  "evidence peerPathless wantPath artistName items i \<longleftrightarrow>
     list_ex (\<lambda>it. paID it = i \<and> (path_hit wantPath it \<or> name_hit artistName peerPathless it)) items"

lemma dedupe_subset: "set (dedupe_items seen items) \<subseteq> set items"
  by (induction seen items rule: dedupe_items.induct) auto

lemma dedupe_ids: "distinct (map paID (dedupe_items seen items)) \<and>
    set (map paID (dedupe_items seen items)) \<inter> insert [] (set seen) = {}"
  by (induction seen items rule: dedupe_items.induct) auto

lemma resolvePathHits_in:
  "resolvePathHits hits w n c = Inr i \<Longrightarrow> \<exists>it\<in>set hits. paID it = i"
proof -
  assume a: "resolvePathHits hits w n c = Inr i"
  define named where "named = filter (\<lambda>it. n \<noteq> [] \<and> paName it = n) hits"
  have h: "hd xs \<in> set xs" if "length xs = 1" for xs :: "peer_artist list"
    using that by (cases xs) simp_all
  from a consider "length hits = 1" "i = paID (hd hits)"
    | "list_ex (\<lambda>it. paID it = c) hits" "i = c"
    | "length named = 1" "i = paID (hd named)"
    by (auto simp: resolvePathHits_def Let_def named_def split: if_splits)
  then show ?thesis
  proof cases
    case 1
    then show ?thesis using h by blast
  next
    case 2
    then show ?thesis by (auto simp: list_ex_iff)
  next
    case 3
    then show ?thesis using h [OF 3(1)] by (auto simp: named_def)
  qed
qed

lemma filter_single: "filter P xs = [x] \<Longrightarrow> x \<in> set xs \<and> P x"
  by (induction xs) (auto split: if_splits)

lemma single_hd: "length xs = 1 \<Longrightarrow> map f xs = [f (hd xs)]"
  by (cases xs) simp_all

lemma resolve_evidence:
  assumes "resolvePeerArtist items w n c pl = Inr i" "i \<noteq> []"
  shows "evidence pl w n items i"
proof -
  define ds where "ds = dedupe_items [] items"
  have sub: "set ds \<subseteq> set items" unfolding ds_def by (rule dedupe_subset)
  have "\<exists>it\<in>set ds. paID it = i \<and> (path_hit w it \<or> name_hit n pl it)"
  proof (cases "keepCurrentIfStillValid ds w n c pl = []")
    case False
    then have "i = c" "list_ex (\<lambda>it. paID it = c \<and> (path_hit w it \<or> name_hit n pl it)) ds"
      using assms(1) by (auto simp: resolvePeerArtist_def Let_def ds_def keepCurrentIfStillValid_def split: if_splits)
    then show ?thesis by (auto simp: list_ex_iff)
  next
    case k: True
    show ?thesis
    proof (cases "filter (path_hit w) ds = []")
      case False
      then have "resolvePathHits (filter (path_hit w) ds) w n c = Inr i"
        using assms(1) k by (simp add: resolvePeerArtist_def Let_def flip: ds_def)
      from resolvePathHits_in [OF this] show ?thesis by auto
    next
      case True
      then obtain it where "filter (\<lambda>it. \<not> path_hit w it \<and> name_hit n pl it) ds = [it]" "i = paID it"
        using assms k by (auto simp: resolvePeerArtist_def Let_def simp flip: ds_def split: list.splits)
      then have "it \<in> set ds \<and> name_hit n pl it" using filter_single by fast
      then show ?thesis using \<open>i = paID it\<close> by blast
    qed
  qed
  with sub show ?thesis by (auto simp: evidence_def list_ex_iff)
qed

text \<open>C11. An item is only ever chosen on evidence, and unambiguously: it sits at the wanted
  directory, or the peer gives no paths, it has none and carries the artist's name; and it is the
  link already held, or the only distinct item at the directory, or the only one there with the
  name, or, with nothing at the directory, the only pathless one with the name. So an abandoned item
  at another path, or a pathless item of a peer that has paths, is never linked.\<close>

theorem resolve_is_evidenced_and_unique:
  assumes "resolvePeerArtist items w n cur pl = Inr i" "i \<noteq> []"
  shows "evidence pl w n items i \<and>
    (i = cur \<or>
     (let ds = dedupe_items [] items in
      map paID (filter (path_hit w) ds) = [i] \<or>
      map paID (filter (\<lambda>it. path_hit w it \<and> n \<noteq> [] \<and> paName it = n) ds) = [i] \<or>
      filter (path_hit w) ds = [] \<and> map paID (filter (name_hit n pl) ds) = [i]))"
proof
  show "evidence pl w n items i" by (rule resolve_evidence [OF assms])
  define ds where "ds = dedupe_items [] items"
  define hits where "hits = filter (path_hit w) ds"
  define named where "named = filter (\<lambda>it. n \<noteq> [] \<and> paName it = n) hits"
  define names where "names = filter (\<lambda>it. \<not> path_hit w it \<and> name_hit n pl it) ds"
  have r: "resolvePeerArtist items w n cur pl =
      (if keepCurrentIfStillValid ds w n cur pl \<noteq> [] then Inr (keepCurrentIfStillValid ds w n cur pl)
       else if hits \<noteq> [] then resolvePathHits hits w n cur
       else case names of [] \<Rightarrow> Inr [] | [it] \<Rightarrow> Inr (paID it)
         | _ \<Rightarrow> Inl (AmbiguousName (length names) n))"
    unfolding resolvePeerArtist_def Let_def ds_def hits_def names_def by (rule refl)
  have nm: "named = filter (\<lambda>it. path_hit w it \<and> n \<noteq> [] \<and> paName it = n) ds"
    by (auto simp: named_def hits_def intro: filter_cong)
  have "i = cur \<or> map paID hits = [i] \<or> map paID named = [i] \<or> hits = [] \<and> map paID (filter (name_hit n pl) ds) = [i]"
  proof (cases "keepCurrentIfStillValid ds w n cur pl \<noteq> []")
    case True
    then show ?thesis using assms(1) unfolding r by (auto simp: keepCurrentIfStillValid_def split: if_splits)
  next
    case k: False
    show ?thesis
    proof (cases "hits = []")
      case False
      then have p: "resolvePathHits hits w n cur = Inr i" using assms(1) k unfolding r by simp
      then consider "length hits = 1" "i = paID (hd hits)" | "i = cur" | "length named = 1" "i = paID (hd named)"
        unfolding resolvePathHits_def Let_def named_def [symmetric] by (auto split: if_splits)
      then show ?thesis by cases (simp_all add: single_hd)
    next
      case True
      then have e: "names = filter (name_hit n pl) ds"
        unfolding names_def hits_def by (auto simp: filter_empty_conv intro: filter_cong)
      from True k obtain it where "names = [it]" "i = paID it"
        using assms unfolding r by (auto split: list.splits)
      then show ?thesis using True by (simp flip: e)
    qed
  qed
  then show "i = cur \<or>
     (let ds = dedupe_items [] items in
      map paID (filter (path_hit w) ds) = [i] \<or>
      map paID (filter (\<lambda>it. path_hit w it \<and> n \<noteq> [] \<and> paName it = n) ds) = [i] \<or>
      filter (path_hit w) ds = [] \<and> map paID (filter (name_hit n pl) ds) = [i])"
    unfolding Let_def ds_def [symmetric] hits_def [symmetric] nm [symmetric] .
qed

theorem resolve_is_evidenced_and_unique_witness:
  "evidence False ''/music/A'' ''A'' [\<lparr>paID = ''7'', paName = ''A'', paPath = ''/music/A/''\<rparr>] ''7''"
proof -
  have "resolvePeerArtist [\<lparr>paID = ''7'', paName = ''A'', paPath = ''/music/A/''\<rparr>] ''/music/A'' ''A'' ''3'' False = Inr ''7''"
    by code_simp
  then show ?thesis using resolve_is_evidenced_and_unique by blast
qed


section \<open>A rename upgrades links and drops none\<close>

fun event_listings :: "poll_event list \<Rightarrow> peer_artist list list" where
  "event_listings [] = []"
| "event_listings (Tick (Inr items) # events) = items # event_listings events"
| "event_listings (_ # events) = event_listings events"

definition script_listings :: "peer_script \<Rightarrow> peer_artist list list" where
  "script_listings script =
     (case psFirst script of Inr items \<Rightarrow> [items] | Inl _ \<Rightarrow> []) @ event_listings (psEvents script)"

definition relink_evidence :: "peer_script \<Rightarrow> bool \<Rightarrow> string \<Rightarrow> string \<Rightarrow> string \<Rightarrow> bool" where
  "relink_evidence script peerPathless wantPath artistName i \<longleftrightarrow>
     list_ex (\<lambda>items. evidence peerPathless wantPath artistName items i) (script_listings script)"

text \<open>The evidence a rename has for a new link on connection \<open>c\<close>.\<close>

definition rename_evidence :: "rename_env \<Rightarrow> string \<Rightarrow> string \<Rightarrow> string \<Rightarrow> bool" where
  "rename_evidence env newPath c i \<longleftrightarrow>
     (case envConn env c of
        Inl _ \<Rightarrow> False
      | Inr conn \<Rightarrow> connEnabled conn \<and> \<not> honorsPathWrites (connType conn) \<and>
          relink_evidence (envScript env (connID conn)) (peerIsPathless (connType conn))
            (MapArtistPath (Some conn) newPath) (artistNameFor env) i)"

text \<open>The connection service looks connections up by their identifier.\<close>

definition env_ok :: "rename_env \<Rightarrow> bool" where
  "env_ok env \<longleftrightarrow> (\<forall>c conn. envConn env c = Inr conn \<longrightarrow> connID conn = c)"





lemma SetPlatformID_Inr:
  assumes "links_ok rows" "SetPlatformID f now a c p rows = Inr rows'"
  shows "links_ok rows' \<and> link_map rows' = (link_map rows)((a, c) \<mapsto> p)"
  using assms by (auto simp: SetPlatformID_def repo_Set_Inr link_map_upsert links_ok_upsert split: if_splits)

lemma commitRelink_spec:
  assumes "links_ok rows" "commitRelink f now c a old new rows = (err, rows')"
  shows "rows' = rows \<and> (err = None \<longrightarrow> old = new) \<or>
    err = None \<and> links_ok rows' \<and> link_map rows' = (link_map rows)((a, c) \<mapsto> new)"
  using assms SetPlatformID_Inr [OF assms(1), of f now a c new]
  by (auto simp: commitRelink_def split: if_splits sum.splits)

text \<open>The three ways out of a relink: an error with the table untouched, or an evidenced item that is
  the current one, or that was written.\<close>

lemma relink_poll_spec:
  assumes "relink_poll resolve commit rows events = Some ((i, err), rows')"
  shows "rows' = rows \<and> err \<noteq> None \<and> i = [] \<or>
    i \<noteq> [] \<and> (\<exists>items\<in>set (event_listings events). resolve (Inr items) = Inr i) \<and> commit i = (err, rows') \<or>
    i \<noteq> [] \<and> (\<exists>e. resolve (Inl e) = Inr i)"
  using assms
proof (induction resolve commit rows events rule: relink_poll.induct)
  case (4 resolve commit rows listing events)
  show ?case
  proof (cases "resolve listing")
    case (Inl e)
    then show ?thesis using 4 by auto
  next
    case (Inr j)
    show ?thesis
    proof (cases "j = []")
      case True
      have "rows' = rows \<and> err \<noteq> None \<and> i = [] \<or>
          i \<noteq> [] \<and> (\<exists>items\<in>set (event_listings events). resolve (Inr items) = Inr i) \<and> commit i = (err, rows') \<or>
          i \<noteq> [] \<and> (\<exists>e. resolve (Inl e) = Inr i)"
        using 4 Inr True by simp
      then show ?thesis by (cases listing) auto
    next
      case False
      then have "i = j" "commit i = (err, rows')" using 4 Inr by (auto split: prod.splits)
      then show ?thesis using Inr False by (cases listing) auto
    qed
  qed
qed auto

lemma relinkArtist_spec:
  fixes env conn w n
  defines "E \<equiv> relink_evidence (envScript env (connID conn)) (peerIsPathless (connType conn)) w n"
  assumes "relinkArtist env conn a n w cur rows = Some ((i, err), rows')"
  shows "rows' = rows \<and> err \<noteq> None \<and> i = [] \<or>
    i \<noteq> [] \<and> E i \<and>
      commitRelink (envFaults env (connID conn)) (envNow env) (connID conn) a cur i rows = (err, rows')"
proof -
  define s where "s = envScript env (connID conn)"
  define pl where "pl = peerIsPathless (connType conn)"
  let ?r = "\<lambda>listing. tryResolve listing w n cur pl"
  let ?c = "\<lambda>j. commitRelink (envFaults env (connID conn)) (envNow env) (connID conn) a cur j rows"
  have ev: "evidence pl w n items j" if "?r (Inr items) = Inr j" "j \<noteq> []" for items j
    using that resolve_evidence by (simp add: tryResolve_def)
  have nl: "?r (Inl e) \<noteq> Inr j" for e j by (simp add: tryResolve_def)
  define scan where "scan = (if connType conn = TypeLidarr then None else psScan s)"
  have ra: "relinkArtist env conn a n w cur rows =
      (case ?r (psFirst s) of
         Inl e \<Rightarrow> Some (([], Some e), rows)
       | Inr j \<Rightarrow>
           if j \<noteq> [] then (case ?c j of (err, rows') \<Rightarrow> Some ((j, err), rows'))
           else case scan of
             Some e \<Rightarrow> Some (([], Some (ScanFailed e)), rows)
           | None \<Rightarrow> relink_poll ?r ?c rows (psEvents s))"
    unfolding relinkArtist_def Let_def s_def pl_def scan_def by (rule refl)
  note run = assms(2) [unfolded ra]
  show ?thesis
  proof (cases "?r (psFirst s)")
    case (Inl e)
    then show ?thesis using run by auto
  next
    case (Inr j)
    show ?thesis
    proof (cases "j = []")
      case False
      then have e: "i = j" "?c i = (err, rows')"
        using run Inr by (auto split: prod.splits)
      obtain items where items: "psFirst s = Inr items" using Inr nl by (cases "psFirst s") auto
      then have "evidence pl w n items i" using ev Inr False e by metis
      with items have "E i" by (simp add: E_def relink_evidence_def script_listings_def s_def pl_def)
      with e False show ?thesis by blast
    next
      case True
      show ?thesis
      proof (cases scan)
        case (Some e)
        then show ?thesis using run Inr True by auto
      next
        case None
        then have "relink_poll ?r ?c rows (psEvents s) = Some ((i, err), rows')"
          using run Inr True by simp
        from relink_poll_spec [OF this] consider "rows' = rows \<and> err \<noteq> None \<and> i = []"
          | items where "i \<noteq> []" "items \<in> set (event_listings (psEvents s))" "?r (Inr items) = Inr i" "?c i = (err, rows')"
          using nl by blast
        then show ?thesis
        proof cases
          case 1
          then show ?thesis by blast
        next
          case 2
          then have "E i" using ev by (auto simp: E_def relink_evidence_def script_listings_def s_def pl_def list_ex_iff)
          with 2 show ?thesis by blast
        qed
      qed
    qed
  qed
qed






lemma GetAll_conns: "set (map (\<lambda>r. (lkConn r, lkPlatform r)) (repo_GetAll a rows)) =
    (\<lambda>r. (lkConn r, lkPlatform r)) ` {r \<in> set rows. lkArtist r = a}"
  by (auto simp: repo_GetAll_def)






section \<open>Nothing is pushed outside the peer's roots\<close>

definition push_ok :: "rename_env \<Rightarrow> string \<Rightarrow> string \<times> string \<times> string \<Rightarrow> bool" where
  "push_ok env newPath push \<longleftrightarrow>
     (case push of (c, item, path) \<Rightarrow>
        (case envConn env c of
           Inl _ \<Rightarrow> False
         | Inr conn \<Rightarrow> connEnabled conn \<and> path = MapArtistPath (Some conn) newPath \<and>
             (case psRoots (envScript env (connID conn)) of Inl _ \<Rightarrow> False | Inr roots \<Rightarrow> PathWithinRoots path roots)))"

lemma syncOne_push_ok:
  "syncOne env a newPath pid rows = Some (r, rows', pushed) \<Longrightarrow> list_all (push_ok env newPath) pushed"
  by (cases pid)
    (auto simp: syncOne_def Let_def push_ok_def guardPlatformPath_def split: sum.splits if_splits option.splits)

lemma sync_all_push_ok:
  "sync_all env a newPath pids rows = Some (rs, rows', pushed) \<Longrightarrow> list_all (push_ok env newPath) pushed"
proof (induction pids arbitrary: rows rs pushed)
  case (Cons pid pids)
  then show ?case by (auto dest!: syncOne_push_ok split: option.splits)
qed simp

text \<open>C20. A path is pushed to a peer only when that connection is enabled, the path is the mapped
  form of the new path, the peer answered with its root folders and the path lies within one of
  them: an unreachable, unknown or empty root list refuses the push.\<close>

theorem rename_pushes_within_roots:
  assumes "SyncRename env a newPath rows = Some (results, rows', pushed)"
  shows "list_all (push_ok env newPath) pushed"
  using assms sync_all_push_ok
  by (auto simp: SyncRename_def split: option.splits prod.splits if_splits)

section \<open>A rename always reports\<close>

fun poll_ends :: "poll_event list \<Rightarrow> bool" where
  "poll_ends [] = False"
| "poll_ends (Tick _ # events) = poll_ends events"
| "poll_ends (_ # events) = True"

lemma relink_poll_returns: "poll_ends events \<Longrightarrow> \<exists>x. relink_poll resolve commit rows events = Some x"
  by (induction resolve commit rows events rule: relink_poll.induct) (auto split: sum.splits prod.splits)

lemma relinkArtist_returns:
  assumes "poll_ends (psEvents (envScript env (connID conn)))"
  shows "\<exists>x. relinkArtist env conn a n w cur rows = Some x"
  using relink_poll_returns [OF assms]
  by (auto simp: relinkArtist_def Let_def split: sum.splits prod.splits option.splits)

lemma syncOne_returns:
  assumes "\<And>c. poll_ends (psEvents (envScript env c))"
  shows "\<exists>r rows' pushed. syncOne env a newPath pid rows = Some (r, rows', pushed) \<and> rmConnectionID r = fst pid"
proof (cases pid)
  case (Pair c item)
  have "\<And>conn w. \<exists>x y. reconcilePeerLink env conn a w item rows = Some (x, y)"
  proof -
    fix conn w
    obtain i err rows1 where "relinkArtist env conn a (artistNameFor env) w item rows = Some ((i, err), rows1)"
      using relinkArtist_returns [OF assms] by (metis surj_pair)
    then show "\<exists>x y. reconcilePeerLink env conn a w item rows = Some (x, y)"
      by (cases err) (auto simp: reconcilePeerLink_def split: sum.splits)
  qed
  then obtain f g where "\<And>conn w. reconcilePeerLink env conn a w item rows = Some (f conn w, g conn w)"
    by metis
  then show ?thesis
    by (auto simp: Pair syncOne_def Let_def split: sum.splits option.splits)
qed

lemma sync_all_returns:
  assumes "\<And>c. poll_ends (psEvents (envScript env c))"
  shows "\<exists>rs rows' pushed. sync_all env a newPath pids rows = Some (rs, rows', pushed) \<and>
    map rmConnectionID rs = map fst pids"
proof (induction pids arbitrary: rows)
  case (Cons pid pids)
  obtain r rows1 pushed where 1: "syncOne env a newPath pid rows = Some (r, rows1, pushed)" "rmConnectionID r = fst pid"
    using syncOne_returns [OF assms] by blast
  obtain rs rows2 pushed2 where 2: "sync_all env a newPath pids rows1 = Some (rs, rows2, pushed2)"
    "map rmConnectionID rs = map fst pids"
    using Cons.IH by blast
  show ?case using 1 2 by auto
qed simp

text \<open>C37. A rename always reports: when every poll receives its deadline or its cancellation at some
  point, after any number of listings, the rename returns, with one result per link of the artist
  and per healed link, in their order, or the one result that says the links could not be read.\<close>

theorem rename_returns:
  assumes "\<forall>c. poll_ends (psEvents (envScript env c))"
  shows "\<exists>results rows' pushed. SyncRename env a newPath rows = Some (results, rows', pushed) \<and>
    map rmConnectionID results =
      (if envListErr env = None then map fst (fst (rename_targets env a rows)) else [[]])"
proof (cases "envListErr env")
  case None
  obtain targets rows1 where t: "rename_targets env a rows = (targets, rows1)"
    by (cases "rename_targets env a rows")
  show ?thesis
    using sync_all_returns [of env a newPath targets rows1] assms
    by (cases "targets = []") (auto simp: SyncRename_def None t)
qed (simp add: SyncRename_def)


section \<open>What a green result means\<close>

lemma reconcile_ok:
  assumes "links_ok rows" "reconcilePeerLink env conn a w item rows = Some (PlatformRemapOK, rows')"
    and "link_map rows (a, connID conn) = Some item"
  shows "(\<exists>got. psReadBack (envScript env (connID conn)) = Inr got \<and> SamePeerPath got w) \<and> rows' = rows \<or>
    \<not> honorsPathWrites (connType conn) \<and>
    (\<exists>q. link_map rows' (a, connID conn) = Some q \<and>
       relink_evidence (envScript env (connID conn)) (peerIsPathless (connType conn)) w (artistNameFor env) q)"
proof (cases "psReadBack (envScript env (connID conn))")
  case (Inl e)
  then show ?thesis using assms(2) by (auto simp: reconcilePeerLink_def verifyPeerPath_def split: if_splits)
next
  case (Inr got)
  show ?thesis
  proof (cases "SamePeerPath got w")
    case True
    then show ?thesis using assms(2) Inr by (auto simp: reconcilePeerLink_def verifyPeerPath_def split: if_splits)
  next
    case False
    then obtain i where nh: "\<not> honorsPathWrites (connType conn)"
      and rl: "relinkArtist env conn a (artistNameFor env) w item rows = Some ((i, None), rows')"
      using assms(2) Inr by (auto simp: reconcilePeerLink_def verifyPeerPath_def split: if_splits option.splits)
    from relinkArtist_spec [OF rl]
    have e: "relink_evidence (envScript env (connID conn)) (peerIsPathless (connType conn)) w (artistNameFor env) i"
      and cm: "commitRelink (envFaults env (connID conn)) (envNow env) (connID conn) a item i rows = (None, rows')"
      by auto
    from commitRelink_spec [OF assms(1) cm] assms(3) have "link_map rows' (a, connID conn) = Some i" by auto
    with e nh show ?thesis by blast
  qed
qed

text \<open>C14. A green result for a connection means what it says: the connection was disabled and nothing
  was sent, or the mapped path was pushed and either the peer's own read-back shows that path and
  the link was left alone, or the link in force is now to an item the peer's listings evidence at
  that path. The peer's status code alone is never enough.\<close>

theorem rename_ok_is_verified:
  assumes "env_ok env" "links_ok rows" "syncOne env a newPath (c, item) rows = Some (r, rows', pushed)"
    and "rmResult r = PlatformRemapOK" "link_map rows (a, c) = Some item"
  shows "\<exists>conn. envConn env c = Inr conn \<and>
    (\<not> connEnabled conn \<and> pushed = [] \<and> rows' = rows \<or>
     (let path = MapArtistPath (Some conn) newPath in
      pushed = [(c, item, path)] \<and>
      ((\<exists>got. psReadBack (envScript env c) = Inr got \<and> SamePeerPath got path) \<and> rows' = rows \<or>
       (\<exists>q. link_map rows' (a, c) = Some q \<and> rename_evidence env newPath c q))))"
proof -
  from assms(3,4) obtain conn where conn: "envConn env c = Inr conn"
    by (auto simp: syncOne_def split: sum.splits)
  have id: "connID conn = c" using assms(1) conn by (simp add: env_ok_def)
  show ?thesis
  proof (cases "connEnabled conn")
    case False
    then show ?thesis using assms(3) conn by (simp add: syncOne_def)
  next
    case True
    then have "reconcilePeerLink env conn a (MapArtistPath (Some conn) newPath) item rows = Some (PlatformRemapOK, rows')"
      and p: "pushed = [(c, item, MapArtistPath (Some conn) newPath)]"
      using assms(3,4) conn by (auto simp: syncOne_def Let_def split: if_splits option.splits)
    from reconcile_ok [OF assms(2) this(1)] assms(5) conn p id True show ?thesis
      by (auto simp: Let_def rename_evidence_def)
  qed
qed

section \<open>A finished scan is followed\<close>

lemma relink_poll_quiet:
  "list_all (\<lambda>listing. resolve listing = Inr []) quiet \<Longrightarrow>
     relink_poll resolve commit rows (map Tick quiet @ events) = relink_poll resolve commit rows events"
  by (induction quiet) simp_all

lemma commit_works:
  assumes "links_ok rows" "link_map rows (a, c) = Some cur" "\<not> spec_claimed a c i (link_map rows)"
    and "a \<noteq> []" "c \<noteq> []" "i \<noteq> []"
  shows "\<exists>rows'. commitRelink no_faults now c a cur i rows = (None, rows') \<and>
    link_map rows' = (link_map rows)((a, c) \<mapsto> i)"
proof (cases "cur = i")
  case True
  then show ?thesis using assms(2) by (auto simp: commitRelink_def fun_upd_idem)
next
  case False
  have "holder_of c i rows = None \<or> holder_of c i rows = Some a"
    using claimed_iff [OF assms(1)] assms(3) by blast
  then have "SetPlatformID no_faults now a c i rows = Inr (upsert now a c i rows)"
    using assms(4-6) by (simp add: SetPlatformID_def repo_Set_Inr no_faults_def)
  then show ?thesis using False by (simp add: commitRelink_def link_map_upsert)
qed

text \<open>The relink follows a finished scan: when the first listing shows nothing yet, the scan
  starts, and after any number of listings that show nothing one shows the item, the relink returns
  that item without an error and the link now names it, provided no other artist holds it and the
  database works.\<close>

theorem relink_follows_the_scan:
  fixes env conn w n cur
  defines "resolve \<equiv> \<lambda>listing. tryResolve listing w n cur (peerIsPathless (connType conn))"
    and "script \<equiv> envScript env (connID conn)"
  assumes "resolve (psFirst script) = Inr []" "psScan script = None"
    and "psEvents script = map Tick quiet @ Tick listing # events"
    and "list_all (\<lambda>l. resolve l = Inr []) quiet" "resolve listing = Inr i" "i \<noteq> []"
    and "links_ok rows" "link_map rows (a, connID conn) = Some cur"
    and "\<not> spec_claimed a (connID conn) i (link_map rows)"
    and "envFaults env (connID conn) = no_faults" "a \<noteq> []" "connID conn \<noteq> []"
  shows "\<exists>rows'. relinkArtist env conn a n w cur rows = Some ((i, None), rows') \<and>
    link_map rows' = (link_map rows)((a, connID conn) \<mapsto> i)"
proof -
  obtain rows' where c: "commitRelink no_faults (envNow env) (connID conn) a cur i rows = (None, rows')"
    "link_map rows' = (link_map rows)((a, connID conn) \<mapsto> i)"
    using commit_works [OF assms(9-11,13,14,8)] by blast
  have p: "relink_poll resolve commit rows (psEvents script) =
      (case commit i of (err, rows') \<Rightarrow> Some ((i, err), rows'))" for commit :: "string \<Rightarrow> relink_error option \<times> link list"
    unfolding assms(5) relink_poll_quiet [OF assms(6)] using assms(7,8) by simp
  show ?thesis
    using assms(3,4) p c assms(12)
    by (cases "connType conn = TypeLidarr") (simp_all add: relinkArtist_def Let_def resolve_def script_def)
qed

section \<open>A concrete rename\<close>

text \<open>A Jellyfin server that mounts \<open>/host/music\<close> as \<open>/music\<close>, ignores the path write, and shows the
  moved directory on the second look.\<close>

definition demo_conn :: connection where
  "demo_conn = \<lparr>connID = ''j'', connName = ''JF'', connType = TypeJellyfin, connEnabled = True,
     connPathMappings = [\<lparr>pmHostPrefix = ''/host/music/'', pmPlatformPrefix = ''/music''\<rparr>]\<rparr>"

definition demo_script :: peer_script where
  "demo_script = \<lparr>psRoots = Inr [''/music/''], psUpdate = None, psReadBack = Inr ''/music/Old'',
     psFirst = Inr [\<lparr>paID = ''7'', paName = ''A'', paPath = ''/music/Old''\<rparr>], psScan = None,
     psEvents = [Tick (Inr [\<lparr>paID = ''7'', paName = ''A'', paPath = ''/music/Old''\<rparr>,
                            \<lparr>paID = ''9'', paName = ''A'', paPath = ''/music/New''\<rparr>]), BudgetExpired]\<rparr>"

definition demo_env :: rename_env where
  "demo_env = \<lparr>envConn = (\<lambda>c. if c = ''j'' then Inr demo_conn else Inl ''connection not found''),
     envScript = (\<lambda>_. demo_script),
     envArtist = Some (Inr (Some \<lparr>arName = ''A'', arPath = ''/host/music/New'', arMBID = []\<rparr>)),
     envListErr = None, envFaults = (\<lambda>_. no_faults), envNow = ''t2'',
     envLidarr = Inr [], envLidarrArtists = (\<lambda>_. Inr [])\<rparr>"

definition demo_rows :: "link list" where
  "demo_rows = [\<lparr>lkArtist = ''a'', lkConn = ''j'', lkPlatform = ''7'', lkCreated = ''t1'', lkUpdated = ''t1''\<rparr>]"

definition demo_after :: "link list" where
  "demo_after = [\<lparr>lkArtist = ''a'', lkConn = ''j'', lkPlatform = ''9'', lkCreated = ''t1'', lkUpdated = ''t2''\<rparr>]"

lemma demo_ok: "env_ok demo_env" "links_ok demo_rows" "link_map demo_rows (''a'', ''j'') = Some ''7''"
  by (auto simp: env_ok_def demo_env_def demo_conn_def links_ok_def demo_rows_def link_map_def has_key_def
      split: if_splits)

lemma demo_one:
  "syncOne demo_env ''a'' ''/host/music/New'' (''j'', ''7'') demo_rows =
     Some (\<lparr>rmConnectionID = ''j'', rmResult = PlatformRemapOK\<rparr>, demo_after, [(''j'', ''7'', ''/music/New'')])"
  by code_simp

lemma demo_run:
  "SyncRename demo_env ''a'' ''/host/music/New'' demo_rows =
     Some ([\<lparr>rmConnectionID = ''j'', rmResult = PlatformRemapOK\<rparr>], demo_after, [(''j'', ''7'', ''/music/New'')])"
  by code_simp


theorem rename_pushes_within_roots_witness:
  "list_all (push_ok demo_env ''/host/music/New'') [(''j'', ''7'', ''/music/New'')]"
  by (rule rename_pushes_within_roots [OF demo_run])

theorem rename_returns_witness:
  "\<exists>results rows' pushed. SyncRename demo_env ''a'' ''/x'' demo_rows = Some (results, rows', pushed) \<and>
     length results = 1"
proof -
  have e: "\<forall>c. poll_ends (psEvents (envScript demo_env c))" by (simp add: demo_env_def demo_script_def)
  have l: "length (if envListErr demo_env = None then map fst (fst (rename_targets demo_env ''a'' demo_rows)) else [[]]) = 1"
    by code_simp
  show ?thesis using rename_returns [OF e, of "''a''" "''/x''" demo_rows] l by (metis length_map)
qed

theorem rename_ok_is_verified_witness:
  "\<exists>conn. envConn demo_env ''j'' = Inr conn \<and> connEnabled conn"
proof -
  have "rmResult \<lparr>rmConnectionID = ''j'', rmResult = PlatformRemapOK\<rparr> = PlatformRemapOK" by simp
  from rename_ok_is_verified [OF demo_ok(1,2) demo_one this demo_ok(3)]
  show ?thesis by (auto simp: demo_env_def demo_conn_def)
qed

theorem relink_follows_the_scan_witness:
  "\<exists>rows'. relinkArtist demo_env demo_conn ''a'' ''A'' ''/music/New'' ''7'' demo_rows = Some ((''9'', None), rows') \<and>
     link_map rows' = (link_map demo_rows)((''a'', ''j'') \<mapsto> ''9'')"
proof -
  define items where "items = [\<lparr>paID = ''7'', paName = ''A'', paPath = ''/music/Old''\<rparr>,
     \<lparr>paID = ''9'', paName = ''A'', paPath = ''/music/New''\<rparr>]"
  have j: "connID demo_conn = ''j''" by (simp add: demo_conn_def)
  have "tryResolve (psFirst (envScript demo_env (connID demo_conn))) ''/music/New'' ''A'' ''7'' (peerIsPathless (connType demo_conn)) = Inr []"
    and "psScan (envScript demo_env (connID demo_conn)) = None"
    and "psEvents (envScript demo_env (connID demo_conn)) = map Tick [] @ Tick (Inr items) # [BudgetExpired]"
    and "tryResolve (Inr items) ''/music/New'' ''A'' ''7'' (peerIsPathless (connType demo_conn)) = Inr ''9''"
    unfolding items_def by code_simp+
  moreover have "\<not> spec_claimed ''a'' (connID demo_conn) ''9'' (link_map demo_rows)"
    by (auto simp: spec_claimed_def demo_rows_def link_map_def has_key_def split: if_splits)
  moreover have "envFaults demo_env (connID demo_conn) = no_faults" by (simp add: demo_env_def)
  ultimately show ?thesis
    using relink_follows_the_scan [of demo_env demo_conn "''/music/New''" "''A''" "''7''" "[]" "Inr items"
        "[BudgetExpired]" "''9''" demo_rows "''a''"] demo_ok(2,3) j by simp
qed

end
