(* ===== verification/Reconcile.thy ===== *)
theory Reconcile
  imports Relink
begin

text \<open>
  The background relink reconciler (\<open>internal/publish/relink_reconcile.go\<close>). A run is a function of its
  environment and the link table; the writes other requests make meanwhile are part of the
  environment, at the three places where they can matter: before an artist's links are read, between
  that read and the re-read, and in the gap between the re-read and the write that the code accepts.
  The start-up delay, the ticker and the panic guard around a run are not modelled.
\<close>

section \<open>A run of the reconciler\<close>

record rec_counters =
  rcChecked :: nat
  rcUpgraded :: nat
  rcNoConn :: nat
  rcDisabled :: nat
  rcListErr :: nat
  rcLoadErr :: nat
  rcPeerType :: nat
  rcNoResolver :: nat
  rcResolveErr :: nat

definition zero_counters :: rec_counters where
  "zero_counters = \<lparr>rcChecked = 0, rcUpgraded = 0, rcNoConn = 0, rcDisabled = 0, rcListErr = 0,
     rcLoadErr = 0, rcPeerType = 0, rcNoResolver = 0, rcResolveErr = 0\<rparr>"

text \<open>The answers a run gets, and the writes of other requests that land in it: before the links of
  the \<open>k\<close>-th artist are read, between that read and the re-read at the \<open>n\<close>-th mapping, and in the gap
  between the re-read and the write.\<close>

record rec_env =
  reGetter :: bool
  reListErr :: "string option"
  reArtist :: "string \<Rightarrow> string + artist_row option"
  rePidsErr :: "string \<Rightarrow> string option"
  reConn :: "string \<Rightarrow> string + connection option"
  reListing :: "string \<Rightarrow> string + peer_artist list"
  reRereadErr :: "nat \<Rightarrow> string option"
  reFaults :: "string \<Rightarrow> db_faults"
  reNow :: string
  reBefore :: "nat \<Rightarrow> link list \<Rightarrow> link list"
  reForeign :: "nat \<Rightarrow> link list \<Rightarrow> link list"
  reGap :: "nat \<Rightarrow> link list \<Rightarrow> link list"
  reCancelled :: "nat \<Rightarrow> bool"

text \<open>The table, the per-run cache of listings (None for a listing that failed), the connections asked
  so far, and the counters.\<close>

record rec_state =
  rsRows :: "link list"
  rsCache :: "(string \<times> peer_artist list option) list"
  rsFetched :: "string list"
  rsCount :: rec_counters

definition rec_peerArtists :: "rec_env \<Rightarrow> connection \<Rightarrow> rec_state \<Rightarrow> peer_artist list option \<times> rec_state" where
  "rec_peerArtists env conn st =
     (case map_of (rsCache st) (connID conn) of
        Some items \<Rightarrow> (items, st)
      | None \<Rightarrow>
          (case reListing env (connID conn) of
             Inl e \<Rightarrow>
               (None, st\<lparr>rsCount := rsCount st\<lparr>rcListErr := rcListErr (rsCount st) + 1\<rparr>,
                         rsCache := (connID conn, None) # rsCache st,
                         rsFetched := rsFetched st @ [connID conn]\<rparr>)
           | Inr listed \<Rightarrow>
               (Some listed, st\<lparr>rsCache := (connID conn, Some listed) # rsCache st,
                                 rsFetched := rsFetched st @ [connID conn]\<rparr>)))"

definition bump :: "(rec_counters \<Rightarrow> rec_counters) \<Rightarrow> rec_state \<Rightarrow> rec_state" where
  "bump f st = st\<lparr>rsCount := f (rsCount st)\<rparr>"

text \<open>The last part of \<open>reconcileMapping\<close>: the re-read, the check against the snapshot, the write.\<close>

definition reconcile_write ::
  "rec_env \<Rightarrow> connection \<Rightarrow> string \<Rightarrow> string \<times> string \<Rightarrow> string \<Rightarrow> rec_state \<Rightarrow> rec_state" where
  "reconcile_write env conn artistID pid resolvedID st =
     (let n = rcChecked (rsCount st); rows1 = reForeign env n (rsRows st); st1 = st\<lparr>rsRows := rows1\<rparr> in
      case reRereadErr env n of
        Some e \<Rightarrow> st1
      | None \<Rightarrow>
          (let stillMatches =
             (case find (\<lambda>l. lkConn l = fst pid) (repo_GetAll artistID rows1) of
                None \<Rightarrow> False | Some l \<Rightarrow> lkPlatform l = snd pid) in
           if \<not> stillMatches then st1
           else case commitRelink (reFaults env (connID conn)) (reNow env) (connID conn) artistID (snd pid)
                       resolvedID (reGap env n rows1) of
             (Some e, rows2) \<Rightarrow> st1\<lparr>rsRows := rows2\<rparr>
           | (None, rows2) \<Rightarrow> bump (\<lambda>c. c\<lparr>rcUpgraded := rcUpgraded c + 1\<rparr>) (st1\<lparr>rsRows := rows2\<rparr>)))"

definition reconcileMapping ::
  "rec_env \<Rightarrow> string \<Rightarrow> string \<Rightarrow> string \<Rightarrow> string \<times> string \<Rightarrow> rec_state \<Rightarrow> rec_state" where
  "reconcileMapping env artistID artistName artistPath pid st =
     (case reConn env (fst pid) of
        Inl e \<Rightarrow> bump (\<lambda>c. c\<lparr>rcNoConn := rcNoConn c + 1\<rparr>) st
      | Inr None \<Rightarrow> bump (\<lambda>c. c\<lparr>rcNoConn := rcNoConn c + 1\<rparr>) st
      | Inr (Some conn) \<Rightarrow>
          if \<not> connEnabled conn then bump (\<lambda>c. c\<lparr>rcDisabled := rcDisabled c + 1\<rparr>) st
          else if \<not> peerIsFolderBacked (connType conn) then bump (\<lambda>c. c\<lparr>rcPeerType := rcPeerType c + 1\<rparr>) st
          else if \<not> relinkResolverFactory (connType conn) then bump (\<lambda>c. c\<lparr>rcNoResolver := rcNoResolver c + 1\<rparr>) st
          else case rec_peerArtists env conn st of
            (None, st1) \<Rightarrow> st1
          | (Some items, st1) \<Rightarrow>
              (let wantPath = MapArtistPath (Some conn) artistPath in
               case resolvePeerArtist items wantPath artistName (snd pid) (peerIsPathless (connType conn)) of
                 Inl e \<Rightarrow> bump (\<lambda>c. c\<lparr>rcResolveErr := rcResolveErr c + 1\<rparr>) st1
               | Inr resolvedID \<Rightarrow>
                   if resolvedID = [] \<or> resolvedID = snd pid then st1
                   else reconcile_write env conn artistID pid resolvedID st1))"

definition reconcileArtist :: "rec_env \<Rightarrow> nat \<Rightarrow> string \<Rightarrow> rec_state \<Rightarrow> rec_state" where
  "reconcileArtist env k artistID st =
     (case reArtist env artistID of
        Inl e \<Rightarrow> bump (\<lambda>c. c\<lparr>rcLoadErr := rcLoadErr c + 1\<rparr>) st
      | Inr None \<Rightarrow> bump (\<lambda>c. c\<lparr>rcLoadErr := rcLoadErr c + 1\<rparr>) st
      | Inr (Some a) \<Rightarrow>
          (let st1 = st\<lparr>rsRows := reBefore env k (rsRows st)\<rparr> in
           case rePidsErr env artistID of
             Some e \<Rightarrow> bump (\<lambda>c. c\<lparr>rcLoadErr := rcLoadErr c + 1\<rparr>) st1
           | None \<Rightarrow>
               fold (\<lambda>pid st. reconcileMapping env artistID (arName a) (arPath a) pid
                       (bump (\<lambda>c. c\<lparr>rcChecked := rcChecked c + 1\<rparr>) st))
                 (map (\<lambda>l. (lkConn l, lkPlatform l)) (repo_GetAll artistID (rsRows st1))) st1))"

fun reconcile_loop :: "rec_env \<Rightarrow> nat \<Rightarrow> string list \<Rightarrow> rec_state \<Rightarrow> rec_state" where
  "reconcile_loop env k [] st = st"
| "reconcile_loop env k (artistID # ids) st =
     (if reCancelled env k then st
      else reconcile_loop env (k + 1) ids (reconcileArtist env k artistID st))"

definition ReconcileRelinks :: "rec_env \<Rightarrow> link list \<Rightarrow> rec_state" where
  "ReconcileRelinks env rows =
     (let st = \<lparr>rsRows = rows, rsCache = [], rsFetched = [], rsCount = zero_counters\<rparr> in
      case reListErr env of
        Some e \<Rightarrow> st
      | None \<Rightarrow>
          (let artistIDs = ListArtistsWithPlatformMappings rows in
           if artistIDs = [] \<or> \<not> reGetter env then st
           else reconcile_loop env 0 artistIDs st))"

section \<open>The run as a sequence of steps\<close>

text \<open>What may happen to the table during a run: a write of another request, or an upgrade. An
  upgrade replaces the link that the re-read, on the very table another request may have changed,
  found to be the one the run had read; its connection is an enabled folder-backed one, and the
  peer's listing shows the new item at the artist's path.\<close>

definition path_evidence :: "rec_env \<Rightarrow> string \<Rightarrow> string \<Rightarrow> string \<Rightarrow> bool" where
  "path_evidence env a c i \<longleftrightarrow>
     (case reConn env c of
        Inr (Some conn) \<Rightarrow>
          connEnabled conn \<and> connType conn = TypeJellyfin \<and>
          (case (reArtist env a, reListing env c) of
             (Inr (Some row), Inr items) \<Rightarrow>
               list_ex (\<lambda>it. paID it = i \<and> SamePeerPath (paPath it) (MapArtistPath (Some conn) (arPath row))) items
           | _ \<Rightarrow> False)
      | _ \<Rightarrow> False)"

inductive rec_step :: "rec_env \<Rightarrow> link list \<Rightarrow> link list \<Rightarrow> bool" for env where
  before: "rec_step env rows (reBefore env k rows)"
| foreign: "rec_step env rows (reForeign env n rows)"
| upgrade: "list_ex (\<lambda>l. has_key a c l \<and> lkPlatform l = old) rows \<Longrightarrow> old \<noteq> i \<Longrightarrow> path_evidence env a c i \<Longrightarrow>
    commitRelink (reFaults env c) (reNow env) c a old i (reGap env n rows) = (err, rows') \<Longrightarrow>
    rec_step env rows rows'"

definition rec_env_ok :: "rec_env \<Rightarrow> bool" where
  "rec_env_ok env \<longleftrightarrow> (\<forall>c conn. reConn env c = Inr (Some conn) \<longrightarrow> connID conn = c)"

text \<open>The cache holds what the peers answered, for the connections asked, and each was asked once.\<close>

definition cache_ok :: "rec_env \<Rightarrow> rec_state \<Rightarrow> bool" where
  "cache_ok env st \<longleftrightarrow>
     distinct (rsFetched st) \<and> set (rsFetched st) = fst ` set (rsCache st) \<and>
     (\<forall>(c, items) \<in> set (rsCache st). case reListing env c of Inl _ \<Rightarrow> items = None | Inr l \<Rightarrow> items = Some l) \<and>
     (\<forall>c \<in> set (rsFetched st). case reConn env c of
        Inr (Some conn) \<Rightarrow> connEnabled conn \<and> connType conn = TypeJellyfin | _ \<Rightarrow> False)"

definition run_inv :: "rec_env \<Rightarrow> link list \<Rightarrow> rec_state \<Rightarrow> bool" where
  "run_inv env rows st \<longleftrightarrow> cache_ok env st \<and> (rec_step env)\<^sup>*\<^sup>* rows (rsRows st)"

lemma bump_inv [simp]: "run_inv env rows (bump f st) \<longleftrightarrow> run_inv env rows st"
  by (simp add: run_inv_def cache_ok_def bump_def)

lemma rows_inv: "run_inv env rows st \<Longrightarrow> rec_step env (rsRows st) r \<Longrightarrow> run_inv env rows (st\<lparr>rsRows := r\<rparr>)"
  by (auto simp: run_inv_def cache_ok_def intro: rtranclp.rtrancl_into_rtrancl)

lemma peerArtists_inv:
  assumes "run_inv env rows st" "rec_peerArtists env conn st = (items, st')"
    and "reConn env (connID conn) = Inr (Some conn)" "connEnabled conn" "connType conn = TypeJellyfin"
  shows "run_inv env rows st' \<and> rsRows st' = rsRows st \<and> rcChecked (rsCount st') = rcChecked (rsCount st) \<and>
    (case reListing env (connID conn) of Inl _ \<Rightarrow> items = None | Inr l \<Rightarrow> items = Some l)"
proof (cases "map_of (rsCache st) (connID conn)")
  case (Some x)
  then have "(connID conn, x) \<in> set (rsCache st)" by (rule map_of_SomeD)
  then show ?thesis using assms(1,2) Some
    by (auto simp: rec_peerArtists_def run_inv_def cache_ok_def)
next
  case None
  define c where "c = connID conn"
  have n: "c \<notin> fst ` set (rsCache st)" using None by (simp add: c_def map_of_eq_None_iff)
  have ok: "cache_ok env st" and reach: "(rec_step env)\<^sup>*\<^sup>* rows (rsRows st)"
    using assms(1) by (simp_all add: run_inv_def)
  have "c \<notin> set (rsFetched st)" using ok n by (simp add: cache_ok_def)
  moreover have "case reConn env c of Inr (Some conn) \<Rightarrow> connEnabled conn \<and> connType conn = TypeJellyfin | _ \<Rightarrow> False"
    using assms(3-5) by (simp add: c_def)
  moreover define got where "got = (case reListing env c of Inl _ \<Rightarrow> None | Inr l \<Rightarrow> Some l)"
  have got: "rsFetched st' = rsFetched st @ [c]" "rsCache st' = (c, got) # rsCache st"
    "rsRows st' = rsRows st" "items = got" "rcChecked (rsCount st') = rcChecked (rsCount st)"
    "case reListing env c of Inl _ \<Rightarrow> got = None | Inr l \<Rightarrow> got = Some l"
    using assms(2) None by (cases "reListing env (connID conn)"; force simp: rec_peerArtists_def c_def got_def)+
  ultimately have "cache_ok env st'" using ok unfolding cache_ok_def got(1,2) by simp
  then show ?thesis using reach got(3,5,6) unfolding run_inv_def c_def got(4) by simp
qed

lemma folder_resolve:
  assumes "resolvePeerArtist items w n cur False = Inr i" "i \<noteq> []"
  shows "list_ex (\<lambda>it. paID it = i \<and> SamePeerPath (paPath it) w) items"
  using resolve_evidence [OF assms] by (auto simp: evidence_def name_hit_def path_hit_def list_ex_iff)

lemma reconcile_write_inv:
  assumes "run_inv env rows st" "connID conn = fst pid" "snd pid \<noteq> i" "path_evidence env a (fst pid) i"
  shows "run_inv env rows (reconcile_write env conn a pid i st)"
proof -
  let ?n = "rcChecked (rsCount st)"
  let ?rows1 = "reForeign env ?n (rsRows st)"
  let ?st1 = "st\<lparr>rsRows := ?rows1\<rparr>"
  let ?m = "case find (\<lambda>l. lkConn l = fst pid) (repo_GetAll a ?rows1) of None \<Rightarrow> False | Some l \<Rightarrow> lkPlatform l = snd pid"
  have 1: "run_inv env rows ?st1" by (rule rows_inv [OF assms(1) rec_step.foreign])
  obtain err rows2 where cm: "commitRelink (reFaults env (connID conn)) (reNow env) (connID conn) a (snd pid) i
      (reGap env ?n ?rows1) = (err, rows2)" by (cases "commitRelink (reFaults env (connID conn)) (reNow env) (connID conn) a (snd pid) i (reGap env ?n ?rows1)")
  have 2: "run_inv env rows (?st1\<lparr>rsRows := rows2\<rparr>)" if "?m"
  proof -
    from that obtain l where "find (\<lambda>l. lkConn l = fst pid) (repo_GetAll a ?rows1) = Some l" "lkPlatform l = snd pid"
      by (auto split: option.splits)
    then have "l \<in> set (repo_GetAll a ?rows1)" "lkConn l = fst pid" "lkPlatform l = snd pid"
      by (auto simp: find_Some_iff)
    then have "list_ex (\<lambda>l. has_key a (fst pid) l \<and> lkPlatform l = snd pid) ?rows1"
      by (auto simp: list_ex_iff has_key_def repo_GetAll_def)
    from rec_step.upgrade [OF this assms(3,4) cm [unfolded assms(2)]]
    show ?thesis using rows_inv [OF 1] by simp
  qed
  show ?thesis
    using 1 2 cm by (auto simp: reconcile_write_def Let_def split: option.splits)
qed


lemma reconcileMapping_inv:
  assumes "rec_env_ok env" "run_inv env rows st" "reArtist env a = Inr (Some row)"
  shows "run_inv env rows (reconcileMapping env a (arName row) (arPath row) pid st)"
proof -
  show ?thesis
  proof (cases "\<exists>conn. reConn env (fst pid) = Inr (Some conn) \<and> connEnabled conn \<and> connType conn = TypeJellyfin")
    case False
    then show ?thesis
      using assms(2) by (auto simp: reconcileMapping_def peerIsFolderBacked_def split: sum.split option.split)
  next
    case True
    then obtain conn where 2: "reConn env (fst pid) = Inr (Some conn)" "connEnabled conn" "connType conn = TypeJellyfin"
      by blast
    have id: "connID conn = fst pid" using assms(1) 2(1) by (simp add: rec_env_ok_def)
    have jf: "peerIsFolderBacked (connType conn)" "relinkResolverFactory (connType conn)" "peerIsPathless (connType conn) = False"
      using 2(3) by (simp_all add: peerIsFolderBacked_def relinkResolverFactory_def peerIsPathless_def
          TypeJellyfin_def TypeEmby_def)
    obtain items st1 where pa: "rec_peerArtists env conn st = (items, st1)" by (cases "rec_peerArtists env conn st")
    note inv1 = peerArtists_inv [OF assms(2) pa 2(1) [folded id] 2(2,3)]
    have m: "reconcileMapping env a (arName row) (arPath row) pid st =
        (case items of None \<Rightarrow> st1
         | Some items \<Rightarrow>
             (case resolvePeerArtist items (MapArtistPath (Some conn) (arPath row)) (arName row) (snd pid) False of
                Inl e \<Rightarrow> bump (\<lambda>c. c\<lparr>rcResolveErr := rcResolveErr c + 1\<rparr>) st1
              | Inr i \<Rightarrow> if i = [] \<or> i = snd pid then st1 else reconcile_write env conn a pid i st1))"
      using 2 jf by (cases items) (simp_all add: reconcileMapping_def pa Let_def)
    show ?thesis
    proof (cases items)
      case None
      then show ?thesis using inv1 m by simp
    next
      case (Some l)
      have li: "reListing env (fst pid) = Inr l" using inv1 Some id by (auto split: sum.splits)
      show ?thesis
      proof (cases "resolvePeerArtist l (MapArtistPath (Some conn) (arPath row)) (arName row) (snd pid) False")
        case (Inl e)
        then show ?thesis using inv1 m Some by simp
      next
        case (Inr i)
        show ?thesis
        proof (cases "i = [] \<or> i = snd pid")
          case True
          then show ?thesis using inv1 m Some Inr by simp
        next
          case False
          then have "path_evidence env a (fst pid) i"
            using folder_resolve [OF Inr] 2 assms(3) li by (simp add: path_evidence_def)
          then have "run_inv env rows (reconcile_write env conn a pid i st1)"
            using reconcile_write_inv [OF _ id] inv1 False by metis
          then show ?thesis using m Some Inr False by simp
        qed
      qed
    qed
  qed
qed

lemma reconcileArtist_inv:
  assumes "rec_env_ok env" "run_inv env rows st"
  shows "run_inv env rows (reconcileArtist env k a st)"
proof -
  show ?thesis
  proof (cases "\<exists>row. reArtist env a = Inr (Some row)")
    case False
    then show ?thesis using assms(2) by (auto simp: reconcileArtist_def split: sum.split option.split)
  next
    case True
    then obtain row where 2: "reArtist env a = Inr (Some row)" by blast
    have b: "run_inv env rows (st\<lparr>rsRows := reBefore env k (rsRows st)\<rparr>)"
      by (rule rows_inv [OF assms(2) rec_step.before])
    have f: "run_inv env rows s \<Longrightarrow> run_inv env rows (fold (\<lambda>pid st. reconcileMapping env a (arName row) (arPath row) pid
        (bump (\<lambda>c. c\<lparr>rcChecked := rcChecked c + 1\<rparr>) st)) pids s)" for pids s
      by (induction pids arbitrary: s) (simp_all add: reconcileMapping_inv assms(1) 2)
    show ?thesis using b f by (simp add: reconcileArtist_def 2 Let_def split: option.splits)
  qed
qed

lemma reconcile_loop_inv:
  "rec_env_ok env \<Longrightarrow> run_inv env rows st \<Longrightarrow> run_inv env rows (reconcile_loop env k ids st)"
  by (induction env k ids st rule: reconcile_loop.induct) (simp_all add: reconcileArtist_inv)

lemma ReconcileRelinks_inv:
  assumes "rec_env_ok env"
  shows "run_inv env rows (ReconcileRelinks env rows)"
proof -
  have "run_inv env rows \<lparr>rsRows = rows, rsCache = [], rsFetched = [], rsCount = zero_counters\<rparr>"
    by (simp add: run_inv_def cache_ok_def)
  then show ?thesis
    by (simp add: ReconcileRelinks_def Let_def reconcile_loop_inv assms split: option.splits)
qed

text \<open>C30. A reconciler run does nothing but upgrade on evidence: from the table at its start to the one
  at its end it is a sequence of steps, each a write of another request or an upgrade, and an upgrade
  replaces a link the re-read still finds stored as the run read it, on an enabled folder-backed
  connection, by an item that connection's listing shows at the artist's mapped path.\<close>

theorem reconcile_refines_steps:
  assumes "rec_env_ok env"
  shows "(rec_step env)\<^sup>*\<^sup>* rows (rsRows (ReconcileRelinks env rows))"
  using ReconcileRelinks_inv [OF assms] by (simp add: run_inv_def)

text \<open>A run asks each peer for its listing at most once, however many artists and links it has,
  also when the listing fails, and asks only enabled Jellyfin connections.\<close>

theorem reconcile_lists_once:
  assumes "rec_env_ok env"
  shows "distinct (rsFetched (ReconcileRelinks env rows)) \<and>
    list_all (\<lambda>c. case reConn env c of Inr (Some conn) \<Rightarrow> connEnabled conn \<and> connType conn = TypeJellyfin | _ \<Rightarrow> False)
      (rsFetched (ReconcileRelinks env rows))"
  using ReconcileRelinks_inv [OF assms, of rows] by (simp add: run_inv_def cache_ok_def list_all_iff)

section \<open>A run without other writers\<close>

definition alone :: "rec_env \<Rightarrow> bool" where
  "alone env \<longleftrightarrow> (\<forall>n rows. reBefore env n rows = rows \<and> reForeign env n rows = rows \<and> reGap env n rows = rows)"

definition rec_kept :: "rec_env \<Rightarrow> link list \<Rightarrow> link list \<Rightarrow> bool" where
  "rec_kept env rows rows' \<longleftrightarrow>
     links_ok rows' \<and> dom (link_map rows') = dom (link_map rows) \<and>
     (\<forall>a c p. link_map rows (a, c) = Some p \<longrightarrow>
        link_map rows' (a, c) = Some p \<or> (\<exists>q. link_map rows' (a, c) = Some q \<and> path_evidence env a c q))"

lemma rec_kept_trans: "rec_kept env rows rows1 \<Longrightarrow> rec_kept env rows1 rows2 \<Longrightarrow> rec_kept env rows rows2"
  unfolding rec_kept_def by metis

lemma rec_step_kept:
  assumes "rec_step env rows rows'" "alone env" "links_ok rows"
  shows "rec_kept env rows rows'"
  using assms(1)
proof cases
  case (upgrade a c old i n err)
  then obtain l where "l \<in> set rows" "has_key a c l" "lkPlatform l = old" by (auto simp: list_ex_iff)
  then have k: "link_map rows (a, c) = Some old" using stored_row [OF assms(3)] by (simp add: link_map_def)
  have "commitRelink (reFaults env c) (reNow env) c a old i rows = (err, rows')"
    using upgrade assms(2) by (simp add: alone_def)
  from commitRelink_spec [OF assms(3) this] consider "rows' = rows"
    | "links_ok rows'" "link_map rows' = (link_map rows)((a, c) \<mapsto> i)" by blast
  then show ?thesis
  proof cases
    case 1
    then show ?thesis using assms(3) by (simp add: rec_kept_def)
  next
    case 2
    have "dom (link_map rows') = dom (link_map rows)" unfolding 2(2) using k by (simp add: insert_absorb domI)
    with 2 upgrade(3) show ?thesis unfolding rec_kept_def by auto
  qed
qed (use assms in \<open>auto simp: rec_kept_def alone_def\<close>)

text \<open>C27. The reconciler never drops a link: with no other writer it leaves exactly the same links
  stored, and one that changed now names an item the peer's listing shows at the artist's path on an
  enabled Jellyfin connection. Links of Emby and Lidarr connections are never touched.\<close>

theorem reconcile_never_drops:
  assumes "rec_env_ok env" "alone env" "links_ok rows"
  shows "rec_kept env rows (rsRows (ReconcileRelinks env rows))"
proof -
  have "(rec_step env)\<^sup>*\<^sup>* rows (rsRows (ReconcileRelinks env rows))"
    using ReconcileRelinks_inv [OF assms(1)] by (simp add: run_inv_def)
  then show ?thesis
  proof (induction rule: rtranclp_induct)
    case base
    then show ?case using assms(3) by (simp add: rec_kept_def)
  next
    case (step rows1 rows2)
    then have "links_ok rows1" by (simp add: rec_kept_def)
    with step show ?case using rec_step_kept [OF _ assms(2)] rec_kept_trans by blast
  qed
qed

section \<open>A concrete run\<close>

definition demo_rec :: rec_env where
  "demo_rec = \<lparr>reGetter = True, reListErr = None,
     reArtist = (\<lambda>_. Inr (Some \<lparr>arName = ''A'', arPath = ''/host/music/New'', arMBID = []\<rparr>)),
     rePidsErr = (\<lambda>_. None), reConn = (\<lambda>c. if c = ''j'' then Inr (Some demo_conn) else Inr None),
     reListing = (\<lambda>_. Inr [\<lparr>paID = ''9'', paName = ''A'', paPath = ''/music/New''\<rparr>]),
     reRereadErr = (\<lambda>_. None), reFaults = (\<lambda>_. no_faults), reNow = ''t2'',
     reBefore = (\<lambda>_ rows. rows), reForeign = (\<lambda>_ rows. rows), reGap = (\<lambda>_ rows. rows), reCancelled = (\<lambda>_. False)\<rparr>"

lemma demo_rec_ok: "rec_env_ok demo_rec" "alone demo_rec"
  by (auto simp: rec_env_ok_def alone_def demo_rec_def demo_conn_def split: if_splits)

lemma demo_rec_run: "rsRows (ReconcileRelinks demo_rec demo_rows) = demo_after"
  "rsFetched (ReconcileRelinks demo_rec demo_rows) = [''j'']"
  by code_simp+

theorem reconcile_refines_steps_witness: "(rec_step demo_rec)\<^sup>*\<^sup>* demo_rows demo_after"
  using reconcile_refines_steps [OF demo_rec_ok(1), of demo_rows] by (simp only: demo_rec_run)

theorem reconcile_lists_once_witness: "distinct [''j''] \<and> connType demo_conn = TypeJellyfin"
  using reconcile_lists_once [OF demo_rec_ok(1), of demo_rows] unfolding demo_rec_run
  by (simp add: demo_rec_def)

theorem reconcile_never_drops_witness: "rec_kept demo_rec demo_rows demo_after"
  using reconcile_never_drops [OF demo_rec_ok demo_ok(2)] by (simp only: demo_rec_run)

end
