(* ===== verification/MergeRefresh.thy ===== *)
theory MergeRefresh
  imports Relink
begin

text \<open>
  Refreshing the peers after a merge (\<open>internal/publish/merge_refresh.go\<close>): the scoped rescan of the
  survivor and the losers with its fall-back to a library scan, the Lidarr refresh by number, and
  \<open>SyncMergeRefresh\<close> over all affected and newly healed connections. Every call a peer receives is
  part of the result.
\<close>

section \<open>Refreshing one peer after a merge\<close>

datatype refresh_call = ItemRescan string | LibraryScan | ArtistRefresh int

datatype refresh_error =
    CallFailed string
  | LosersFailed "(string \<times> string) list"
  | IDNotNumeric string
  | RefreshFetching string
  | RefreshUnsupported string

text \<open>The answers of a peer: to a rescan of an item, to a library scan, to a refresh of a Lidarr
  artist.\<close>

record refresh_script =
  mrItem :: "string \<Rightarrow> string option"
  mrLibrary :: "string option"
  mrArtist :: "int \<Rightarrow> string option"

definition scopedMergeRefresh ::
  "refresh_script \<Rightarrow> string \<Rightarrow> string list \<Rightarrow> refresh_error option \<times> refresh_call list" where
  "scopedMergeRefresh script survivorPlatformID loserPlatformIDs =
     (if survivorPlatformID = [] then (map_option CallFailed (mrLibrary script), [LibraryScan])
      else case mrItem script survivorPlatformID of
        Some e \<Rightarrow> (map_option CallFailed (mrLibrary script), [ItemRescan survivorPlatformID, LibraryScan])
      | None \<Rightarrow>
          (let loserErrs = List.map_filter (\<lambda>i. map_option (Pair i) (mrItem script i)) loserPlatformIDs in
           (if loserErrs = [] then None else Some (LosersFailed loserErrs),
            ItemRescan survivorPlatformID # map ItemRescan loserPlatformIDs)))"

definition lidarrMergeRefresh :: "refresh_script \<Rightarrow> string \<Rightarrow> refresh_error option \<times> refresh_call list" where
  "lidarrMergeRefresh script survivorPlatformID =
     (if survivorPlatformID = [] then (None, [])
      else case atoi survivorPlatformID of
        None \<Rightarrow> (Some (IDNotNumeric survivorPlatformID), [])
      | Some i \<Rightarrow> (map_option CallFailed (mrArtist script i), [ArtistRefresh i]))"

definition RefreshAfterMerge ::
  "string \<Rightarrow> refresh_script \<Rightarrow> string \<Rightarrow> string list \<Rightarrow> (refresh_error option \<times> refresh_call list) option" where
  "RefreshAfterMerge t script survivorPlatformID loserPlatformIDs =
     (if t = TypeEmby \<or> t = TypeJellyfin then Some (scopedMergeRefresh script survivorPlatformID loserPlatformIDs)
      else if t = TypeLidarr then Some (lidarrMergeRefresh script survivorPlatformID)
      else None)"

record refresh_result =
  rrConnectionID :: string
  rrError :: "refresh_error option"

definition refreshOne ::
  "rename_env \<Rightarrow> (string \<Rightarrow> refresh_script) \<Rightarrow> string \<Rightarrow> string \<Rightarrow> string list \<Rightarrow>
     refresh_result \<times> refresh_call list" where
  "refreshOne env scripts connectionID survivorPlatformID loserPlatformIDs =
     (let res = (\<lambda>e. \<lparr>rrConnectionID = connectionID, rrError = e\<rparr>) in
      case envConn env connectionID of
        Inl e \<Rightarrow> (res (Some (RefreshFetching e)), [])
      | Inr conn \<Rightarrow>
          if \<not> connEnabled conn then (res None, [])
          else case RefreshAfterMerge (connType conn) (scripts connectionID) survivorPlatformID loserPlatformIDs of
            None \<Rightarrow> (res (Some (RefreshUnsupported (connType conn))), [])
          | Some (err, calls) \<Rightarrow> (res err, calls))"

section \<open>Refreshing all peers\<close>

text \<open>The survivor's item per connection and the connections to visit, after the self-heal.\<close>

definition refresh_targets ::
  "rename_env \<Rightarrow> string \<Rightarrow> string list \<Rightarrow> link list \<Rightarrow>
     (string \<times> string) list \<times> string list \<times> link list" where
  "refresh_targets env survivorID connectionIDs rows =
     (let survivorByConn =
            (case envListErr env of
               Some e \<Rightarrow> []
             | None \<Rightarrow> map (\<lambda>r. (lkConn r, lkPlatform r)) (repo_GetAll survivorID rows));
          mbid = mbidFor env;
          (healed, rows1) =
            (if mbid \<noteq> [] then selfHealLidarrLinks env survivorID mbid (map fst survivorByConn) rows else ([], rows)) in
      (AList.updates (map fst healed) (map snd healed) survivorByConn,
       connectionIDs @ filter (\<lambda>c. c \<notin> set connectionIDs) (map fst healed),
       rows1))"

definition SyncMergeRefresh ::
  "rename_env \<Rightarrow> (string \<Rightarrow> refresh_script) \<Rightarrow> string \<Rightarrow> string list \<Rightarrow> (string \<Rightarrow> string list) \<Rightarrow> link list \<Rightarrow>
     (refresh_result \<times> refresh_call list) list \<times> link list" where
  "SyncMergeRefresh env scripts survivorID connectionIDs losers rows =
     (case refresh_targets env survivorID connectionIDs rows of
        (survivorByConn, conns, rows1) \<Rightarrow>
          (map (\<lambda>c. refreshOne env scripts c
                      (case map_of survivorByConn c of None \<Rightarrow> [] | Some i \<Rightarrow> i) (losers c)) conns,
           rows1))"

text \<open>What a peer was asked and answered when it counts as refreshed.\<close>

definition refreshed :: "refresh_script \<Rightarrow> string \<Rightarrow> string \<Rightarrow> string list \<Rightarrow> refresh_call list \<Rightarrow> bool" where
  "refreshed script t survivor losers calls \<longleftrightarrow>
     (if t = TypeLidarr
      then survivor = [] \<and> calls = [] \<or>
        (\<exists>i. atoi survivor = Some i \<and> calls = [ArtistRefresh i] \<and> mrArtist script i = None)
      else LibraryScan \<in> set calls \<and> mrLibrary script = None \<or>
        calls = ItemRescan survivor # map ItemRescan losers \<and> survivor \<noteq> [] \<and>
        list_all (\<lambda>i. mrItem script i = None) (survivor # losers))"

lemma map_filter_Nil: "List.map_filter f xs = [] \<longleftrightarrow> list_all (\<lambda>x. f x = None) xs"
  by (induction xs) (auto simp: List.map_filter_simps split: option.splits)

lemma refreshOne_ok:
  assumes "refreshOne env scripts c survivor losers = (r, calls)" "rrError r = None"
  shows "\<exists>conn. envConn env c = Inr conn \<and>
    (if connEnabled conn then refreshed (scripts c) (connType conn) survivor losers calls else calls = [])"
proof -
  obtain conn where conn: "envConn env c = Inr conn"
    using assms by (cases "envConn env c") (auto simp: refreshOne_def)
  show ?thesis
  proof (cases "connEnabled conn")
    case False
    then show ?thesis using assms conn by (simp add: refreshOne_def)
  next
    case True
    then have ra: "RefreshAfterMerge (connType conn) (scripts c) survivor losers = Some (None, calls)"
      using assms conn by (auto simp: refreshOne_def Let_def split: option.splits prod.splits)
    have "refreshed (scripts c) (connType conn) survivor losers calls"
    proof (cases "connType conn = TypeLidarr")
      case lid: True
      then have "lidarrMergeRefresh (scripts c) survivor = (None, calls)"
        using ra by (simp add: RefreshAfterMerge_def TypeLidarr_def TypeEmby_def TypeJellyfin_def)
      then show ?thesis using lid
        by (auto simp: lidarrMergeRefresh_def refreshed_def split: if_splits option.splits)
    next
      case False
      then have "scopedMergeRefresh (scripts c) survivor losers = (None, calls)"
        using ra by (auto simp: RefreshAfterMerge_def split: if_splits)
      then show ?thesis using False
        by (auto simp: scopedMergeRefresh_def refreshed_def Let_def map_filter_Nil split: if_splits option.splits)
    qed
    then show ?thesis using conn True by simp
  qed
qed

text \<open>After a merge there is one result per affected connection and per newly healed one, and a
  result without an error is earned: the connection is disabled and nothing was sent; or a library
  scan was accepted; or the survivor's item and every loser's item were rescanned; or Lidarr was
  asked for the survivor under its numeric identifier, or has no survivor.\<close>

theorem merge_refresh_is_earned:
  "let (results, rows') = SyncMergeRefresh env scripts survivorID connectionIDs losers rows;
       (survivorByConn, conns, rows1) = refresh_targets env survivorID connectionIDs rows in
   map (rrConnectionID \<circ> fst) results = conns \<and>
   list_all (\<lambda>(r, calls). case rrError r of Some _ \<Rightarrow> True | None \<Rightarrow>
      (case envConn env (rrConnectionID r) of Inl _ \<Rightarrow> False | Inr conn \<Rightarrow>
         (if connEnabled conn
          then refreshed (scripts (rrConnectionID r)) (connType conn)
                 (case map_of survivorByConn (rrConnectionID r) of None \<Rightarrow> [] | Some i \<Rightarrow> i)
                 (losers (rrConnectionID r)) calls
          else calls = []))) results"
proof -
  obtain sbc conns rows1 where t: "refresh_targets env survivorID connectionIDs rows = (sbc, conns, rows1)"
    by (cases "refresh_targets env survivorID connectionIDs rows")
  have id: "rrConnectionID (fst (refreshOne env scripts c s l)) = c" for c s l
    by (auto simp: refreshOne_def Let_def split: sum.splits option.splits prod.splits)
  have ok: "case refreshOne env scripts c s (losers c) of (r, calls) \<Rightarrow>
      (case rrError r of Some _ \<Rightarrow> True | None \<Rightarrow>
        (case envConn env c of Inl _ \<Rightarrow> False | Inr conn \<Rightarrow>
          (if connEnabled conn then refreshed (scripts c) (connType conn) s (losers c) calls else calls = [])))" for c s
  proof -
    obtain r calls where 1: "refreshOne env scripts c s (losers c) = (r, calls)"
      by (cases "refreshOne env scripts c s (losers c)")
    show ?thesis using refreshOne_ok [OF 1] by (cases "rrError r") (auto simp: 1)
  qed
  have one: "case refreshOne env scripts c s (losers c) of (r, calls) \<Rightarrow>
      (case rrError r of Some _ \<Rightarrow> True | None \<Rightarrow>
        (case envConn env (rrConnectionID r) of Inl _ \<Rightarrow> False | Inr conn \<Rightarrow>
          (if connEnabled conn
           then refreshed (scripts (rrConnectionID r)) (connType conn)
             (case map_of sbc (rrConnectionID r) of None \<Rightarrow> [] | Some i \<Rightarrow> i) (losers (rrConnectionID r)) calls
           else calls = [])))" if "s = (case map_of sbc c of None \<Rightarrow> [] | Some i \<Rightarrow> i)" for c s
  proof -
    obtain r calls where 1: "refreshOne env scripts c s (losers c) = (r, calls)"
      by (cases "refreshOne env scripts c s (losers c)")
    have rc: "rrConnectionID r = c" using id [of c s "losers c"] 1 by simp
    show ?thesis using ok [of c s] unfolding 1 prod.case rc that [symmetric] .
  qed
  show ?thesis
    unfolding Let_def SyncMergeRefresh_def t prod.case
  proof (rule conjI)
    show "map (rrConnectionID \<circ> fst) (map (\<lambda>c. refreshOne env scripts c
        (case map_of sbc c of None \<Rightarrow> [] | Some i \<Rightarrow> i) (losers c)) conns) = conns"
      by (simp add: comp_def id)
  qed (unfold list_all_iff set_map, intro ballI, elim imageE, simp only:, rule one, rule refl)
qed

section \<open>A healed link can be refreshed\<close>

text \<open>The identifier the self-heal stamps round-trips: when it matches a Lidarr artist by its
  MusicBrainz ID, the decimal string it stores is parsed back after a merge to that artist's own
  number, so the refresh asks Lidarr for exactly the artist that was matched.\<close>

theorem healed_link_round_trips:
  assumes "heal_match mbid artists \<noteq> []"
    and "list_all (\<lambda>la. - (2 ^ 63) \<le> laID la \<and> laID la < 2 ^ 63) artists"
  shows "\<exists>la. la \<in> set artists \<and> equal_fold (trim_space (laForeignArtistID la)) mbid \<and>
    lidarrMergeRefresh script (heal_match mbid artists) =
      (map_option CallFailed (mrArtist script (laID la)), [ArtistRefresh (laID la)])"
proof -
  from assms(1) obtain la where la: "find (\<lambda>la. equal_fold (trim_space (laForeignArtistID la)) mbid) artists = Some la"
    "heal_match mbid artists = itoa (laID la)"
    by (auto simp: heal_match_def split: option.splits)
  then have "la \<in> set artists" "equal_fold (trim_space (laForeignArtistID la)) mbid"
    by (auto simp: find_Some_iff)
  moreover from this assms(2) have "atoi (itoa (laID la)) = Some (laID la)"
    by (intro atoi_itoa) (auto simp: list_all_iff)
  ultimately show ?thesis using la assms(1) by (auto simp: lidarrMergeRefresh_def)
qed

theorem healed_link_round_trips_witness:
  "heal_match ''AB-1'' [\<lparr>laID = 40, laForeignArtistID = ''x''\<rparr>, \<lparr>laID = 1207, laForeignArtistID = '' ab-1 ''\<rparr>] = ''1207'' \<and>
   (\<exists>script. lidarrMergeRefresh script ''1207'' = (None, [ArtistRefresh 1207]))"
proof -
  let ?as = "[\<lparr>laID = 40, laForeignArtistID = ''x''\<rparr>, \<lparr>laID = 1207, laForeignArtistID = '' ab-1 ''\<rparr>]"
  define sc where "sc = \<lparr>mrItem = (\<lambda>_. None), mrLibrary = None, mrArtist = (\<lambda>_. None)\<rparr>"
  have m: "heal_match ''AB-1'' ?as = ''1207''" by code_simp
  have b: "list_all (\<lambda>la. - (2 ^ 63) \<le> laID la \<and> laID la < 2 ^ 63) ?as" by simp
  have e: "\<not> equal_fold (trim_space ''x'') ''AB-1''" by code_simp
  from healed_link_round_trips [OF _ b, of "''AB-1''" sc] m
  obtain la where "la \<in> set ?as" "equal_fold (trim_space (laForeignArtistID la)) ''AB-1''"
    "lidarrMergeRefresh sc ''1207'' = (map_option CallFailed (mrArtist sc (laID la)), [ArtistRefresh (laID la)])"
    by auto
  then have "lidarrMergeRefresh sc ''1207'' = (None, [ArtistRefresh 1207])" using e by (auto simp: sc_def)
  then show ?thesis using m by blast
qed

end
