(* ===== verification/Conflict.thy ===== *)
theory Conflict
  imports PeerPaths
begin

text \<open>
  The write gate against media servers that write files themselves (\<open>internal/conflict\<close>): the ledger of
  what each connected server saves to disk (\<open>ledger.go\<close>), the gate over it (\<open>gate.go\<close>) and the detector
  that asks the servers, finds libraries that share directories, turns savers off on managed servers
  and caches the answer (\<open>detector.go\<close>). The servers' answers are the parameters \<open>peer_probe\<close> and
  \<open>refresh_answer\<close>. The gate is proved to fail closed, the overlaps to be shared directories, and the
  concurrent callers of the cache, interleaved at its mutexes, to ask the servers at most once per
  five minutes; two runs show where the gate can still open.
\<close>

section \<open>The ledger\<close>

datatype axis = AxisImage | AxisNFO | AxisRoundTrip

text \<open>\<open>ConnectionState\<close> without its time stamp.\<close>

record connection_state =
  csConnectionID :: string
  csConnectionName :: string
  csConnectionType :: string
  csEnabled :: bool
  csManageServerFiles :: bool
  csNFOWriteback :: bool
  csImageWriteback :: bool
  csLibraryName :: string
  csPaths :: "string list"
  csCheckErr :: string

record round_trip =
  rtConnectionAID :: string
  rtConnectionAName :: string
  rtConnectionBID :: string
  rtConnectionBName :: string
  rtOverlappingPath :: string

record ledger =
  lgGeneratedAt :: int
  lgConnections :: "connection_state list"
  lgRoundTrips :: "round_trip list"

definition HasAnyConflict :: "connection_state \<Rightarrow> bool" where
  "HasAnyConflict s =
     (if \<not> csEnabled s \<or> csManageServerFiles s then False
      else csNFOWriteback s \<or> csImageWriteback s)"

fun any_conflict :: "(connection_state \<Rightarrow> bool) \<Rightarrow> connection_state list \<Rightarrow> bool" where
  "any_conflict writeback [] = False"
| "any_conflict writeback (c # cs) =
     (if \<not> csEnabled c then any_conflict writeback cs
      else if csManageServerFiles c then any_conflict writeback cs
      else if csCheckErr c \<noteq> [] then True
      else if writeback c then True
      else any_conflict writeback cs)"

definition AnyImageConflict :: "ledger \<Rightarrow> bool" where
  "AnyImageConflict l = (if lgRoundTrips l \<noteq> [] then True else any_conflict csImageWriteback (lgConnections l))"

definition AnyNFOConflict :: "ledger \<Rightarrow> bool" where
  "AnyNFOConflict l = (if lgRoundTrips l \<noteq> [] then True else any_conflict csNFOWriteback (lgConnections l))"

definition BannerState :: "ledger \<Rightarrow> string" where
  "BannerState l =
     (if lgRoundTrips l \<noteq> [] then ''round_trip''
      else let img = AnyImageConflict l; nfo = AnyNFOConflict l in
        if img \<and> nfo then ''both''
        else if img then ''image_only''
        else if nfo then ''nfo_only''
        else ''clean'')"

section \<open>The gate\<close>

record blocked_error =
  beAxis :: axis
  bePairs :: nat
  beLedger :: ledger

definition AllowImageWrite :: "ledger \<Rightarrow> blocked_error option" where
  "AllowImageWrite l =
     (if lgRoundTrips l \<noteq> []
      then Some \<lparr>beAxis = AxisRoundTrip, bePairs = length (lgRoundTrips l), beLedger = l\<rparr>
      else if AnyImageConflict l then Some \<lparr>beAxis = AxisImage, bePairs = 0, beLedger = l\<rparr>
      else None)"

definition AllowNFOWrite :: "ledger \<Rightarrow> blocked_error option" where
  "AllowNFOWrite l =
     (if lgRoundTrips l \<noteq> []
      then Some \<lparr>beAxis = AxisRoundTrip, bePairs = length (lgRoundTrips l), beLedger = l\<rparr>
      else if AnyNFOConflict l then Some \<lparr>beAxis = AxisNFO, bePairs = 0, beLedger = l\<rparr>
      else None)"

section \<open>Overlapping library paths\<close>

definition isAncestor :: "string \<Rightarrow> string \<Rightarrow> bool" where
  "isAncestor parent child =
     (if parent = [] \<or> child = [] \<or> parent = child then False
      else has_prefix (trim_slashes child) (trim_slashes parent @ [slash]))"

definition add_overlap :: "string \<Rightarrow> string list \<Rightarrow> string list" where
  "add_overlap p out = (if p = [] \<or> p \<in> set out then out else out @ [p])"

definition overlap_step :: "string \<Rightarrow> string \<Rightarrow> string list \<Rightarrow> string list" where
  "overlap_step pa pb out =
     (if pa = pb then add_overlap pa out
      else if isAncestor pa pb then add_overlap pa out
      else if isAncestor pb pa then add_overlap pb out
      else out)"

definition allOverlaps :: "string list \<Rightarrow> string list \<Rightarrow> string list" where
  "allOverlaps a b = fold (\<lambda>pa. fold (overlap_step pa) b) a []"

definition overlap_eligible :: "connection_state \<Rightarrow> bool" where
  "overlap_eligible s \<longleftrightarrow> \<not> (\<not> csEnabled s \<or> csManageServerFiles s \<or> length (csPaths s) = 0)"

definition pair_round_trips :: "connection_state \<Rightarrow> connection_state \<Rightarrow> round_trip list" where
  "pair_round_trips a b =
     (if \<not> overlap_eligible b then []
      else map (\<lambda>overlap. \<lparr>rtConnectionAID = csConnectionID a, rtConnectionAName = csConnectionName a,
                           rtConnectionBID = csConnectionID b, rtConnectionBName = csConnectionName b,
                           rtOverlappingPath = overlap\<rparr>) (allOverlaps (csPaths a) (csPaths b)))"

fun detectRoundTrips :: "connection_state list \<Rightarrow> round_trip list" where
  "detectRoundTrips [] = []"
| "detectRoundTrips (a # states) =
     (if \<not> overlap_eligible a then [] else concat (map (pair_round_trips a) states)) @ detectRoundTrips states"

definition normalize_path_step :: "string \<Rightarrow> string list \<Rightarrow> string list" where
  "normalize_path_step p out =
     (let p = trim_space p in
      if p = [] then out
      else let clean = path_clean p in if clean \<in> set out then out else out @ [clean])"

definition normalizePaths :: "string list \<Rightarrow> string list" where
  "normalizePaths ps = fold normalize_path_step ps []"

section \<open>Checking one connection\<close>

record managed_connection = connection +
  connManageServerFiles :: bool

text \<open>The answers of one peer, in the order \<open>checkOne\<close> asks: whether a client exists for the type, the two
  savers, the library paths (None when the type has no path provider), the re-disable and the two
  checks after it.\<close>

record peer_probe =
  pbClient :: bool
  pbNFO :: "string + bool \<times> string"
  pbImage :: "string + bool \<times> string"
  pbPaths :: "(string + string list) option"
  pbDisable :: "string option"
  pbNFOAgain :: "string + bool"
  pbImageAgain :: "string + bool"

definition add_err :: "string \<Rightarrow> connection_state \<Rightarrow> connection_state" where
  "add_err msg s = s\<lparr>csCheckErr := (if csCheckErr s = [] then msg else csCheckErr s @ ''; '' @ msg)\<rparr>"

definition probe_nfo :: "peer_probe \<Rightarrow> connection_state \<Rightarrow> connection_state" where
  "probe_nfo pb s =
     (case pbNFO pb of
        Inl e \<Rightarrow> s\<lparr>csCheckErr := ''nfo check unavailable''\<rparr>
      | Inr (nfo, lib) \<Rightarrow>
          let s = s\<lparr>csNFOWriteback := nfo\<rparr> in
          if nfo \<and> csLibraryName s = [] then s\<lparr>csLibraryName := lib\<rparr> else s)"

definition probe_image :: "peer_probe \<Rightarrow> connection_state \<Rightarrow> connection_state" where
  "probe_image pb s =
     (case pbImage pb of
        Inl e \<Rightarrow> add_err ''image check unavailable'' s
      | Inr (img, lib) \<Rightarrow>
          let s = s\<lparr>csImageWriteback := img\<rparr> in
          if img \<and> csLibraryName s = [] then s\<lparr>csLibraryName := lib\<rparr> else s)"

definition probe_paths :: "peer_probe \<Rightarrow> connection_state \<Rightarrow> connection_state" where
  "probe_paths pb s =
     (case pbPaths pb of
        None \<Rightarrow> s
      | Some (Inl e) \<Rightarrow> add_err ''paths check unavailable'' s
      | Some (Inr libPaths) \<Rightarrow> s\<lparr>csPaths := normalizePaths libPaths\<rparr>)"

definition auto_disable :: "peer_probe \<Rightarrow> connection_state \<Rightarrow> connection_state" where
  "auto_disable pb s =
     (if csManageServerFiles s \<and> (csImageWriteback s \<or> csNFOWriteback s) then
        (case pbDisable pb of
           Some e \<Rightarrow> add_err ''managed re-disable unavailable'' (s\<lparr>csManageServerFiles := False\<rparr>)
         | None \<Rightarrow>
             let s = (case pbNFOAgain pb of
                        Inr nfo \<Rightarrow> s\<lparr>csNFOWriteback := nfo\<rparr>
                      | Inl e \<Rightarrow> add_err ''post-disable nfo recheck unavailable'' s);
                 s = (case pbImageAgain pb of
                        Inr img \<Rightarrow> s\<lparr>csImageWriteback := img\<rparr>
                      | Inl e \<Rightarrow> add_err ''post-disable image recheck unavailable'' s)
             in s)
      else s)"

definition checkOne :: "managed_connection \<Rightarrow> peer_probe \<Rightarrow> connection_state" where
  "checkOne c pb =
     (let state = \<lparr>csConnectionID = connID c, csConnectionName = connName c, csConnectionType = connType c,
                   csEnabled = connEnabled c, csManageServerFiles = connManageServerFiles c,
                   csNFOWriteback = False, csImageWriteback = False, csLibraryName = [], csPaths = [],
                   csCheckErr = []\<rparr> in
      if \<not> connEnabled c then state
      else if \<not> pbClient pb
      then state\<lparr>csCheckErr := ''unsupported connection type for conflict detection''\<rparr>
      else auto_disable pb (probe_paths pb (probe_image pb (probe_nfo pb state))))"

section \<open>The detector\<close>

definition ledgerSignature :: "ledger \<Rightarrow> string" where
  "ledgerSignature l =
     BannerState l @
     concat (map (\<lambda>c. ''|'' @ csConnectionID c @ '':'' @
        (if csEnabled c then ''E'' else []) @ (if csManageServerFiles c then ''M'' else []) @
        (if csNFOWriteback c then ''N'' else []) @ (if csImageWriteback c then ''I'' else []) @
        '':'' @ csLibraryName c @ '':'' @ (if csCheckErr c \<noteq> [] then ''X'' else [])) (lgConnections l)) @
     concat (map (\<lambda>rt. ''|rt:'' @ rtConnectionAID rt @ ''-'' @ rtConnectionBID rt @ ''@'' @ rtOverlappingPath rt)
        (lgRoundTrips l))"

record conflict_event =
  ceBannerState :: string
  ceImageGated :: bool
  ceNFOGated :: bool
  ceRoundTrip :: bool

text \<open>The detector's state; \<open>dtCachedAt\<close> is None for the zero time. \<open>dtEvents\<close> records the
  events published on the bus.\<close>

record detector =
  dtTTL :: int
  dtBus :: bool
  dtCachedLedger :: ledger
  dtCachedAt :: "int option"
  dtLastSignature :: string
  dtEvents :: "conflict_event list"

text \<open>What a refresh finds: the connection list or its failure, and the peers' answers.\<close>

record refresh_answer =
  raConns :: "string + managed_connection list"
  raProbe :: "managed_connection \<Rightarrow> peer_probe"

definition unavailable_ledger :: "int \<Rightarrow> ledger" where
  "unavailable_ledger now =
     \<lparr>lgGeneratedAt = now,
      lgConnections = [\<lparr>csConnectionID = ''__unavailable__'', csConnectionName = ''connection list'',
        csConnectionType = [], csEnabled = True, csManageServerFiles = False, csNFOWriteback = False,
        csImageWriteback = False, csLibraryName = [], csPaths = [],
        csCheckErr = ''connection list unavailable''\<rparr>],
      lgRoundTrips = []\<rparr>"

definition build_ledger :: "int \<Rightarrow> managed_connection list \<Rightarrow> (managed_connection \<Rightarrow> peer_probe) \<Rightarrow> ledger" where
  "build_ledger now conns probe =
     (let states = map (\<lambda>c. checkOne c (probe c)) conns in
      \<lparr>lgGeneratedAt = now, lgConnections = states, lgRoundTrips = detectRoundTrips states\<rparr>)"

definition Refresh :: "refresh_answer \<Rightarrow> int \<Rightarrow> detector \<Rightarrow> ledger \<times> detector" where
  "Refresh ans now d =
     (case raConns ans of
        Inl e \<Rightarrow> (if dtCachedAt d \<noteq> None then dtCachedLedger d else unavailable_ledger now, d)
      | Inr conns \<Rightarrow>
          (let ledger = build_ledger now conns (raProbe ans);
               signature = ledgerSignature ledger;
               prevSignature = dtLastSignature d;
               d = d\<lparr>dtCachedLedger := ledger, dtCachedAt := Some now, dtLastSignature := signature\<rparr>;
               d = (if dtBus d \<and> prevSignature \<noteq> [] \<and> prevSignature \<noteq> signature
                    then d\<lparr>dtEvents := dtEvents d @ [\<lparr>ceBannerState = BannerState ledger,
                           ceImageGated = AnyImageConflict ledger, ceNFOGated = AnyNFOConflict ledger,
                           ceRoundTrip = (lgRoundTrips ledger \<noteq> [])\<rparr>]\<rparr>
                    else d)
           in (ledger, d)))"

definition dt_fresh :: "int \<Rightarrow> detector \<Rightarrow> bool" where
  "dt_fresh now d = (case dtCachedAt d of None \<Rightarrow> False | Some t \<Rightarrow> now - t < dtTTL d)"

definition Current :: "refresh_answer \<Rightarrow> int \<Rightarrow> detector \<Rightarrow> ledger \<times> detector" where
  "Current ans now d = (if dt_fresh now d then (dtCachedLedger d, d) else Refresh ans now d)"

definition Invalidate :: "detector \<Rightarrow> detector" where
  "Invalidate d = d\<lparr>dtCachedAt := None\<rparr>"


section \<open>The gates and the banner\<close>

lemma any_conflict_iff:
  "any_conflict f cs \<longleftrightarrow>
     list_ex (\<lambda>c. csEnabled c \<and> \<not> csManageServerFiles c \<and> (csCheckErr c \<noteq> [] \<or> f c)) cs"
  by (induction cs) auto

lemma HasAnyConflict_gates:
  "list_ex HasAnyConflict (lgConnections l) \<Longrightarrow> AnyImageConflict l \<or> AnyNFOConflict l"
  by (auto simp: HasAnyConflict_def AnyImageConflict_def AnyNFOConflict_def any_conflict_iff list_ex_iff
      split: if_splits)

lemma AllowImageWrite_iff:
  "AllowImageWrite l = None \<longleftrightarrow> lgRoundTrips l = [] \<and>
     list_all (\<lambda>c. csEnabled c \<and> \<not> csManageServerFiles c \<longrightarrow> csCheckErr c = [] \<and> \<not> csImageWriteback c) (lgConnections l)"
  by (auto simp: AllowImageWrite_def AnyImageConflict_def any_conflict_iff list_all_iff list_ex_iff)

lemma AllowNFOWrite_iff:
  "AllowNFOWrite l = None \<longleftrightarrow> lgRoundTrips l = [] \<and>
     list_all (\<lambda>c. csEnabled c \<and> \<not> csManageServerFiles c \<longrightarrow> csCheckErr c = [] \<and> \<not> csNFOWriteback c) (lgConnections l)"
  by (auto simp: AllowNFOWrite_def AnyNFOConflict_def any_conflict_iff list_all_iff list_ex_iff)

text \<open>The banner never disagrees with the gates: it is \<open>clean\<close> exactly when both kinds of write are
  allowed, \<open>round_trip\<close> exactly when both are refused for overlapping paths, and otherwise it names
  the kinds of write that are refused; every refusal carries the ledger it was decided on.\<close>

theorem banner_agrees_with_gates:
  "BannerState l =
     (case (AllowImageWrite l, AllowNFOWrite l) of
        (None, None) \<Rightarrow> ''clean''
      | (Some b, None) \<Rightarrow> ''image_only''
      | (None, Some b) \<Rightarrow> ''nfo_only''
      | (Some b, Some _) \<Rightarrow> if beAxis b = AxisRoundTrip then ''round_trip'' else ''both'')
   \<and> list_all (\<lambda>b. beLedger b = l) (case AllowImageWrite l of None \<Rightarrow> [] | Some b \<Rightarrow> [b])
   \<and> list_all (\<lambda>b. beLedger b = l) (case AllowNFOWrite l of None \<Rightarrow> [] | Some b \<Rightarrow> [b])"
  by (cases "lgRoundTrips l = []"; cases "AnyImageConflict l"; cases "AnyNFOConflict l")
    (simp_all add: BannerState_def Let_def AllowImageWrite_def AllowNFOWrite_def AnyImageConflict_def AnyNFOConflict_def)

section \<open>What the peers answered when a write is allowed\<close>





lemma add_err_simps [simp]:
  "csEnabled (add_err m s) = csEnabled s" "csManageServerFiles (add_err m s) = csManageServerFiles s"
  "csNFOWriteback (add_err m s) = csNFOWriteback s" "csImageWriteback (add_err m s) = csImageWriteback s"
  "csPaths (add_err m s) = csPaths s" "csLibraryName (add_err m s) = csLibraryName s"
  "csCheckErr (add_err m s) = [] \<longleftrightarrow> csCheckErr s = [] \<and> m = []"
  by (auto simp: add_err_def)













text \<open>A managed connection opens the gate even when the peer ignores being told: the re-disable is
  accepted, the re-query says that both savers are still on, and both writes are allowed.\<close>

theorem managed_saver_still_on_permits:
  "\<exists>c pb. connEnabled c \<and> pbDisable pb = None \<and> pbImageAgain pb = Inr True \<and> pbNFOAgain pb = Inr True \<and>
     csImageWriteback (checkOne c pb) \<and> csNFOWriteback (checkOne c pb) \<and>
     AllowImageWrite (build_ledger now [c] (\<lambda>_. pb)) = None \<and> AllowNFOWrite (build_ledger now [c] (\<lambda>_. pb)) = None"
proof -
  define c :: managed_connection where "c = \<lparr>connID = ''e'', connName = ''Emby'', connType = TypeEmby,
    connEnabled = True, connPathMappings = [], connManageServerFiles = True\<rparr>"
  define pb where "pb = \<lparr>pbClient = True, pbNFO = Inr (True, ''Music''), pbImage = Inr (True, ''Music''),
    pbPaths = Some (Inr []), pbDisable = None, pbNFOAgain = Inr True, pbImageAgain = Inr True\<rparr>"
  have row: "checkOne c pb = \<lparr>csConnectionID = ''e'', csConnectionName = ''Emby'', csConnectionType = TypeEmby,
      csEnabled = True, csManageServerFiles = True, csNFOWriteback = True, csImageWriteback = True,
      csLibraryName = ''Music'', csPaths = [], csCheckErr = []\<rparr>"
    by (simp add: c_def pb_def checkOne_def probe_nfo_def probe_image_def probe_paths_def auto_disable_def
        normalizePaths_def Let_def)
  show ?thesis
    by (intro exI [of _ c] exI [of _ pb])
      (simp add: row AllowImageWrite_iff AllowNFOWrite_iff build_ledger_def overlap_eligible_def,
        simp add: c_def pb_def)
qed


section \<open>A failed connection list\<close>

text \<open>When the connection list cannot be read, the detector keeps its state and answers the ledger
  it holds; when it holds none, or the one it had was invalidated, both kinds of write are refused.\<close>

theorem failed_list_never_opens_the_gate:
  "snd (Refresh (ans\<lparr>raConns := Inl e\<rparr>) now d) = d \<and>
   (case dtCachedAt d of
      Some _ \<Rightarrow> fst (Refresh (ans\<lparr>raConns := Inl e\<rparr>) now d) = dtCachedLedger d
    | None \<Rightarrow> list_all (\<lambda>refusal. refusal \<noteq> None)
        (map (\<lambda>gate. gate (fst (Current (ans\<lparr>raConns := Inl e\<rparr>) now d))) [AllowImageWrite, AllowNFOWrite]))"
  by (simp add: Refresh_def Current_def dt_fresh_def unavailable_ledger_def AllowImageWrite_def
      AllowNFOWrite_def AnyImageConflict_def AnyNFOConflict_def split: option.split)

section \<open>Overlaps are shared directories\<close>

definition walked :: "string \<Rightarrow> string list" where
  "walked p = fold walk_step (split_on slash (trim_space p)) []"

definition directory_path :: "string list \<Rightarrow> string" where
  "directory_path xs = (if xs = [] then [slash] else render xs)"

lemma walked_plain: "list_all plain_element (walked p)"
  unfolding walked_def by (rule walk_plain) (auto simp: list_all_iff dest: split_on_no_sep)

lemma path_clean_walked:
  assumes "is_rooted (trim_space p)"
  shows "path_clean (trim_space p) = directory_path (walked p)"
proof -
  have "clean_elements True (trim_space p) = walked p"
    unfolding clean_elements_def walked_def
    by (subst clean_walk) (auto simp: list_all_iff dest: split_on_no_sep)
  then show ?thesis
    using assms by (simp add: path_clean_def directory_path_def render_join)
qed

lemma directory_path_inject:
  assumes "list_all plain_element xs" "list_all plain_element ys"
  shows "directory_path xs = directory_path ys \<longleftrightarrow> xs = ys"
proof -
  have no: "render zs \<noteq> [slash]" if "list_all plain_element zs" for zs
    using that by (cases zs; cases "hd zs") (auto simp: render_def plain_element_def)
  show ?thesis
    using no [OF assms(1)] no [OF assms(2)] render_inject [OF assms]
    by (auto simp: directory_path_def)
qed

lemma isAncestor_directory:
  assumes "list_all plain_element xs" "list_all plain_element ys"
  shows "isAncestor (directory_path xs) (directory_path ys) \<longleftrightarrow> strict_prefix xs ys"
proof -
  have t: "trim_slashes (directory_path zs) = render zs" if "list_all plain_element zs" for zs
    using that trim_slashes_render [of zs]
    by (simp add: directory_path_def render_def trim_slashes_def trim_right_def)
  have ne: "directory_path zs \<noteq> []" for zs by (simp add: directory_path_def)
  have "isAncestor (directory_path xs) (directory_path ys) \<longleftrightarrow>
      xs \<noteq> ys \<and> has_prefix (render ys) (render xs @ [slash])"
    by (simp add: isAncestor_def t assms ne directory_path_inject)
  also have "\<dots> \<longleftrightarrow> xs \<noteq> ys \<and> pathRemainder (render ys) (render xs) \<noteq> None"
    using render_inject [OF assms] by (auto simp: pathRemainder_def)
  also have "\<dots> \<longleftrightarrow> strict_prefix xs ys"
    unfolding render_remainder [OF assms(2,1)] strict_prefix_def by blast
  finally show ?thesis .
qed

lemma normalizePaths_spec:
  "distinct (normalizePaths ps) \<and>
   set (normalizePaths ps) = path_clean ` trim_space ` {p \<in> set ps. trim_space p \<noteq> []}"
proof -
  have "distinct out \<Longrightarrow> distinct (fold normalize_path_step ps out) \<and>
     set (fold normalize_path_step ps out) = set out \<union> path_clean ` trim_space ` {p \<in> set ps. trim_space p \<noteq> []}"
    for out
  proof (induction ps arbitrary: out)
    case (Cons p ps)
    have "distinct (normalize_path_step p out)"
      and s: "set (normalize_path_step p out) =
        set out \<union> (if trim_space p = [] then {} else {path_clean (trim_space p)})"
      using Cons.prems by (auto simp: normalize_path_step_def Let_def)
    with Cons.IH [of "normalize_path_step p out"] show ?case by auto
  qed simp
  from this [of "[]"] show ?thesis by (simp add: normalizePaths_def)
qed

definition overlap_of :: "string \<Rightarrow> string \<Rightarrow> string set" where
  "overlap_of pa pb =
     (if pa = pb \<or> isAncestor pa pb then {pa} else if isAncestor pb pa then {pb} else {}) - {[]}"

lemma overlap_step_spec:
  "set (overlap_step pa pb out) = set out \<union> overlap_of pa pb"
  "distinct out \<Longrightarrow> distinct (overlap_step pa pb out)"
  by (auto simp: overlap_step_def add_overlap_def overlap_of_def)

lemma allOverlaps_spec:
  "distinct (allOverlaps a b) \<and> set (allOverlaps a b) = (\<Union>pa \<in> set a. \<Union>pb \<in> set b. overlap_of pa pb)"
proof -
  have inner: "(distinct out \<longrightarrow> distinct (fold (overlap_step pa) b out)) \<and>
      set (fold (overlap_step pa) b out) = set out \<union> (\<Union>pb \<in> set b. overlap_of pa pb)" for pa out
    by (induction b arbitrary: out) (auto simp: overlap_step_spec)
  have "(distinct out \<longrightarrow> distinct (fold (\<lambda>pa. fold (overlap_step pa) b) a out)) \<and>
      set (fold (\<lambda>pa. fold (overlap_step pa) b) a out) =
        set out \<union> (\<Union>pa \<in> set a. \<Union>pb \<in> set b. overlap_of pa pb)" for out
    by (induction a arbitrary: out) (use inner in auto)
  from this [of "[]"] show ?thesis by (simp add: allOverlaps_def)
qed

lemma overlap_of_directories:
  assumes "list_all plain_element xs" "list_all plain_element ys"
  shows "overlap_of (directory_path xs) (directory_path ys) =
    directory_path ` {zs. (zs = xs \<or> zs = ys) \<and> prefix zs xs \<and> prefix zs ys}"
proof -
  have ne: "[] \<notin> {directory_path zs}" for zs by (cases zs) (simp_all add: directory_path_def render_def)
  have "overlap_of (directory_path xs) (directory_path ys) =
      (if prefix xs ys then {directory_path xs} else if prefix ys xs then {directory_path ys} else {})"
    using ne unfolding overlap_of_def isAncestor_directory [OF assms] isAncestor_directory [OF assms(2,1)]
      directory_path_inject [OF assms] strict_prefix_def by (simp add: insert_Diff_if)
  moreover have "{zs. (zs = xs \<or> zs = ys) \<and> prefix zs xs \<and> prefix zs ys} =
      (if prefix xs ys then {xs} else if prefix ys xs then {ys} else {})"
    using prefix_order.antisym [of xs ys] by auto
  ultimately show ?thesis by simp
qed

text \<open>C26. For libraries given by absolute paths, the overlaps reported between two connections are, each
  once, exactly the directories of one that are or contain a directory of the other, where a path
  means the directory reached by walking its elements from the root. So \<open>/music\<close> overlaps
  \<open>/music/rock\<close> and \<open>/a/../music/\<close>, and not \<open>/musicals\<close>.\<close>

theorem overlaps_are_shared_directories:
  assumes "list_all (\<lambda>p. is_rooted (trim_space p)) ps" "list_all (\<lambda>q. is_rooted (trim_space q)) qs"
  shows "distinct (allOverlaps (normalizePaths ps) (normalizePaths qs)) \<and>
    set (allOverlaps (normalizePaths ps) (normalizePaths qs)) =
      directory_path ` {zs. list_ex (\<lambda>p. list_ex (\<lambda>q.
        (zs = walked p \<or> zs = walked q) \<and> prefix zs (walked p) \<and> prefix zs (walked q)) qs) ps}"
proof -
  have ne: "trim_space p \<noteq> []" if "is_rooted (trim_space p)" for p using that by (auto simp: is_rooted_def)
  have n: "set (normalizePaths rs) = (\<lambda>r. directory_path (walked r)) ` set rs"
    if "list_all (\<lambda>r. is_rooted (trim_space r)) rs" for rs
  proof -
    have "{r \<in> set rs. trim_space r \<noteq> []} = set rs" using that ne by (auto simp: list_all_iff)
    moreover have "path_clean (trim_space r) = directory_path (walked r)" if "r \<in> set rs" for r
      using \<open>list_all _ rs\<close> that path_clean_walked by (auto simp: list_all_iff)
    ultimately show ?thesis by (simp add: normalizePaths_spec image_image)
  qed
  have "set (allOverlaps (normalizePaths ps) (normalizePaths qs)) =
      (\<Union>p \<in> set ps. \<Union>q \<in> set qs. overlap_of (directory_path (walked p)) (directory_path (walked q)))"
    by (simp add: allOverlaps_spec n [OF assms(1)] n [OF assms(2)])
  also have "\<dots> = directory_path ` (\<Union>p \<in> set ps. \<Union>q \<in> set qs.
      {zs. (zs = walked p \<or> zs = walked q) \<and> prefix zs (walked p) \<and> prefix zs (walked q)})"
    by (simp add: overlap_of_directories walked_plain image_UN)
  finally show ?thesis
    by (simp add: allOverlaps_spec list_ex_iff) (rule arg_cong [of _ _ "(`) directory_path"], blast)
qed

theorem overlaps_are_shared_directories_witness:
  "set (allOverlaps (normalizePaths [''/music'', ''/a/b'']) (normalizePaths ['' /x/../music/rock/'', ''/musicals''])) =
      {''/music''}"
proof -
  have r: "list_all (\<lambda>p. is_rooted (trim_space p)) [''/music'', ''/a/b'']"
    "list_all (\<lambda>p. is_rooted (trim_space p)) ['' /x/../music/rock/'', ''/musicals'']" by code_simp+
  have w: "walked ''/music'' = [''music'']" "walked ''/a/b'' = [''a'', ''b'']"
    "walked '' /x/../music/rock/'' = [''music'', ''rock'']" "walked ''/musicals'' = [''musicals'']" by code_simp+
  have "{zs. list_ex (\<lambda>p. list_ex (\<lambda>q. (zs = walked p \<or> zs = walked q) \<and> prefix zs (walked p) \<and> prefix zs (walked q))
      ['' /x/../music/rock/'', ''/musicals'']) [''/music'', ''/a/b'']} = {[''music'']}"
    by (auto simp: w)
  with overlaps_are_shared_directories [OF r] show ?thesis by (simp add: directory_path_def render_def slash_def)
qed


section \<open>Concurrent callers\<close>

text \<open>The callers of one detector, interleaved at the granularity of its mutexes: a caller of \<open>Current\<close>
  looks at the cache, waits for \<open>refreshMu\<close>, looks again, asks the peers and stores; a caller of
  \<open>Refresh\<close> asks and stores without the mutex. \<open>dwSweeps\<close> records when \<open>Current\<close> asked the peers since
  the last \<open>Invalidate\<close>, newest first.\<close>

datatype caller = Idle | WantsLock | HasLock | Sweeping bool refresh_answer

record detector_world =
  dwDet :: detector
  dwNow :: int
  dwHolder :: "nat option"
  dwPc :: "nat \<Rightarrow> caller"
  dwSweeps :: "int list"

datatype det_act = Tick nat | Look nat | Acquire nat | Recheck nat refresh_answer | Force nat refresh_answer
  | Store nat | Drop

definition defaultTTL :: int where
  "defaultTTL = 5 * 60 * 10 ^ 9"

definition NewDetector :: detector where
  "NewDetector = \<lparr>dtTTL = defaultTTL, dtBus = True,
     dtCachedLedger = \<lparr>lgGeneratedAt = 0, lgConnections = [], lgRoundTrips = []\<rparr>, dtCachedAt = None,
     dtLastSignature = [], dtEvents = []\<rparr>"

definition NewWorld :: detector_world where
  "NewWorld = \<lparr>dwDet = NewDetector, dwNow = 0, dwHolder = None, dwPc = (\<lambda>_. Idle), dwSweeps = []\<rparr>"

definition unlock :: "nat \<Rightarrow> detector_world \<Rightarrow> detector_world" where
  "unlock i w = w\<lparr>dwHolder := None, dwPc := (dwPc w)(i := Idle)\<rparr>"

fun det_step :: "det_act \<Rightarrow> detector_world \<Rightarrow> detector_world option" where
  "det_step (Tick k) w = Some (w\<lparr>dwNow := dwNow w + int k\<rparr>)"
| "det_step (Look i) w =
     (case dwPc w i of
        Idle \<Rightarrow> Some (if dt_fresh (dwNow w) (dwDet w) then w else w\<lparr>dwPc := (dwPc w)(i := WantsLock)\<rparr>)
      | _ \<Rightarrow> None)"
| "det_step (Acquire i) w =
     (case dwPc w i of
        WantsLock \<Rightarrow> if dwHolder w = None
                      then Some (w\<lparr>dwHolder := Some i, dwPc := (dwPc w)(i := HasLock)\<rparr>) else None
      | _ \<Rightarrow> None)"
| "det_step (Recheck i ans) w =
     (case dwPc w i of
        HasLock \<Rightarrow>
          if dt_fresh (dwNow w) (dwDet w) then Some (unlock i w)
          else (case raConns ans of
                  Inl _ \<Rightarrow> Some (unlock i w)
                | Inr _ \<Rightarrow> Some (w\<lparr>dwPc := (dwPc w)(i := Sweeping True ans), dwSweeps := dwNow w # dwSweeps w\<rparr>))
      | _ \<Rightarrow> None)"
| "det_step (Force i ans) w =
     (case dwPc w i of
        Idle \<Rightarrow> (case raConns ans of
                   Inl _ \<Rightarrow> Some w
                 | Inr _ \<Rightarrow> Some (w\<lparr>dwPc := (dwPc w)(i := Sweeping False ans)\<rparr>))
      | _ \<Rightarrow> None)"
| "det_step (Store i) w =
     (case dwPc w i of
        Sweeping locked ans \<Rightarrow>
          let w = w\<lparr>dwDet := snd (Refresh ans (dwNow w) (dwDet w))\<rparr> in
          Some (if locked then unlock i w else w\<lparr>dwPc := (dwPc w)(i := Idle)\<rparr>)
      | _ \<Rightarrow> None)"
| "det_step Drop w = Some (w\<lparr>dwDet := Invalidate (dwDet w), dwSweeps := []\<rparr>)"

definition in_critical :: "caller \<Rightarrow> bool" where
  "in_critical c = (case c of HasLock \<Rightarrow> True | Sweeping locked _ \<Rightarrow> locked | _ \<Rightarrow> False)"

definition is_sweeping :: "caller \<Rightarrow> bool" where
  "is_sweeping c = (case c of Sweeping locked _ \<Rightarrow> locked | _ \<Rightarrow> False)"

lemma caller_simps [simp]:
  "in_critical Idle = False" "in_critical WantsLock = False" "in_critical HasLock = True"
  "in_critical (Sweeping l a) = l" "is_sweeping Idle = False" "is_sweeping WantsLock = False"
  "is_sweeping HasLock = False" "is_sweeping (Sweeping l a) = l"
  by (simp_all add: in_critical_def is_sweeping_def)

lemma Refresh_state:
  "dtTTL (snd (Refresh ans now d)) = dtTTL d"
  "dtCachedAt (snd (Refresh ans now d)) = (case raConns ans of Inl _ \<Rightarrow> dtCachedAt d | Inr _ \<Rightarrow> Some now)"
  by (simp_all add: Refresh_def Let_def split: sum.split)

text \<open>The invariant: the callers past \<open>refreshMu\<close> are exactly its holder; the sweeps are spaced; and
  unless the holder is still sweeping, the cache is at least as recent as the last sweep.\<close>

lemma stale_cache:
  "\<not> dt_fresh now d \<Longrightarrow> dtCachedAt d = Some t \<Longrightarrow> dtTTL d \<le> now - t"
  by (simp add: dt_fresh_def)

definition sweeps_ok :: "int list \<Rightarrow> int \<Rightarrow> int option \<Rightarrow> bool \<Rightarrow> bool" where
  "sweeps_ok sweeps now cached sweeping \<longleftrightarrow>
     successively (\<lambda>later earlier. defaultTTL \<le> later - earlier) sweeps \<and>
     (case sweeps of [] \<Rightarrow> True | s # _ \<Rightarrow> s \<le> now \<and> (sweeping \<or> (\<exists>t. cached = Some t \<and> s \<le> t)))"

definition callers_ok :: "(nat \<Rightarrow> caller) \<Rightarrow> nat option \<Rightarrow> bool" where
  "callers_ok pc holder \<longleftrightarrow>
     (\<forall>i. in_critical (pc i) \<longleftrightarrow> holder = Some i) \<and>
     (\<forall>i locked ans. pc i = Sweeping locked ans \<longrightarrow> (\<exists>conns. raConns ans = Inr conns))"

definition holder_sweeps :: "detector_world \<Rightarrow> bool" where
  "holder_sweeps w \<longleftrightarrow> (case dwHolder w of None \<Rightarrow> False | Some i \<Rightarrow> is_sweeping (dwPc w i))"

definition world_ok :: "detector_world \<Rightarrow> bool" where
  "world_ok w \<longleftrightarrow> dtTTL (dwDet w) = defaultTTL \<and> callers_ok (dwPc w) (dwHolder w) \<and>
     sweeps_ok (dwSweeps w) (dwNow w) (dtCachedAt (dwDet w)) (holder_sweeps w)"

lemma NewWorld_ok: "world_ok NewWorld"
  by (simp add: world_ok_def NewWorld_def NewDetector_def callers_ok_def sweeps_ok_def)

lemma callers_ok_upd:
  assumes "callers_ok pc holder" "in_critical c \<longleftrightarrow> h = Some i" "h = holder \<or> h = Some i \<and> holder = None \<or> h = None \<and> holder = Some i"
    "\<And>locked ans. c = Sweeping locked ans \<Longrightarrow> \<exists>conns. raConns ans = Inr conns"
  shows "callers_ok (pc(i := c)) h"
  using assms unfolding callers_ok_def by (metis fun_upd_apply option.inject option.distinct(1))

lemma sweeps_ok_time: "sweeps_ok ss now c s \<Longrightarrow> now \<le> now' \<Longrightarrow> sweeps_ok ss now' c s"
  by (cases ss) (auto simp: sweeps_ok_def)

lemma sweeps_ok_store: "sweeps_ok ss now c s \<Longrightarrow> sweeps_ok ss now (Some now) s'"
  by (cases ss) (auto simp: sweeps_ok_def)

lemma sweeps_ok_sweep:
  assumes "sweeps_ok ss now c False" "\<not> dt_fresh now d" "dtCachedAt d = c" "dtTTL d = defaultTTL"
  shows "sweeps_ok (now # ss) now c True"
proof (cases ss)
  case (Cons s rest)
  with assms obtain t where "c = Some t" "s \<le> t" by (auto simp: sweeps_ok_def)
  with stale_cache [OF assms(2), of t] assms(3,4) have "defaultTTL \<le> now - s" by simp
  with Cons assms(1) show ?thesis by (simp add: sweeps_ok_def)
qed (simp add: sweeps_ok_def)

lemma critical_holder: "callers_ok pc h \<Longrightarrow> in_critical (pc i) \<Longrightarrow> h = Some i"
  by (simp add: callers_ok_def)

lemma sweeping_answers: "callers_ok pc h \<Longrightarrow> pc i = Sweeping l ans \<Longrightarrow> \<exists>conns. raConns ans = Inr conns"
  by (simp add: callers_ok_def)

lemma not_holder: "callers_ok pc h \<Longrightarrow> \<not> in_critical (pc i) \<Longrightarrow> h \<noteq> Some i"
  by (auto simp: callers_ok_def)

lemma holder_sweeps_simps [simp]:
  "holder_sweeps (w\<lparr>dwNow := n\<rparr>) = holder_sweeps w" "holder_sweeps (w\<lparr>dwDet := d\<rparr>) = holder_sweeps w"
  "holder_sweeps (w\<lparr>dwSweeps := s\<rparr>) = holder_sweeps w"
  by (simp_all add: holder_sweeps_def option.case_eq_if)

lemma holder_sweeps_upd:
  "dwHolder w \<noteq> Some i \<Longrightarrow> holder_sweeps (w\<lparr>dwPc := (dwPc w)(i := c)\<rparr>) = holder_sweeps w"
  by (cases "dwHolder w") (simp_all add: holder_sweeps_def)

lemma world_ok_tick: "world_ok w \<Longrightarrow> det_step (Tick k) w = Some w' \<Longrightarrow> world_ok w'"
  by (auto simp: world_ok_def intro: sweeps_ok_time)

lemma world_ok_look: "world_ok w \<Longrightarrow> det_step (Look i) w = Some w' \<Longrightarrow> world_ok w'"
proof (cases "dwPc w i")
  case Idle
  assume w: "world_ok w" "det_step (Look i) w = Some w'"
  have h: "dwHolder w \<noteq> Some i" using w Idle not_holder [of "dwPc w" _ i] by (simp add: world_ok_def)
  have "callers_ok ((dwPc w)(i := WantsLock)) (dwHolder w)"
    using w h by (intro callers_ok_upd) (auto simp: world_ok_def)
  then show ?thesis using w Idle holder_sweeps_upd [OF h]
    by (auto simp: world_ok_def split: if_splits)
qed simp_all

lemma world_ok_acquire: "world_ok w \<Longrightarrow> det_step (Acquire i) w = Some w' \<Longrightarrow> world_ok w'"
proof (cases "dwPc w i")
  case WantsLock
  assume w: "world_ok w" "det_step (Acquire i) w = Some w'"
  have h: "dwHolder w = None" and w': "w' = w\<lparr>dwHolder := Some i, dwPc := (dwPc w)(i := HasLock)\<rparr>"
    using w WantsLock by (auto split: if_splits)
  have "callers_ok ((dwPc w)(i := HasLock)) (Some i)"
    using w h by (intro callers_ok_upd) (auto simp: world_ok_def)
  then show ?thesis using w h by (auto simp: w' world_ok_def holder_sweeps_def)
qed simp_all

lemma world_ok_release:
  assumes "dtTTL (dwDet w) = defaultTTL" "callers_ok (dwPc w) (dwHolder w)" "dwHolder w = Some i"
    "sweeps_ok (dwSweeps w) (dwNow w) (dtCachedAt (dwDet w)) False"
  shows "world_ok (unlock i w)"
proof -
  have "callers_ok ((dwPc w)(i := Idle)) None"
    using assms by (intro callers_ok_upd) auto
  then show ?thesis using assms by (simp add: world_ok_def unlock_def holder_sweeps_def)
qed

lemma world_ok_recheck: "world_ok w \<Longrightarrow> det_step (Recheck i ans) w = Some w' \<Longrightarrow> world_ok w'"
proof (cases "dwPc w i")
  case HasLock
  assume w: "world_ok w" "det_step (Recheck i ans) w = Some w'"
  have h: "dwHolder w = Some i" using w HasLock by (auto simp: world_ok_def intro: critical_holder)
  have s: "sweeps_ok (dwSweeps w) (dwNow w) (dtCachedAt (dwDet w)) False"
    using w HasLock h by (simp add: world_ok_def holder_sweeps_def)
  have r: "world_ok (unlock i w)" using w h s by (intro world_ok_release) (simp_all add: world_ok_def)
  show ?thesis
  proof (cases "dt_fresh (dwNow w) (dwDet w)")
    case False
    show ?thesis
    proof (cases "raConns ans")
      case (Inr conns)
      have w': "w' = w\<lparr>dwPc := (dwPc w)(i := Sweeping True ans), dwSweeps := dwNow w # dwSweeps w\<rparr>"
        using w(2) HasLock False Inr by simp
      have "callers_ok ((dwPc w)(i := Sweeping True ans)) (dwHolder w)"
        using w h Inr by (intro callers_ok_upd) (auto simp: world_ok_def)
      moreover have "sweeps_ok (dwNow w # dwSweeps w) (dwNow w) (dtCachedAt (dwDet w)) True"
        using sweeps_ok_sweep [OF s False] w by (simp add: world_ok_def)
      ultimately show ?thesis using w h by (simp add: w' world_ok_def holder_sweeps_def)
    qed (use w HasLock False r in simp)
  qed (use w HasLock r in simp)
qed simp_all

lemma world_ok_force: "world_ok w \<Longrightarrow> det_step (Force i ans) w = Some w' \<Longrightarrow> world_ok w'"
proof (cases "dwPc w i")
  case Idle
  assume w: "world_ok w" "det_step (Force i ans) w = Some w'"
  have h: "dwHolder w \<noteq> Some i" using w Idle not_holder [of "dwPc w" _ i] by (simp add: world_ok_def)
  show ?thesis
  proof (cases "raConns ans")
    case (Inr conns)
    have "callers_ok ((dwPc w)(i := Sweeping False ans)) (dwHolder w)"
      using w h Inr by (intro callers_ok_upd) (auto simp: world_ok_def)
    then show ?thesis using w Idle Inr holder_sweeps_upd [OF h] by (auto simp: world_ok_def)
  qed (use w Idle in simp)
qed simp_all

lemma world_ok_store: "world_ok w \<Longrightarrow> det_step (Store i) w = Some w' \<Longrightarrow> world_ok w'"
proof (cases "dwPc w i")
  case (Sweeping locked ans)
  assume w: "world_ok w" "det_step (Store i) w = Some w'"
  define v where "v = w\<lparr>dwDet := snd (Refresh ans (dwNow w) (dwDet w))\<rparr>"
  have w': "w' = (if locked then unlock i v else v\<lparr>dwPc := (dwPc v)(i := Idle)\<rparr>)"
    using w Sweeping by (cases locked) (simp_all add: v_def Let_def)
  obtain conns where "raConns ans = Inr conns"
    using w(1) Sweeping sweeping_answers unfolding world_ok_def by blast
  then have v: "dtTTL (dwDet v) = defaultTTL" "dtCachedAt (dwDet v) = Some (dwNow w)"
    "callers_ok (dwPc v) (dwHolder v)" "dwSweeps v = dwSweeps w" "dwNow v = dwNow w" "dwHolder v = dwHolder w"
    using w by (simp_all add: v_def Refresh_state world_ok_def)
  have s: "sweeps_ok (dwSweeps w) (dwNow w) (Some (dwNow w)) b" for b
    using w sweeps_ok_store by (auto simp: world_ok_def)
  show ?thesis
  proof (cases locked)
    case True
    with w Sweeping have "dwHolder w = Some i" by (auto simp: world_ok_def intro: critical_holder)
    with True v s show ?thesis by (simp add: w' world_ok_release)
  next
    case False
    then have h: "dwHolder w \<noteq> Some i" using w Sweeping not_holder [of "dwPc w" _ i] by (simp add: world_ok_def)
    have "callers_ok ((dwPc v)(i := Idle)) (dwHolder v)" using v h by (intro callers_ok_upd) auto
    with False v s show ?thesis by (simp add: w' world_ok_def)
  qed
qed simp_all

lemma world_ok_drop: "world_ok w \<Longrightarrow> det_step Drop w = Some w' \<Longrightarrow> world_ok w'"
  by (auto simp: world_ok_def Invalidate_def sweeps_ok_def)

lemma world_ok_step: "world_ok w \<Longrightarrow> det_step a w = Some w' \<Longrightarrow> world_ok w'"
  by (cases a; hypsubst) (erule (1) world_ok_tick world_ok_look world_ok_acquire world_ok_recheck world_ok_force
      world_ok_store world_ok_drop)+

interpretation detector_run: guarded_run det_step NewWorld world_ok
  by unfold_locales (rule NewWorld_ok, rule world_ok_step)

text \<open>C17. However the callers of the detector interleave, between two invalidations its cached read path asks
  the peers at most once per five minutes, and at any moment at most one caller is past the refresh
  mutex: a burst of writers that find the cache stale costs one sweep.\<close>

theorem one_sweep_per_ttl:
  "case fold_opt det_step acts NewWorld of
     None \<Rightarrow> True
   | Some w \<Rightarrow>
       successively (\<lambda>later earlier. 300 * 10 ^ 9 \<le> later - earlier) (dwSweeps w) \<and>
       {i. in_critical (dwPc w i)} = set_option (dwHolder w)"
proof (cases "fold_opt det_step acts NewWorld")
  case (Some w)
  from detector_run.always [OF this] have "world_ok w" .
  then show ?thesis
    by (auto simp: Some world_ok_def sweeps_ok_def callers_ok_def defaultTTL_def)
qed simp

section \<open>A late sweep\<close>

text \<open>The answers of one enabled, unmanaged Emby server whose savers are all off or all on.\<close>

definition lone_peer :: "bool \<Rightarrow> refresh_answer" where
  "lone_peer saving = \<lparr>raConns = Inr [\<lparr>connID = ''e'', connName = ''Emby'', connType = TypeEmby, connEnabled = True,
       connPathMappings = [], connManageServerFiles = False\<rparr>],
     raProbe = (\<lambda>_. \<lparr>pbClient = True, pbNFO = Inr (saving, ''Music''), pbImage = Inr (saving, ''Music''),
       pbPaths = None, pbDisable = None, pbNFOAgain = Inr saving, pbImageAgain = Inr saving\<rparr>)\<rparr>"

lemma lone_peer_gates:
  "AllowImageWrite (fst (Refresh (lone_peer saving) now d)) = None \<longleftrightarrow> \<not> saving"
  "AllowNFOWrite (fst (Refresh (lone_peer saving) now d)) = None \<longleftrightarrow> \<not> saving"
  by (cases saving; simp add: Refresh_def lone_peer_def build_ledger_def AllowImageWrite_iff AllowNFOWrite_iff
      checkOne_def probe_nfo_def probe_image_def probe_paths_def auto_disable_def overlap_eligible_def Let_def)+

lemma Refresh_cached:
  "raConns ans = Inr conns \<Longrightarrow> dtCachedLedger (snd (Refresh ans now d)) = fst (Refresh ans now d)"
  by (simp add: Refresh_def Let_def)

text \<open>A sweep that began before an invalidation can undo it: caller 0 asks a quiet peer; the peer's
  savers go on, the cache is invalidated and caller 1 refreshes, which refuses both writes; then
  caller 0 stores its older answers, and for the rest of the five minutes the cached ledger is fresh
  and permits both writes.\<close>

theorem late_sweep_overwrites:
  "case fold_opt det_step [Look 0, Acquire 0, Recheck 0 (lone_peer False), Drop, Force 1 (lone_peer True), Store 1]
      NewWorld of
     None \<Rightarrow> False
   | Some w \<Rightarrow>
       AllowImageWrite (dtCachedLedger (dwDet w)) \<noteq> None \<and> AllowNFOWrite (dtCachedLedger (dwDet w)) \<noteq> None \<and>
       (case fold_opt det_step [Store 0, Tick (nat defaultTTL - 1)] w of
          None \<Rightarrow> False
        | Some w' \<Rightarrow> dt_fresh (dwNow w') (dwDet w') \<and>
            AllowImageWrite (fst (Current ans (dwNow w') (dwDet w'))) = None \<and>
            AllowNFOWrite (fst (Current ans (dwNow w') (dwDet w'))) = None)"
proof -
  have r: "raConns (lone_peer b) = Inr [\<lparr>connID = ''e'', connName = ''Emby'', connType = TypeEmby, connEnabled = True,
       connPathMappings = [], connManageServerFiles = False\<rparr>]" for b by (simp add: lone_peer_def)
  show ?thesis
    by (simp add: NewWorld_def NewDetector_def dt_fresh_def r Refresh_cached [OF r] Refresh_state lone_peer_gates
        unlock_def Let_def Invalidate_def Current_def defaultTTL_def del: not_None_eq)
qed

end
