(* ===== verification/Semver.thy ===== *)
theory Semver
  imports Prelude "HOL-Library.Product_Lexorder"
begin

text \<open>
  Versions and releases of the updater (\<open>internal/updater/semver.go\<close> and the selection part of
  \<open>updater.go\<close>): parsing a tag, comparing two versions with the numeric treatment of tags such as rc11,
  picking the newest release of a channel and deciding whether it is newer than the running build. The
  comparison is proved to be the order of a key on the tags the project uses, and shown not to be
  transitive beyond them. \<open>PreRelease\<close> is empty for a release, as in the code.
\<close>

section \<open>Parsing\<close>

record semver =
  Major :: int
  Minor :: int
  Patch :: int
  PreRelease :: string

datatype semver_error = EmptyPrerelease | InvalidSemver | InvalidMajor | InvalidMinor | InvalidPatch

definition isSemverNumeric :: "string \<Rightarrow> bool" where
  "isSemverNumeric s =
     (if s = [] then False
      else if \<not> list_all is_digit s then False
      else if length s > 1 \<and> hd s = CHR ''0'' then False
      else True)"

definition semver_number :: "semver_error \<Rightarrow> string \<Rightarrow> semver_error + int" where
  "semver_number e s =
     (if \<not> isSemverNumeric s then Inl e
      else case atoi s of None \<Rightarrow> Inl e | Some n \<Rightarrow> Inr n)"

text \<open>The core before the first hyphen and the pre-release after it; a trailing hyphen is an error.\<close>

definition split_prerelease :: "string \<Rightarrow> semver_error + string \<times> string" where
  "split_prerelease v =
     (if CHR ''-'' \<notin> set v then Inr (v, [])
      else let idx = length (takeWhile (\<lambda>c. c \<noteq> CHR ''-'') v) in
        if idx = length v - 1 then Inl EmptyPrerelease
        else Inr (take idx v, drop (idx + 1) v))"

definition parseSemver :: "string \<Rightarrow> semver_error + semver" where
  "parseSemver v =
     (case split_prerelease (trim_prefix v ''v'') of
        Inl e \<Rightarrow> Inl e
      | Inr (core, pre) \<Rightarrow>
          (case split_n 3 (CHR ''.'') core of
             [p0, p1, p2] \<Rightarrow>
               (case semver_number InvalidMajor p0 of
                  Inl e \<Rightarrow> Inl e
                | Inr major \<Rightarrow>
                    (case semver_number InvalidMinor p1 of
                       Inl e \<Rightarrow> Inl e
                     | Inr minor \<Rightarrow>
                         (case semver_number InvalidPatch p2 of
                            Inl e \<Rightarrow> Inl e
                          | Inr patch \<Rightarrow>
                              Inr \<lparr>Major = major, Minor = minor, Patch = patch, PreRelease = pre\<rparr>)))
           | _ \<Rightarrow> Inl InvalidSemver))"

section \<open>Comparing\<close>

definition cmpInt :: "int \<Rightarrow> int \<Rightarrow> int" where
  "cmpInt a b = (if a < b then -1 else if a > b then 1 else 0)"

text \<open>Prefix and trailing digits of an identifier; the digits are empty when Go's \<open>ok\<close> is false.\<close>

definition splitTrailingDigits :: "string \<Rightarrow> string \<times> string \<times> bool" where
  "splitTrailingDigits s =
     (let digits = rev (takeWhile is_digit (rev s)) in
      if digits = [] then (s, [], False) else (take (length s - length digits) s, digits, True))"

definition trim_zeros :: "string \<Rightarrow> string" where
  "trim_zeros s = trim_left (\<lambda>c. c = CHR ''0'') s"

definition cmpDigitRun :: "string \<Rightarrow> string \<Rightarrow> int" where
  "cmpDigitRun a b =
     (let a = trim_zeros a; b = trim_zeros b in
      if length a \<noteq> length b then cmpInt (int (length a)) (int (length b))
      else if a < b then -1 else if a > b then 1 else 0)"

text \<open>One round of the loop of \<open>comparePrerelease\<close>; 0 goes on to the next pair of identifiers.\<close>

definition compare_identifier :: "string \<Rightarrow> string \<Rightarrow> int" where
  "compare_identifier a b =
     (let aNum = isSemverNumeric a; bNum = isSemverNumeric b in
      if aNum \<and> bNum then
        (if length a \<noteq> length b then cmpInt (int (length a)) (int (length b))
         else if a < b then -1 else if a > b then 1 else 0)
      else if aNum \<and> \<not> bNum then -1
      else if \<not> aNum \<and> bNum then 1
      else
        (case (splitTrailingDigits a, splitTrailingDigits b) of
           ((aPrefix, aDigits, aHas), (bPrefix, bDigits, bHas)) \<Rightarrow>
             if aHas \<and> bHas \<and> aPrefix = bPrefix then cmpDigitRun aDigits bDigits
             else if a < b then -1 else if a > b then 1 else 0))"

fun compare_shared :: "string list \<Rightarrow> string list \<Rightarrow> int" where
  "compare_shared (a # as) (b # bs) =
     (let c = compare_identifier a b in if c \<noteq> 0 then c else compare_shared as bs)"
| "compare_shared as bs = cmpInt (int (length as)) (int (length bs))"

definition comparePrerelease :: "string \<Rightarrow> string \<Rightarrow> int" where
  "comparePrerelease a b = compare_shared (split_on (CHR ''.'') a) (split_on (CHR ''.'') b)"

definition semverCompare :: "semver \<Rightarrow> semver \<Rightarrow> int" where
  "semverCompare a b =
     (if Major a \<noteq> Major b then cmpInt (Major a) (Major b)
      else if Minor a \<noteq> Minor b then cmpInt (Minor a) (Minor b)
      else if Patch a \<noteq> Patch b then cmpInt (Patch a) (Patch b)
      else if PreRelease a = [] \<and> PreRelease b = [] then 0
      else if PreRelease a = [] \<and> PreRelease b \<noteq> [] then 1
      else if PreRelease a \<noteq> [] \<and> PreRelease b = [] then -1
      else comparePrerelease (PreRelease a) (PreRelease b))"

section \<open>Decimal runs\<close>

definition digits_nat :: "string \<Rightarrow> nat" where
  "digits_nat s = foldl (\<lambda>n c. 10 * n + (char_code c - 48)) 0 s"

lemma foldl_digits: "foldl (\<lambda>n c. 10 * n + (char_code c - 48)) n s = n * 10 ^ length s + digits_nat s"
proof (induction s arbitrary: n)
  case (Cons c s)
  have "digits_nat (c # s) = (char_code c - 48) * 10 ^ length s + digits_nat s"
    using Cons [of "char_code c - 48"] by (simp add: digits_nat_def)
  then show ?case using Cons [of "10 * n + (char_code c - 48)"] by (simp add: algebra_simps)
qed (simp add: digits_nat_def)

lemma digits_nat_Cons: "digits_nat (c # s) = (char_code c - 48) * 10 ^ length s + digits_nat s"
  using foldl_digits [of "char_code c - 48" s] by (simp add: digits_nat_def)

lemma digits_nat_bound: "list_all is_digit s \<Longrightarrow> digits_nat s < 10 ^ length s"
proof (induction s)
  case (Cons c s)
  then have "char_code c - 48 \<le> 9" "digits_nat s < 10 ^ length s" by (auto simp: is_digit_def)
  then have "(char_code c - 48) * 10 ^ length s + digits_nat s < 9 * 10 ^ length s + 10 ^ length s"
    by (intro add_le_less_mono) simp_all
  then show ?case by (simp add: digits_nat_Cons)
qed (simp add: digits_nat_def)

lemma digit_less_iff: "is_digit c \<Longrightarrow> is_digit d \<Longrightarrow> c < d \<longleftrightarrow> char_code c - 48 < char_code d - 48"
  by (auto simp: is_digit_def char_code_def less_char_def)

lemma digit_eq_iff: "is_digit c \<Longrightarrow> is_digit d \<Longrightarrow> c = d \<longleftrightarrow> char_code c - 48 = char_code d - 48"
  unfolding char_code_inject [symmetric] is_digit_def by linarith

lemma mixed_radix_less:
  fixes x y u v r :: nat
  assumes "u < r" "v < r"
  shows "x * r + u < y * r + v \<longleftrightarrow> x < y \<or> x = y \<and> u < v"
proof -
  have step: "x * r + u < y * r + v" if "x < y" "u < r" for x y u v :: nat
  proof -
    have "x * r + u < Suc x * r" using that(2) by simp
    also have "\<dots> \<le> y * r" using that(1) by (intro mult_le_mono1) simp
    finally show ?thesis by simp
  qed
  show ?thesis using step [of x y u v] step [of y x v u] assms by (cases x y rule: linorder_cases) auto
qed

lemma same_length_less:
  "list_all is_digit s \<Longrightarrow> list_all is_digit t \<Longrightarrow> length s = length t \<Longrightarrow> s < t \<longleftrightarrow> digits_nat s < digits_nat t"
proof (induction s t rule: list_induct2')
  case (4 c s d t)
  then have cd: "c < d \<longleftrightarrow> char_code c - 48 < char_code d - 48" "c = d \<longleftrightarrow> char_code c - 48 = char_code d - 48"
    by (simp_all add: digit_less_iff digit_eq_iff)
  have "digits_nat s < 10 ^ length t" "digits_nat t < 10 ^ length t"
    using 4 digits_nat_bound [of s] digits_nat_bound [of t] by simp_all
  note m = mixed_radix_less [OF this, of "char_code c - 48" "char_code d - 48"]
  show ?case using 4 cd m by (simp add: digits_nat_Cons)
qed simp_all

lemma shorter_less:
  assumes "list_all is_digit s" "list_all is_digit t" "t \<noteq> []" "hd t \<noteq> CHR ''0''" "length s < length t"
  shows "digits_nat s < digits_nat t"
proof -
  obtain d u where t: "t = d # u" using assms(3) by (cases t) auto
  have "char_code d \<noteq> 48" using assms(4) t char_code_inject [of d "CHR ''0''"] by (simp add: char_code_def)
  then have "1 \<le> char_code d - 48" using assms(2) t by (simp add: is_digit_def del: One_nat_def) linarith
  then have "10 ^ length u \<le> digits_nat t" unfolding t digits_nat_Cons
    by (metis le_add1 le_trans mult.commute mult_le_mono2 nat_mult_1_right)
  moreover have "digits_nat s < 10 ^ length s" by (rule digits_nat_bound) (rule assms)
  moreover have "(10::nat) ^ length s \<le> 10 ^ length u" using assms(5) t by (intro power_increasing) simp_all
  ultimately show ?thesis by (meson less_le_trans)
qed

section \<open>The order behind the comparison\<close>

definition cmp_key :: "'a::linorder \<Rightarrow> 'a \<Rightarrow> int" where
  "cmp_key x y = (if x < y then -1 else if y < x then 1 else 0)"

lemma cmp_key_int: "cmpInt a b = cmp_key a b"
  by (simp add: cmpInt_def cmp_key_def)

lemma cmp_key_Pair:
  "cmp_key (a, b) (c, d) = (if a \<noteq> c then cmp_key a c else cmp_key b d)"
  by (auto simp: cmp_key_def)

lemma cmp_key_Cons:
  "cmp_key (x # xs) (y # ys) = (if cmp_key x y \<noteq> 0 then cmp_key x y else cmp_key xs ys)"
  by (auto simp: cmp_key_def)

lemma digit_run_key:
  assumes "list_all is_digit s" "list_all is_digit t"
    "length t < length s \<Longrightarrow> hd s \<noteq> CHR ''0''" "length s < length t \<Longrightarrow> hd t \<noteq> CHR ''0''"
  shows "(if length s \<noteq> length t then cmpInt (int (length s)) (int (length t))
      else if s < t then -1 else if s > t then 1 else 0) = cmp_key (digits_nat s) (digits_nat t)"
proof (cases "length s" "length t" rule: linorder_cases)
  case less
  then show ?thesis using shorter_less [OF assms(1,2)] assms(4) by (cases t) (auto simp: cmpInt_def cmp_key_def)
next
  case equal
  then show ?thesis using same_length_less [OF assms(1,2)] same_length_less [OF assms(2,1)]
    by (simp add: cmp_key_def)
next
  case greater
  then show ?thesis using shorter_less [OF assms(2,1)] assms(3) by (cases s) (auto simp: cmpInt_def cmp_key_def)
qed

lemma digits_nat_trim: "digits_nat (trim_zeros s) = digits_nat s"
  by (induction s) (simp_all add: trim_zeros_def trim_left_def digits_nat_Cons, simp add: char_code_def)

lemma cmpDigitRun_key:
  assumes "list_all is_digit s" "list_all is_digit t"
  shows "cmpDigitRun s t = cmp_key (digits_nat s) (digits_nat t)"
proof -
  have d: "list_all is_digit (trim_zeros u)" if "list_all is_digit u" for u
    using that by (auto simp: trim_zeros_def trim_left_def list_all_iff dest: set_dropWhileD)
  have h: "hd (trim_zeros u) \<noteq> CHR ''0''" if "trim_zeros u \<noteq> []" for u
    using that hd_dropWhile unfolding trim_zeros_def trim_left_def by blast
  show ?thesis
    using digit_run_key [OF d [OF assms(1)] d [OF assms(2)]] h
    by (simp add: cmpDigitRun_def Let_def digits_nat_trim length_greater_0_conv [symmetric] del: length_greater_0_conv)
qed

text \<open>The key of an identifier: numeric ones come first, by value; the others by prefix, then by the
  number behind it, none being the least.\<close>

type_synonym identifier_key = "nat \<times> string \<times> nat \<times> nat"

definition identifier_key :: "string \<Rightarrow> identifier_key" where
  "identifier_key s =
     (if isSemverNumeric s then (0, [], 0, digits_nat s)
      else case splitTrailingDigits s of (p, d, has) \<Rightarrow> (1, p, if has then 1 else 0, digits_nat d))"

text \<open>Identifiers of the shape the project tags with: letters followed by digits, either may be
  missing.\<close>

definition tag_identifier :: "string \<Rightarrow> bool" where
  "tag_identifier s \<longleftrightarrow> list_all is_letter (fst (splitTrailingDigits s))"

definition tag_shaped :: "semver \<Rightarrow> bool" where
  "tag_shaped v \<longleftrightarrow> PreRelease v = [] \<or> list_all tag_identifier (split_on (CHR ''.'') (PreRelease v))"

lemma splitTrailingDigits_spec:
  "splitTrailingDigits s = (p, d, has) \<Longrightarrow> s = p @ d \<and> list_all is_digit d \<and> (has \<longleftrightarrow> d \<noteq> [])"
proof -
  assume a: "splitTrailingDigits s = (p, d, has)"
  define ds where "ds = rev (takeWhile is_digit (rev s))"
  have s: "s = rev (dropWhile is_digit (rev s)) @ ds"
    unfolding ds_def by (metis rev_append rev_rev_ident takeWhile_dropWhile_id)
  have "take (length s - length ds) s = rev (dropWhile is_digit (rev s))"
    by (subst (2) s) (subst s, simp)
  moreover have "list_all is_digit ds" by (auto simp: ds_def list_all_iff dest: set_takeWhileD)
  ultimately show ?thesis
    using a s by (auto simp: splitTrailingDigits_def Let_def simp flip: ds_def split: if_splits)
qed

lemma letter_digit: "is_letter c \<Longrightarrow> is_digit d \<Longrightarrow> d < c \<and> d \<noteq> c"
  by (auto simp: is_letter_def is_lower_def is_upper_def is_digit_def char_code_def less_char_def)

lemma prefixes_decide:
  "list_all is_letter p \<Longrightarrow> list_all is_letter q \<Longrightarrow> list_all is_digit d \<Longrightarrow> list_all is_digit e \<Longrightarrow> p \<noteq> q \<Longrightarrow>
     p @ d < q @ e \<longleftrightarrow> p < q"
proof (induction p q rule: list_induct2')
  case (2 c p)
  then show ?case using letter_digit by (cases e) (auto dest: order.asym)
next
  case (3 c q)
  then show ?case using letter_digit by (cases d) auto
qed (simp_all, blast)

lemma numeric_key:
  assumes "isSemverNumeric a" "isSemverNumeric b"
  shows "(if length a \<noteq> length b then cmpInt (int (length a)) (int (length b))
      else if a < b then -1 else if a > b then 1 else 0) = cmp_key (digits_nat a) (digits_nat b)"
proof -
  have num: "list_all is_digit s \<and> s \<noteq> [] \<and> (1 < length s \<longrightarrow> hd s \<noteq> CHR ''0'')" if "isSemverNumeric s" for s
    using that by (auto simp: isSemverNumeric_def split: if_splits)
  have "hd t \<noteq> CHR ''0''" if "isSemverNumeric s" "isSemverNumeric t" "length s < length t" for s t
  proof -
    have "0 < length s" using num [OF that(1)] by simp
    with that(3) have "1 < length t" by linarith
    with num [OF that(2)] show ?thesis by blast
  qed
  then show ?thesis using assms num by (intro digit_run_key) blast+
qed

lemma append_greater: "e \<noteq> [] \<Longrightarrow> s < s @ (e :: string)"
proof (induction s)
  case Nil
  then show ?case by (cases e) simp_all
qed simp

lemma compare_identifier_key:
  assumes "tag_identifier a" "tag_identifier b"
  shows "compare_identifier a b = cmp_key (identifier_key a) (identifier_key b)"
proof -
  obtain p d h where a: "splitTrailingDigits a = (p, d, h)" using prod_cases3 by blast
  obtain q e k where b: "splitTrailingDigits b = (q, e, k)" using prod_cases3 by blast
  note sa = splitTrailingDigits_spec [OF a] and sb = splitTrailingDigits_spec [OF b]
  have l: "list_all is_letter p" "list_all is_letter q" using assms a b by (simp_all add: tag_identifier_def)
  show ?thesis
  proof (cases "isSemverNumeric a"; cases "isSemverNumeric b")
    assume n: "isSemverNumeric a" "isSemverNumeric b"
    show ?thesis
      using n numeric_key [OF n] by (simp add: compare_identifier_def identifier_key_def cmp_key_Pair)
  next
    assume n: "\<not> isSemverNumeric a" "\<not> isSemverNumeric b"
    have k: "identifier_key a = (1, p, if h then 1 else 0, digits_nat d)"
      "identifier_key b = (1, q, if k then 1 else 0, digits_nat e)"
      using n by (simp_all add: identifier_key_def a b)
    have c: "compare_identifier a b =
        (if h \<and> k \<and> p = q then cmpDigitRun d e else if a < b then -1 else if a > b then 1 else 0)"
      using n by (simp add: compare_identifier_def a b)
    show ?thesis
    proof (cases "p = q")
      case True
      have "a < b \<longleftrightarrow> \<not> h \<and> k" "b < a \<longleftrightarrow> h \<and> \<not> k" if "\<not> (h \<and> k)"
        using sa sb that append_greater [of d p] append_greater [of e q] True by (auto dest: order.asym)
      moreover have "cmpDigitRun d e = cmp_key (digits_nat d) (digits_nat e)"
        using sa sb by (simp add: cmpDigitRun_key)
      moreover have "digits_nat d = digits_nat e" if "\<not> h" "\<not> k" using sa sb that by simp
      ultimately show ?thesis unfolding k c cmp_key_Pair using True by (cases h; cases k) (simp_all add: cmp_key_def)
    next
      case False
      have "a < b \<longleftrightarrow> p < q" "b < a \<longleftrightarrow> q < p"
        using prefixes_decide [OF l, of d e] prefixes_decide [OF l(2,1), of e d] sa sb False by simp_all
      with False show ?thesis unfolding k c cmp_key_Pair by (simp add: cmp_key_def)
    qed
  qed (simp_all add: compare_identifier_def identifier_key_def a b cmp_key_Pair cmp_key_def)
qed

lemma compare_shared_key:
  "list_all tag_identifier as \<Longrightarrow> list_all tag_identifier bs \<Longrightarrow>
     compare_shared as bs = cmp_key (map identifier_key as) (map identifier_key bs)"
proof (induction as bs rule: list_induct2')
  case (4 a as b bs)
  then show ?case by (simp add: compare_identifier_key cmp_key_Cons)
qed (simp_all add: cmp_key_def cmpInt_def)

text \<open>The key of a version; a release counts above its pre-releases.\<close>

type_synonym version_key = "int \<times> int \<times> int \<times> nat \<times> identifier_key list"

definition version_key :: "semver \<Rightarrow> version_key" where
  "version_key v =
     (Major v, Minor v, Patch v, if PreRelease v = [] then 1 else 0,
      if PreRelease v = [] then [] else map identifier_key (split_on (CHR ''.'') (PreRelease v)))"

lemma semverCompare_key:
  assumes "tag_shaped a" "tag_shaped b"
  shows "semverCompare a b = cmp_key (version_key a) (version_key b)"
proof -
  have "PreRelease a \<noteq> [] \<Longrightarrow> PreRelease b \<noteq> [] \<Longrightarrow> comparePrerelease (PreRelease a) (PreRelease b) =
      cmp_key (map identifier_key (split_on (CHR ''.'') (PreRelease a)))
        (map identifier_key (split_on (CHR ''.'') (PreRelease b)))"
    using assms by (simp add: comparePrerelease_def tag_shaped_def compare_shared_key)
  then show ?thesis
    by (simp add: semverCompare_def version_key_def cmp_key_Pair cmp_key_int) (simp add: cmp_key_def)
qed

text \<open>C25. On the versions the project tags, the comparison of versions is a total preorder: it compares
  major, minor and patch number, then release before pre-release, then the dotted identifiers one
  by one, numbers by value below words, words by their letters and then by the number behind them,
  so rc9 is below rc11; equal up to the shorter, the longer list is the greater.\<close>

theorem semverCompare_is_key_order:
  assumes "tag_shaped a" "tag_shaped b"
  shows "semverCompare a b =
    (if version_key a < version_key b then -1 else if version_key b < version_key a then 1 else 0)"
  by (simp add: semverCompare_key [OF assms] cmp_key_def)

section \<open>Picking a release\<close>

record release_asset =
  assetName :: string
  assetURL :: string

record release =
  rlTagName :: string
  rlPrerelease :: bool
  rlDraft :: bool
  rlHTMLURL :: string
  rlAssets :: "release_asset list"

definition ChannelStable :: string where "ChannelStable = ''stable''"
definition ChannelPrerelease :: string where "ChannelPrerelease = ''prerelease''"
definition ChannelNightly :: string where "ChannelNightly = ''nightly''"

text \<open>\<open>semverRE\<close>: an optional v, three runs of digits, and a pre-release of letters, digits and dots.\<close>

definition digit_run :: "string \<Rightarrow> (string \<times> string) option" where
  "digit_run s = (let d = takeWhile is_digit s in if d = [] then None else Some (d, dropWhile is_digit s))"

definition skip_char :: "char \<Rightarrow> string \<Rightarrow> string option" where
  "skip_char c s = (case s of [] \<Rightarrow> None | x # xs \<Rightarrow> if x = c then Some xs else None)"

definition semverRE :: "string \<Rightarrow> bool" where
  "semverRE tag =
     (case Option.bind (digit_run (trim_prefix tag ''v'')) (\<lambda>(_, s).
           Option.bind (skip_char (CHR ''.'') s) (\<lambda>s.
           Option.bind (digit_run s) (\<lambda>(_, s).
           Option.bind (skip_char (CHR ''.'') s) digit_run))) of
        None \<Rightarrow> False
      | Some (_, []) \<Rightarrow> True
      | Some (_, c # pre) \<Rightarrow>
          c = CHR ''-'' \<and> pre \<noteq> [] \<and> list_all (\<lambda>x. is_letter x \<or> is_digit x \<or> x = CHR ''.'') pre)"

definition nightlyRE :: "string \<Rightarrow> bool" where
  "nightlyRE tag \<longleftrightarrow> has_prefix tag ''nightly-'' \<and> length tag = 16 \<and> list_all is_digit (drop 8 tag)"

definition nightly_step :: "release \<Rightarrow> release option \<Rightarrow> release option" where
  "nightly_step r best =
     (if rlDraft r then best
      else if \<not> nightlyRE (rlTagName r) then best
      else case best of
        None \<Rightarrow> Some r
      | Some b \<Rightarrow> if rlTagName r > rlTagName b then Some r else best)"

text \<open>Whether the \<open>switch ch\<close> of the loop lets a release through to the parse.\<close>

definition channel_admits :: "string \<Rightarrow> release \<Rightarrow> bool" where
  "channel_admits ch r =
     (if ch = ChannelStable then
        (if rlPrerelease r then False
         else if CHR ''-'' \<in> set (trim_prefix (rlTagName r) ''v'') then False
         else True)
      else if ch = ChannelPrerelease then True
      else False)"

definition semver_step :: "string \<Rightarrow> release \<Rightarrow> (release \<times> semver) option \<Rightarrow> (release \<times> semver) option" where
  "semver_step ch r best =
     (if rlDraft r then best
      else if \<not> semverRE (rlTagName r) then best
      else if \<not> channel_admits ch r then best
      else case parseSemver (rlTagName r) of
        Inl _ \<Rightarrow> best
      | Inr v \<Rightarrow>
          (case best of
             None \<Rightarrow> Some (r, v)
           | Some (_, bestVer) \<Rightarrow> if semverCompare v bestVer > 0 then Some (r, v) else best))"

definition pickLatest :: "release list \<Rightarrow> string \<Rightarrow> release option" where
  "pickLatest releases ch =
     (if ch = ChannelNightly then fold nightly_step releases None
      else map_option fst (fold (semver_step ch) releases None))"

definition newerThan :: "string \<Rightarrow> string \<Rightarrow> bool" where
  "newerThan candidate current =
     (let candNightly = nightlyRE candidate; curNightly = nightlyRE current in
      if candNightly \<and> curNightly then candidate > current
      else if candNightly then True
      else if curNightly then False
      else case (parseSemver candidate, parseSemver current) of
        (Inr cv, Inr cur) \<Rightarrow> semverCompare cv cur > 0
      | _ \<Rightarrow> False)"

section \<open>Keeping the maximum\<close>






section \<open>The newest release of a channel\<close>













section \<open>Offering an update\<close>

lemma cmpInt_swap: "cmpInt b a = - cmpInt a b"
  by (simp add: cmpInt_def)

lemma cmpDigitRun_swap: "cmpDigitRun e d = - cmpDigitRun d e"
  by (auto simp: cmpDigitRun_def Let_def cmpInt_def)

lemma compare_identifier_swap: "compare_identifier b a = - compare_identifier a b"
proof -
  obtain p d h q e k where s: "splitTrailingDigits a = (p, d, h)" "splitTrailingDigits b = (q, e, k)"
    using prod_cases3 by metis
  have "(if length b \<noteq> length a then cmpInt (int (length b)) (int (length a))
      else if b < a then -1 else if b > a then 1 else 0) =
    - (if length a \<noteq> length b then cmpInt (int (length a)) (int (length b))
      else if a < b then -1 else if a > b then 1 else (0::int))"
    by (auto simp: cmpInt_def)
  moreover have "(if b < a then -1 else if b > a then 1 else 0) = - (if a < b then -1 else if a > b then 1 else (0::int))"
    by auto
  ultimately show ?thesis
    using cmpDigitRun_swap [of e d]
    by (cases "isSemverNumeric a"; cases "isSemverNumeric b"; cases "h \<and> k \<and> p = q")
      (auto simp: compare_identifier_def s simp del: neg_equal_iff_equal)
qed

lemma compare_shared_swap: "compare_shared bs as = - compare_shared as bs"
proof (induction as bs rule: list_induct2')
  case (4 a as b bs)
  then show ?case using compare_identifier_swap [of b a] by (simp add: Let_def)
qed (simp_all add: cmpInt_def)

lemma semverCompare_swap: "semverCompare b a = - semverCompare a b"
  using compare_shared_swap [of "split_on (CHR ''.'') (PreRelease b)" "split_on (CHR ''.'') (PreRelease a)"]
  by (simp add: semverCompare_def comparePrerelease_def cmpInt_def)

text \<open>An update offer is never mutual: of two tags at most one is offered to a host running the
  other, and no tag is offered to a host running it, whatever the tags.\<close>

theorem offer_is_one_way:
  "\<not> (newerThan a b \<and> newerThan b a)"
proof -
  have "\<not> (semverCompare v w > 0 \<and> semverCompare w v > 0)" for v w
    using semverCompare_swap [of v w] by linarith
  then show ?thesis by (auto simp: newerThan_def Let_def dest: order.asym split: sum.splits)
qed

text \<open>Beyond those tags the comparison is not transitive, and the pick depends on the order of the
  listing: rc11 is newer than rc9, rc1x newer than rc11 and rc9 newer than rc1x, and of the same
  three releases the updater picks rc1x or rc11. A host following the offers would go round.\<close>

theorem prerelease_order_goes_round:
  "newerThan ''v1.0.0-rc11'' ''v1.0.0-rc9'' \<and> newerThan ''v1.0.0-rc1x'' ''v1.0.0-rc11'' \<and>
   newerThan ''v1.0.0-rc9'' ''v1.0.0-rc1x'' \<and>
   (let r = (\<lambda>t. \<lparr>rlTagName = t, rlPrerelease = True, rlDraft = False, rlHTMLURL = [], rlAssets = []\<rparr>);
        rs = map r [''v1.0.0-rc9'', ''v1.0.0-rc11'', ''v1.0.0-rc1x''] in
     map_option rlTagName (pickLatest rs ChannelPrerelease) = Some ''v1.0.0-rc1x'' \<and>
     map_option rlTagName (pickLatest (rotate 2 rs) ChannelPrerelease) = Some ''v1.0.0-rc11'')"
  by code_simp


theorem semverCompare_is_key_order_witness:
  "(let a = \<lparr>Major = 1, Minor = 2, Patch = 0, PreRelease = ''rc9''\<rparr>;
        b = \<lparr>Major = 1, Minor = 2, Patch = 0, PreRelease = ''rc11''\<rparr> in
     semverCompare a b = -1 \<and> version_key a < version_key b)"
proof -
  define a b :: semver where "a = \<lparr>Major = 1, Minor = 2, Patch = 0, PreRelease = ''rc9''\<rparr>"
    and "b = \<lparr>Major = 1, Minor = 2, Patch = 0, PreRelease = ''rc11''\<rparr>"
  have t: "tag_shaped a" "tag_shaped b" unfolding a_def b_def by code_simp+
  have c: "semverCompare a b = -1" unfolding a_def b_def by code_simp
  show ?thesis using semverCompare_is_key_order [OF t] c
    by (auto simp: Let_def simp flip: a_def b_def split: if_splits)
qed

end
