(* ===== verification/Updater.thy ===== *)
theory Updater
  imports Semver
begin

text \<open>
  The self-updater (\<open>internal/updater/updater.go\<close>): its preferences in the settings table, the download and
  verification of a release, and the service that checks, saves and applies concurrently. The settings
  table is a record of its eight rows, each the stored text, except that the skip list is the list its
  JSON text denotes and the time of the last automatic update a number. Calls in flight are interleaved
  at their accesses to the shared state (\<open>up_step\<close>); downloads, archives and the file system are the
  parameter \<open>apply_env\<close>. \<open>uwInstalled\<close> and \<open>uwCacheChannel\<close> only record what was installed and which
  channel the last stored check was for. The generation counter is a natural number: 2^64 channel
  changes are out of reach.
\<close>

section \<open>Configuration\<close>

datatype skip_row = SkipText "string list" | SkipMalformed

record settings =
  stChannel :: "string option"
  stEnabled :: "string option"
  stAutoCheck :: "string option"
  stAutoUpdate :: "string option"
  stInterval :: "string option"
  stLastAutoApplied :: "int option"
  stLastAutoAppliedVer :: "string option"
  stSkipped :: "skip_row option"

record config =
  cfChannel :: string
  cfEnabled :: bool
  cfAutoCheck :: bool
  cfAutoUpdate :: bool
  cfCheckIntervalHours :: int
  cfLastAutoApplied :: "int option"
  cfLastAutoAppliedVersion :: string
  cfSkippedVersions :: "string list"

definition MinCheckIntervalHours :: int where "MinCheckIntervalHours = 1"
definition DefaultCheckIntervalHours :: int where "DefaultCheckIntervalHours = 24"

definition default_config :: config where
  "default_config = \<lparr>cfChannel = ChannelStable, cfEnabled = True, cfAutoCheck = False, cfAutoUpdate = False,
     cfCheckIntervalHours = DefaultCheckIntervalHours, cfLastAutoApplied = None,
     cfLastAutoAppliedVersion = [], cfSkippedVersions = []\<rparr>"

text \<open>\<open>strconv.ParseBool\<close>.\<close>

definition parse_bool :: "string \<Rightarrow> bool option" where
  "parse_bool v =
     (if v \<in> set [''1'', ''t'', ''T'', ''TRUE'', ''true'', ''True''] then Some True
      else if v \<in> set [''0'', ''f'', ''F'', ''FALSE'', ''false'', ''False''] then Some False
      else None)"

definition known_channel :: "string \<Rightarrow> bool" where
  "known_channel c \<longleftrightarrow> c = ChannelStable \<or> c = ChannelPrerelease \<or> c = ChannelNightly"

definition flag_row :: "string option \<Rightarrow> bool \<Rightarrow> bool" where
  "flag_row row dflt = (case row of None \<Rightarrow> dflt | Some v \<Rightarrow> (case parse_bool v of None \<Rightarrow> dflt | Some b \<Rightarrow> b))"

definition interval_row :: "string option \<Rightarrow> int" where
  "interval_row row =
     (case row of
        None \<Rightarrow> DefaultCheckIntervalHours
      | Some v \<Rightarrow> (case atoi v of
            None \<Rightarrow> DefaultCheckIntervalHours
          | Some n \<Rightarrow> if n < MinCheckIntervalHours then DefaultCheckIntervalHours else n))"

definition GetConfig :: "settings \<Rightarrow> config" where
  "GetConfig st =
     default_config\<lparr>
       cfChannel := (case stChannel st of None \<Rightarrow> ChannelStable
                       | Some v \<Rightarrow> if known_channel v then v else ChannelStable),
       cfEnabled := flag_row (stEnabled st) True,
       cfAutoCheck := flag_row (stAutoCheck st) False,
       cfAutoUpdate := flag_row (stAutoUpdate st) False,
       cfCheckIntervalHours := interval_row (stInterval st),
       cfLastAutoApplied := stLastAutoApplied st,
       cfLastAutoAppliedVersion := (case stLastAutoAppliedVer st of None \<Rightarrow> [] | Some v \<Rightarrow> v),
       cfSkippedVersions := (case stSkipped st of Some (SkipText vs) \<Rightarrow> vs | _ \<Rightarrow> [])\<rparr>"

definition bool_text :: "bool \<Rightarrow> string" where
  "bool_text b = (if b then ''true'' else ''false'')"

datatype config_error = InvalidChannel string | InvalidInterval | ConfigDB string

definition check_config :: "config \<Rightarrow> config_error + config" where
  "check_config cfg =
     (if \<not> known_channel (cfChannel cfg) then Inl (InvalidChannel (cfChannel cfg))
      else let cfg = (if cfCheckIntervalHours cfg = 0
                      then cfg\<lparr>cfCheckIntervalHours := DefaultCheckIntervalHours\<rparr> else cfg) in
        if cfCheckIntervalHours cfg < MinCheckIntervalHours then Inl InvalidInterval else Inr cfg)"

definition decideChannelChanged :: "config option \<Rightarrow> config \<Rightarrow> bool" where
  "decideChannelChanged prev cfg =
     (case prev of None \<Rightarrow> True | Some p \<Rightarrow> cfChannel p \<noteq> cfChannel cfg)"

definition write_config :: "config \<Rightarrow> settings \<Rightarrow> settings" where
  "write_config cfg st =
     st\<lparr>stChannel := Some (cfChannel cfg), stEnabled := Some (bool_text (cfEnabled cfg)),
        stAutoCheck := Some (bool_text (cfAutoCheck cfg)), stAutoUpdate := Some (bool_text (cfAutoUpdate cfg)),
        stInterval := Some (itoa (cfCheckIntervalHours cfg))\<rparr>"

definition write_skipped :: "string list \<Rightarrow> settings \<Rightarrow> settings" where
  "write_skipped vs st = st\<lparr>stSkipped := Some (SkipText vs)\<rparr>"

definition AddSkippedVersion :: "string \<Rightarrow> settings \<Rightarrow> settings option" where
  "AddSkippedVersion tag st =
     (if tag = [] then None
      else let vs = cfSkippedVersions (GetConfig st) in
        if tag \<in> set vs then Some st else Some (write_skipped (vs @ [tag]) st))"

definition RemoveSkippedVersion :: "string \<Rightarrow> settings \<Rightarrow> settings" where
  "RemoveSkippedVersion tag st = write_skipped (filter (\<lambda>v. v \<noteq> tag) (cfSkippedVersions (GetConfig st))) st"

section \<open>Downloading and verifying a release\<close>

record platform =
  goos :: string
  goarch :: string

definition binaryAssetName :: "platform \<Rightarrow> string \<Rightarrow> string" where
  "binaryAssetName p tag =
     ''stillwater_'' @ trim_prefix tag ''v'' @ ''_'' @ goos p @ ''_'' @ goarch p @ ''.tar.gz''"

definition checksumAssetName :: "string \<Rightarrow> string" where
  "checksumAssetName tag = ''stillwater_'' @ trim_prefix tag ''v'' @ ''_checksums.txt''"

text \<open>\<open>strings.Fields\<close> on ASCII white space.\<close>

definition str_fields :: "string \<Rightarrow> string list" where
  "str_fields s =
     filter (\<lambda>w. w \<noteq> []) (split_on (CHR '' '') (map (\<lambda>c. if is_space c then CHR '' '' else c) s))"

definition newline :: char where "newline = CHR 0x0A"

definition parseChecksum :: "string \<Rightarrow> string \<Rightarrow> string" where
  "parseChecksum data filename =
     (case find (\<lambda>line. length (str_fields line) = 2 \<and> str_fields line ! 1 = filename) (split_on newline data) of
        None \<Rightarrow> []
      | Some line \<Rightarrow> str_fields line ! 0)"

text \<open>The scheme \<open>net/url\<close> reads off a URL.\<close>

definition url_scheme :: "string \<Rightarrow> string" where
  "url_scheme u =
     (let s = takeWhile (\<lambda>c. c \<noteq> CHR '':'') u in
      if length s < length u \<and> s \<noteq> [] \<and> is_letter (hd s) \<and>
         list_all (\<lambda>c. is_letter c \<or> is_digit c \<or> c \<in> set ''+-.'') s
      then to_lower s else [])"

text \<open>What a download, an archive and the file system answer. \<open>aeEntries\<close> is what reading the compressed
  archive yields: entries, and possibly an error after some of them.\<close>

record apply_env =
  aeFetch :: "string \<Rightarrow> string + string"
  aeSha256Hex :: "string \<Rightarrow> string"
  aeEntries :: "string \<Rightarrow> (string + string \<times> string) list"
  aeSelf :: "string option"
  aeReplace :: "string option"

datatype update_error =
    ConfigUnreadable string | FetchFailed string | NoAsset string | NoChecksumAsset string
  | ChecksumDownload string | NoDigest string | BinaryDownload string | ChecksumMismatch string string
  | ExtractFailed string | SelfUnknown string | ReplaceFailed string

definition downloadBytes :: "apply_env \<Rightarrow> string \<Rightarrow> string + string" where
  "downloadBytes env u =
     (if url_scheme u \<noteq> ''https'' then Inl (''download URL must use https, got '' @ url_scheme u) else aeFetch env u)"

text \<open>\<open>filepath.Base\<close>.\<close>

definition base_name :: "string \<Rightarrow> string" where
  "base_name p =
     (if p = [] then ''.''
      else let t = trim_right (\<lambda>c. c = CHR ''/'') p in
        if t = [] then ''/'' else rev (takeWhile (\<lambda>c. c \<noteq> CHR ''/'') (rev t)))"

fun extract_entry :: "(string + string \<times> string) list \<Rightarrow> string + string" where
  "extract_entry [] = Inl ''binary not found in archive''"
| "extract_entry (Inl e # es) = Inl e"
| "extract_entry (Inr (name, content) # es) =
     (if base_name name = ''stillwater'' \<or> base_name name = ''stillwater.exe'' then Inr content
      else extract_entry es)"

definition extractBinary :: "apply_env \<Rightarrow> string \<Rightarrow> string + string" where
  "extractBinary env archive = extract_entry (aeEntries env archive)"

definition asset_step :: "string \<Rightarrow> string \<Rightarrow> release_asset \<Rightarrow> string \<times> string \<Rightarrow> string \<times> string" where
  "asset_step binName sumName a urls =
     (if assetName a = binName then (assetURL a, snd urls)
      else if assetName a = sumName then (fst urls, assetURL a)
      else urls)"

text \<open>The first half of \<open>runApply\<close>: the release to install, or the reason to stop.\<close>

datatype apply_stop = UpToDate | Drifted string string

definition apply_pick :: "string \<Rightarrow> string \<Rightarrow> string \<Rightarrow> release list \<Rightarrow> apply_stop + release" where
  "apply_pick current pinned ch releases =
     (case pickLatest releases ch of
        None \<Rightarrow> Inl UpToDate
      | Some latest \<Rightarrow>
          if \<not> newerThan (rlTagName latest) current then Inl UpToDate
          else if pinned \<noteq> [] \<and> rlTagName latest \<noteq> pinned then Inl (Drifted pinned (rlTagName latest))
          else Inr latest)"

text \<open>The second half: the bytes written over the running binary.\<close>

definition apply_install :: "platform \<Rightarrow> apply_env \<Rightarrow> release \<Rightarrow> update_error + string" where
  "apply_install p env latest =
     (let assetN = binaryAssetName p (rlTagName latest);
          checksumN = checksumAssetName (rlTagName latest);
          (binaryURL, checksumURL) = fold (asset_step assetN checksumN) (rlAssets latest) ([], []) in
      if binaryURL = [] then Inl (NoAsset assetN)
      else if checksumURL = [] then Inl (NoChecksumAsset checksumN)
      else case downloadBytes env checksumURL of
        Inl e \<Rightarrow> Inl (ChecksumDownload e)
      | Inr checksumData \<Rightarrow>
          let expectedChecksum = parseChecksum checksumData assetN in
          if expectedChecksum = [] then Inl (NoDigest assetN)
          else case downloadBytes env binaryURL of
            Inl e \<Rightarrow> Inl (BinaryDownload e)
          | Inr binaryData \<Rightarrow>
              let actual = aeSha256Hex env binaryData in
              if \<not> equal_fold actual expectedChecksum then Inl (ChecksumMismatch expectedChecksum actual)
              else case extractBinary env binaryData of
                Inl e \<Rightarrow> Inl (ExtractFailed e)
              | Inr newBinary \<Rightarrow>
                  (case aeSelf env of
                     Some e \<Rightarrow> Inl (SelfUnknown e)
                   | None \<Rightarrow>
                       (case aeReplace env of
                          Some e \<Rightarrow> Inl (ReplaceFailed e)
                        | None \<Rightarrow> Inr newBinary)))"

record check_result =
  crLatest :: string
  crChannel :: string
  crUpdateAvailable :: bool
  crReleaseURL :: string

text \<open>\<open>maybeAutoApply\<close>: the tag handed to \<open>applyAuto\<close>, if any.\<close>

definition maybeAutoApply :: "bool \<Rightarrow> config \<Rightarrow> check_result \<Rightarrow> string option" where
  "maybeAutoApply isDocker cfg res =
     (if \<not> cfEnabled cfg \<or> \<not> cfAutoCheck cfg \<or> \<not> cfAutoUpdate cfg then None
      else if \<not> crUpdateAvailable res \<or> crLatest res = [] then None
      else if isDocker then None
      else if crLatest res \<in> set (cfSkippedVersions cfg) then None
      else Some (crLatest res))"

section \<open>Saved preferences are read back\<close>

lemma parse_bool_text [simp]: "parse_bool (bool_text b) = Some b"
  by (cases b) (simp_all add: parse_bool_def bool_text_def)

lemma check_config_Inr:
  "check_config cfg = Inr cfg' \<longleftrightarrow>
     known_channel (cfChannel cfg) \<and>
     cfg' = (if cfCheckIntervalHours cfg = 0 then cfg\<lparr>cfCheckIntervalHours := DefaultCheckIntervalHours\<rparr> else cfg) \<and>
     MinCheckIntervalHours \<le> cfCheckIntervalHours cfg'"
  by (auto simp: check_config_def Let_def)

text \<open>What is saved is what is read: after an accepted save every preference the user can set reads
  back as it was given, a zero interval as the 24 hours it stands for, while the skip list and the
  record of the last automatic update are those from before the save.\<close>

theorem saved_config_reads_back:
  assumes "check_config cfg = Inr cfg'" "cfCheckIntervalHours cfg < 2 ^ 63"
  shows "GetConfig (write_config cfg' st) =
    (GetConfig st)\<lparr>cfChannel := cfChannel cfg, cfEnabled := cfEnabled cfg, cfAutoCheck := cfAutoCheck cfg,
      cfAutoUpdate := cfAutoUpdate cfg,
      cfCheckIntervalHours := (if cfCheckIntervalHours cfg = 0 then 24 else cfCheckIntervalHours cfg)\<rparr>"
proof -
  have c: "known_channel (cfChannel cfg)" "MinCheckIntervalHours \<le> cfCheckIntervalHours cfg'"
    and cfg': "cfg' = (if cfCheckIntervalHours cfg = 0 then cfg\<lparr>cfCheckIntervalHours := DefaultCheckIntervalHours\<rparr> else cfg)"
    using assms(1) unfolding check_config_Inr by blast+
  have "interval_row (Some (itoa (cfCheckIntervalHours cfg'))) = cfCheckIntervalHours cfg'"
    using c assms(2) atoi_itoa [of "cfCheckIntervalHours cfg'"]
    by (auto simp: interval_row_def cfg' MinCheckIntervalHours_def DefaultCheckIntervalHours_def)
  then show ?thesis
    using c by (simp add: GetConfig_def write_config_def flag_row_def cfg' DefaultCheckIntervalHours_def)
qed

text \<open>Skipping a version and taking it off the list do what they say: after either, the list read back
  contains exactly the earlier versions and the added one, or the earlier ones without the removed
  one, and no other preference changes; the empty tag is refused.\<close>

theorem skip_list_operations:
  "(case AddSkippedVersion tag st of
      None \<Rightarrow> tag = []
    | Some st' \<Rightarrow> tag \<noteq> [] \<and>
        set (cfSkippedVersions (GetConfig st')) = insert tag (set (cfSkippedVersions (GetConfig st))) \<and>
        (GetConfig st')\<lparr>cfSkippedVersions := []\<rparr> = (GetConfig st)\<lparr>cfSkippedVersions := []\<rparr>)
   \<and> set (cfSkippedVersions (GetConfig (RemoveSkippedVersion tag st))) =
       set (cfSkippedVersions (GetConfig st)) - {tag}
   \<and> (GetConfig (RemoveSkippedVersion tag st))\<lparr>cfSkippedVersions := []\<rparr> =
       (GetConfig st)\<lparr>cfSkippedVersions := []\<rparr>"
proof -
  have w: "cfSkippedVersions (GetConfig (write_skipped vs st)) = vs"
    "(GetConfig (write_skipped vs st))\<lparr>cfSkippedVersions := []\<rparr> = (GetConfig st)\<lparr>cfSkippedVersions := []\<rparr>" for vs
    by (simp_all add: GetConfig_def write_skipped_def)
  show ?thesis
    by (auto simp: AddSkippedVersion_def RemoveSkippedVersion_def Let_def w)
qed

section \<open>Only verified releases are installed\<close>






lemma apply_pick_Inr:
  "apply_pick current pinned ch rs = Inr r \<Longrightarrow>
     pickLatest rs ch = Some r \<and> newerThan (rlTagName r) current \<and> (pinned = [] \<or> rlTagName r = pinned)"
  by (auto simp: apply_pick_def split: option.splits if_splits)

section \<open>The service and its callers\<close>

datatype phase = StateIdle | StateChecking | StateDownloading | StateApplying | StateError

datatype refusal = DockerHost | RestartRequired | AlreadyRunning

record service =
  svState :: phase
  svProgress :: int
  svLastErr :: "update_error option"
  svLastChecked :: "int option"
  svIsDocker :: bool
  svUpdateAvailable :: bool
  svLatestVersion :: string
  svReleaseURL :: string
  svRestartRequired :: bool
  svPendingVersion :: string
  svConfigGen :: nat
  svApplyRunning :: bool

definition setState :: "phase \<Rightarrow> int \<Rightarrow> update_error option \<Rightarrow> service \<Rightarrow> service" where
  "setState st progress err s = s\<lparr>svState := st, svProgress := progress, svLastErr := err\<rparr>"

definition storeCheckResult :: "nat \<Rightarrow> int \<Rightarrow> bool \<Rightarrow> string \<Rightarrow> string \<Rightarrow> service \<Rightarrow> bool \<times> service" where
  "storeCheckResult gen lastChecked available latest releaseURL s =
     (if svConfigGen s \<noteq> gen then (False, s)
      else (True, s\<lparr>svLastChecked := Some lastChecked, svUpdateAvailable := available,
                    svLatestVersion := latest, svReleaseURL := releaseURL\<rparr>))"

definition invalidate_cache :: "service \<Rightarrow> service" where
  "invalidate_cache s = s\<lparr>svUpdateAvailable := False, svLatestVersion := [], svReleaseURL := [],
     svConfigGen := svConfigGen s + 1\<rparr>"

definition markRestartRequired :: "string \<Rightarrow> service \<Rightarrow> service" where
  "markRestartRequired tag s = s\<lparr>svRestartRequired := True, svPendingVersion := tag\<rparr>"

definition check_result_of :: "string \<Rightarrow> string \<Rightarrow> release list \<Rightarrow> check_result" where
  "check_result_of current ch releases =
     (case pickLatest releases ch of
        None \<Rightarrow> \<lparr>crLatest = [], crChannel = ch, crUpdateAvailable = False, crReleaseURL = []\<rparr>
      | Some r \<Rightarrow> \<lparr>crLatest = rlTagName r, crChannel = ch, crUpdateAvailable = newerThan (rlTagName r) current,
                   crReleaseURL = rlHTMLURL r\<rparr>)"

definition finish_check :: "service \<Rightarrow> service" where
  "finish_check s = (if svState s = StateChecking then s\<lparr>svState := StateIdle\<rparr> else s)"

text \<open>Where a call stands between two accesses to the shared state: a \<open>Check\<close> after capturing the
  generation and after reading the configuration; a \<open>SetConfig\<close> after reading the previous channel
  and after its transaction; an \<open>Apply\<close> (with the tag it is pinned to, empty for a manual one) after
  looking at the restart flag, after the compare-and-swap, and at the points of \<open>runApply\<close>.\<close>

datatype call =
    NoCall
  | CheckAt nat
  | CheckReading nat string
  | SaveAt config bool
  | SaveStored bool
  | ApplyAt string
  | ApplyStarted string
  | ApplyOn string string
  | ApplyPicked string release
  | ApplyReplaced string string
  | ApplyMarked string
  | ApplyStopped string
  | ApplyEnded string
  | ApplyRefused refusal

record update_world =
  uwSettings :: settings
  uwService :: service
  uwCalls :: "nat \<Rightarrow> call"
  uwInstalled :: "(string \<times> string) list"
  uwCacheChannel :: string

datatype up_act =
    CheckBegin nat
  | CheckConfig nat "string option"
  | CheckFetch nat "string + release list" int
  | SaveRead nat config "string option"
  | SaveCommit nat "string option"
  | SaveBump nat
  | ApplyLook nat string
  | ApplyCAS nat
  | ApplyConfig nat "string option"
  | ApplyFetch nat "string + release list"
  | ApplyDeliver nat apply_env
  | ApplyMark nat
  | ApplyRelease nat
  | ApplyStamp nat int

definition goto :: "nat \<Rightarrow> call \<Rightarrow> update_world \<Rightarrow> update_world" where
  "goto i c w = w\<lparr>uwCalls := (uwCalls w)(i := c)\<rparr>"

definition on_service :: "(service \<Rightarrow> service) \<Rightarrow> update_world \<Rightarrow> update_world" where
  "on_service f w = w\<lparr>uwService := f (uwService w)\<rparr>"

definition fail_apply :: "nat \<Rightarrow> string \<Rightarrow> update_error \<Rightarrow> update_world \<Rightarrow> update_world" where
  "fail_apply i pinned e w = goto i (ApplyStopped pinned) (on_service (setState StateError 0 (Some e)) w)"

fun up_step :: "platform \<Rightarrow> string \<Rightarrow> up_act \<Rightarrow> update_world \<Rightarrow> update_world option" where
  "up_step p current (CheckBegin i) w =
     (case uwCalls w i of NoCall \<Rightarrow> Some (goto i (CheckAt (svConfigGen (uwService w))) w) | _ \<Rightarrow> None)"
| "up_step p current (CheckConfig i err) w =
     (case uwCalls w i of
        CheckAt gen \<Rightarrow> Some (case err of
            Some e \<Rightarrow> goto i NoCall w
          | None \<Rightarrow> goto i (CheckReading gen (cfChannel (GetConfig (uwSettings w))))
                     (on_service (setState StateChecking 0 None) w))
      | _ \<Rightarrow> None)"
| "up_step p current (CheckFetch i answer now) w =
     (case uwCalls w i of
        CheckReading gen ch \<Rightarrow> Some (goto i NoCall (case answer of
            Inl e \<Rightarrow> on_service (finish_check \<circ> setState StateError 0 (Some (FetchFailed e))) w
          | Inr releases \<Rightarrow>
              (let res = check_result_of current ch releases;
                   (stored, s) = storeCheckResult gen now (crUpdateAvailable res) (crLatest res) (crReleaseURL res)
                     (uwService w)
               in w\<lparr>uwService := finish_check s,
                    uwCacheChannel := (if stored then ch else uwCacheChannel w)\<rparr>)))
      | _ \<Rightarrow> None)"
| "up_step p current (SaveRead i cfg err) w =
     (case uwCalls w i of
        NoCall \<Rightarrow> (case check_config cfg of
            Inl e \<Rightarrow> Some (goto i NoCall w)
          | Inr cfg' \<Rightarrow> Some (goto i (SaveAt cfg' (decideChannelChanged
              (case err of Some e \<Rightarrow> None | None \<Rightarrow> Some (GetConfig (uwSettings w))) cfg')) w))
      | _ \<Rightarrow> None)"
| "up_step p current (SaveCommit i err) w =
     (case uwCalls w i of
        SaveAt cfg changed \<Rightarrow> Some (case err of
            Some e \<Rightarrow> goto i NoCall w
          | None \<Rightarrow> goto i (SaveStored changed) (w\<lparr>uwSettings := write_config cfg (uwSettings w)\<rparr>))
      | _ \<Rightarrow> None)"
| "up_step p current (SaveBump i) w =
     (case uwCalls w i of
        SaveStored changed \<Rightarrow> Some (goto i NoCall (if changed then on_service invalidate_cache w else w))
      | _ \<Rightarrow> None)"
| "up_step p current (ApplyLook i pinned) w =
     (case uwCalls w i of
        NoCall \<Rightarrow> Some (goto i (if svIsDocker (uwService w) then ApplyRefused DockerHost
                               else if svRestartRequired (uwService w) then ApplyRefused RestartRequired
                               else ApplyAt pinned) w)
      | _ \<Rightarrow> None)"
| "up_step p current (ApplyCAS i) w =
     (case uwCalls w i of
        ApplyAt pinned \<Rightarrow> Some (if svApplyRunning (uwService w) then goto i (ApplyRefused AlreadyRunning) w
                               else goto i (ApplyStarted pinned) (on_service (\<lambda>s. s\<lparr>svApplyRunning := True\<rparr>) w))
      | _ \<Rightarrow> None)"
| "up_step p current (ApplyConfig i err) w =
     (case uwCalls w i of
        ApplyStarted pinned \<Rightarrow> Some (case err of
            Some e \<Rightarrow> fail_apply i pinned (ConfigUnreadable e) w
          | None \<Rightarrow> goto i (ApplyOn pinned (cfChannel (GetConfig (uwSettings w))))
                     (on_service (setState StateChecking 0 None) w))
      | _ \<Rightarrow> None)"
| "up_step p current (ApplyFetch i answer) w =
     (case uwCalls w i of
        ApplyOn pinned ch \<Rightarrow> Some (case answer of
            Inl e \<Rightarrow> fail_apply i pinned (FetchFailed e) w
          | Inr releases \<Rightarrow> (case apply_pick current pinned ch releases of
                Inl stop \<Rightarrow> goto i (ApplyStopped pinned) (on_service (setState StateIdle 100 None) w)
              | Inr r \<Rightarrow> goto i (ApplyPicked pinned r) (on_service (setState StateDownloading 10 None) w)))
      | _ \<Rightarrow> None)"
| "up_step p current (ApplyDeliver i env) w =
     (case uwCalls w i of
        ApplyPicked pinned r \<Rightarrow> Some (case apply_install p env r of
            Inl e \<Rightarrow> fail_apply i pinned e w
          | Inr binary \<Rightarrow> goto i (ApplyReplaced pinned (rlTagName r))
              (on_service (setState StateApplying 80 None)
                (w\<lparr>uwInstalled := (rlTagName r, binary) # uwInstalled w\<rparr>)))
      | _ \<Rightarrow> None)"
| "up_step p current (ApplyMark i) w =
     (case uwCalls w i of
        ApplyReplaced pinned tag \<Rightarrow>
          Some (goto i (ApplyMarked pinned) (on_service (setState StateIdle 100 None \<circ> markRestartRequired tag) w))
      | _ \<Rightarrow> None)"
| "up_step p current (ApplyRelease i) w =
     (case uwCalls w i of
        ApplyMarked pinned \<Rightarrow> Some (goto i (ApplyEnded pinned) (on_service (\<lambda>s. s\<lparr>svApplyRunning := False\<rparr>) w))
      | ApplyStopped pinned \<Rightarrow> Some (goto i (ApplyEnded pinned) (on_service (\<lambda>s. s\<lparr>svApplyRunning := False\<rparr>) w))
      | _ \<Rightarrow> None)"
| "up_step p current (ApplyStamp i now) w =
     (case uwCalls w i of
        ApplyEnded pinned \<Rightarrow> Some (goto i NoCall
          (if pinned \<noteq> [] \<and> svRestartRequired (uwService w) \<and> svPendingVersion (uwService w) = pinned
           then w\<lparr>uwSettings := (uwSettings w)\<lparr>stLastAutoApplied := Some now,
                  stLastAutoAppliedVer := Some pinned\<rparr>\<rparr>
           else w))
      | _ \<Rightarrow> None)"

definition NewService :: "bool \<Rightarrow> service" where
  "NewService docker = \<lparr>svState = StateIdle, svProgress = 0, svLastErr = None, svLastChecked = None,
     svIsDocker = docker, svUpdateAvailable = False, svLatestVersion = [], svReleaseURL = [],
     svRestartRequired = False, svPendingVersion = [], svConfigGen = 0, svApplyRunning = False\<rparr>"

definition boot :: "bool \<Rightarrow> settings \<Rightarrow> update_world" where
  "boot docker st = \<lparr>uwSettings = st, uwService = NewService docker, uwCalls = (\<lambda>_. NoCall), uwInstalled = [],
     uwCacheChannel = []\<rparr>"

section \<open>One apply at a time, and only verified binaries\<close>

definition in_apply :: "call \<Rightarrow> bool" where
  "in_apply c =
     (case c of ApplyStarted _ \<Rightarrow> True | ApplyOn _ _ \<Rightarrow> True | ApplyPicked _ _ \<Rightarrow> True | ApplyReplaced _ _ \<Rightarrow> True
      | ApplyMarked _ \<Rightarrow> True | ApplyStopped _ \<Rightarrow> True | _ \<Rightarrow> False)"

lemma in_apply_simps [simp]:
  "in_apply NoCall = False" "in_apply (CheckAt g) = False" "in_apply (CheckReading g ch) = False"
  "in_apply (SaveAt cfg b) = False" "in_apply (SaveStored b) = False" "in_apply (ApplyAt t) = False"
  "in_apply (ApplyStarted t)" "in_apply (ApplyOn t ch)" "in_apply (ApplyPicked t r)" "in_apply (ApplyReplaced t u)"
  "in_apply (ApplyMarked t)" "in_apply (ApplyStopped t)" "in_apply (ApplyEnded t) = False"
  "in_apply (ApplyRefused x) = False"
  by (simp_all add: in_apply_def)

lemma world_simps [simp]:
  "uwCalls (goto i c w) = (uwCalls w)(i := c)" "uwService (goto i c w) = uwService w"
  "uwSettings (goto i c w) = uwSettings w" "uwInstalled (goto i c w) = uwInstalled w"
  "uwCacheChannel (goto i c w) = uwCacheChannel w"
  "uwCalls (on_service f w) = uwCalls w" "uwService (on_service f w) = f (uwService w)"
  "uwSettings (on_service f w) = uwSettings w" "uwInstalled (on_service f w) = uwInstalled w"
  "uwCacheChannel (on_service f w) = uwCacheChannel w"
  by (simp_all add: goto_def on_service_def)

lemma service_simps [simp]:
  "svApplyRunning (setState st n e s) = svApplyRunning s" "svApplyRunning (finish_check s) = svApplyRunning s"
  "svApplyRunning (invalidate_cache s) = svApplyRunning s" "svApplyRunning (markRestartRequired t s) = svApplyRunning s"
  "svIsDocker (setState st n e s) = svIsDocker s" "svIsDocker (finish_check s) = svIsDocker s"
  "svIsDocker (invalidate_cache s) = svIsDocker s" "svIsDocker (markRestartRequired t s) = svIsDocker s"
  "svConfigGen (setState st n e s) = svConfigGen s" "svConfigGen (finish_check s) = svConfigGen s"
  "svConfigGen (invalidate_cache s) = svConfigGen s + 1" "svConfigGen (markRestartRequired t s) = svConfigGen s"
  "svLatestVersion (setState st n e s) = svLatestVersion s" "svLatestVersion (finish_check s) = svLatestVersion s"
  "svLatestVersion (invalidate_cache s) = []" "svLatestVersion (markRestartRequired t s) = svLatestVersion s"
  by (simp_all add: setState_def finish_check_def invalidate_cache_def markRestartRequired_def)

lemma storeCheckResult_simps:
  "storeCheckResult g now av l u s = (b, s') \<Longrightarrow>
     svApplyRunning s' = svApplyRunning s \<and> svIsDocker s' = svIsDocker s \<and> svConfigGen s' = svConfigGen s \<and>
     b = (svConfigGen s = g) \<and> svLatestVersion s' = (if b then l else svLatestVersion s)"
  by (auto simp: storeCheckResult_def split: if_splits)












section \<open>The cached release belongs to the channel\<close>

text \<open>Saves one after another: a \<open>SetConfig\<close> starts only when no other is under way. The second
  component is the call that is saving.\<close>

definition serial_step ::
  "platform \<Rightarrow> string \<Rightarrow> up_act \<Rightarrow> update_world \<times> nat option \<Rightarrow> (update_world \<times> nat option) option" where
  "serial_step p current a wm =
     (case wm of (w, m) \<Rightarrow>
        (case a of
           SaveRead i cfg err \<Rightarrow>
             if m \<noteq> None then None
             else map_option (\<lambda>w'. (w', case check_config cfg of Inl _ \<Rightarrow> None | Inr _ \<Rightarrow> Some i)) (up_step p current a w)
         | SaveCommit i err \<Rightarrow> map_option (\<lambda>w'. (w', if err = None then m else None)) (up_step p current a w)
         | SaveBump i \<Rightarrow> map_option (\<lambda>w'. (w', None)) (up_step p current a w)
         | _ \<Rightarrow> map_option (\<lambda>w'. (w', m)) (up_step p current a w)))"

definition is_save :: "call \<Rightarrow> bool" where
  "is_save c = (case c of SaveAt _ _ \<Rightarrow> True | SaveStored _ \<Rightarrow> True | _ \<Rightarrow> False)"

definition channel_of :: "update_world \<Rightarrow> string" where
  "channel_of w = cfChannel (GetConfig (uwSettings w))"

text \<open>What one call may hold, given the channel and the generation.\<close>

definition call_ok :: "string \<Rightarrow> nat \<Rightarrow> bool \<Rightarrow> call \<Rightarrow> bool" where
  "call_ok ch gen switching c =
     (case c of
        CheckAt g \<Rightarrow> g \<le> gen
      | CheckReading g ch' \<Rightarrow> g \<le> gen \<and> (g = gen \<longrightarrow> switching \<or> ch' = ch)
      | SaveAt cfg changed \<Rightarrow> known_channel (cfChannel cfg) \<and> (changed \<or> cfChannel cfg = ch)
      | _ \<Rightarrow> True)"

definition picked_from :: "string \<Rightarrow> string \<Rightarrow> bool" where
  "picked_from ch tag \<longleftrightarrow> (\<exists>rs. map_option rlTagName (pickLatest rs ch) = Some tag)"

definition cache_ok :: "update_world \<Rightarrow> bool \<Rightarrow> bool" where
  "cache_ok w switching \<longleftrightarrow>
     (svLatestVersion (uwService w) \<noteq> [] \<longrightarrow>
       (switching \<or> uwCacheChannel w = channel_of w) \<and>
       picked_from (uwCacheChannel w) (svLatestVersion (uwService w)))"

definition switching :: "update_world \<Rightarrow> nat option \<Rightarrow> bool" where
  "switching w m \<longleftrightarrow> (case m of None \<Rightarrow> False | Some i \<Rightarrow> uwCalls w i = SaveStored True)"

definition serial_ok :: "update_world \<times> nat option \<Rightarrow> bool" where
  "serial_ok wm \<longleftrightarrow>
     (case wm of (w, m) \<Rightarrow>
        (\<forall>i. is_save (uwCalls w i) \<longleftrightarrow> m = Some i) \<and>
        (\<forall>i. call_ok (channel_of w) (svConfigGen (uwService w)) (switching w m) (uwCalls w i)) \<and>
        cache_ok w (switching w m))"

lemma serial_ok_boot: "serial_ok (boot docker st, None)"
  by (simp add: serial_ok_def boot_def NewService_def is_save_def call_ok_def cache_ok_def)

lemma call_ok_simps [simp]:
  "call_ok ch g s NoCall" "call_ok ch g s (SaveStored b)" "call_ok ch g s (ApplyAt t)" "call_ok ch g s (ApplyStarted t)"
  "call_ok ch g s (ApplyOn t u)" "call_ok ch g s (ApplyPicked t r)" "call_ok ch g s (ApplyReplaced t u)"
  "call_ok ch g s (ApplyMarked t)" "call_ok ch g s (ApplyStopped t)" "call_ok ch g s (ApplyEnded t)"
  "call_ok ch g s (ApplyRefused x)"
  by (simp_all add: call_ok_def)

lemma is_save_simps [simp]:
  "\<not> is_save NoCall" "\<not> is_save (CheckAt g)" "\<not> is_save (CheckReading g u)" "is_save (SaveAt cfg b)"
  "is_save (SaveStored b)" "\<not> is_save (ApplyAt t)" "\<not> is_save (ApplyStarted t)"
  "\<not> is_save (ApplyOn t u)" "\<not> is_save (ApplyPicked t r)" "\<not> is_save (ApplyReplaced t u)"
  "\<not> is_save (ApplyMarked t)" "\<not> is_save (ApplyStopped t)" "\<not> is_save (ApplyEnded t)" "\<not> is_save (ApplyRefused x)"
  by (simp_all add: is_save_def)

text \<open>A step that moves a call which saves neither before nor after, and leaves the channel, the
  generation and the cached version alone.\<close>

lemma serial_ok_quiet:
  assumes "serial_ok (w, m)" "uwCalls w' = (uwCalls w)(i := c)" "\<not> is_save (uwCalls w i)" "\<not> is_save c"
    "channel_of w' = channel_of w" "svConfigGen (uwService w') = svConfigGen (uwService w)"
    "call_ok (channel_of w) (svConfigGen (uwService w)) (switching w m) c"
    "cache_ok w' (switching w m)"
  shows "serial_ok (w', m)"
proof -
  have "switching w' m = switching w m"
    using assms by (cases m) (auto simp: serial_ok_def switching_def)
  then show ?thesis using assms by (auto simp: serial_ok_def)
qed

lemma cache_ok_same:
  assumes "serial_ok (w, m)" "channel_of w' = channel_of w"
    "svLatestVersion (uwService w') = svLatestVersion (uwService w)" "uwCacheChannel w' = uwCacheChannel w"
  shows "cache_ok w' (switching w m)"
  using assms by (simp add: serial_ok_def cache_ok_def)

lemma channel_of_simps [simp]:
  "channel_of (goto i c w) = channel_of w" "channel_of (on_service f w) = channel_of w"
  "channel_of (w\<lparr>uwInstalled := xs\<rparr>) = channel_of w"
  by (simp_all add: channel_of_def)

lemma cache_ok_goto [simp]: "cache_ok (goto i c w) b = cache_ok w b"
  by (simp add: cache_ok_def)

lemma channel_of_write:
  "known_channel (cfChannel cfg) \<Longrightarrow> channel_of (w\<lparr>uwSettings := write_config cfg st\<rparr>) = cfChannel cfg"
  by (simp add: channel_of_def GetConfig_def write_config_def)

lemma channel_of_stamp:
  "channel_of (w\<lparr>uwSettings := (uwSettings w)\<lparr>stLastAutoApplied := a, stLastAutoAppliedVer := b\<rparr>\<rparr>) = channel_of w"
  by (simp add: channel_of_def GetConfig_def)

lemma serial_quiet_step:
  assumes ok: "serial_ok (w, m)" and s: "up_step p current a w = Some w'"
    and q: "\<And>i cfg err. a \<noteq> SaveRead i cfg err" "\<And>i err. a \<noteq> SaveCommit i err" "\<And>i. a \<noteq> SaveBump i"
  shows "serial_ok (w', m)"
proof (cases a)
  case (CheckBegin i)
  show ?thesis
  proof (cases "uwCalls w i")
    case NoCall
    show ?thesis
      by (rule serial_ok_quiet [OF ok, of w' i "CheckAt (svConfigGen (uwService w))"])
        (use s CheckBegin NoCall cache_ok_same [OF ok, of w'] in \<open>auto simp: call_ok_def\<close>)
  qed (use s CheckBegin in simp_all)
next
  case (CheckConfig i err)
  show ?thesis
  proof (cases "uwCalls w i")
    case (CheckAt g)
    have g: "g \<le> svConfigGen (uwService w)" using ok CheckAt by (auto simp: serial_ok_def call_ok_def dest: spec [of _ i])
    show ?thesis
    proof (cases err)
      case None
      show ?thesis
        by (rule serial_ok_quiet [OF ok, of w' i "CheckReading g (channel_of w)"])
          (use s CheckConfig CheckAt None g cache_ok_same [OF ok, of w'] in \<open>auto simp: call_ok_def channel_of_def\<close>)
    next
      case (Some e)
      show ?thesis
        by (rule serial_ok_quiet [OF ok, of w' i NoCall])
          (use s CheckConfig CheckAt Some cache_ok_same [OF ok, of w'] in auto)
    qed
  qed (use s CheckConfig in simp_all)
next
  case (CheckFetch i answer now)
  show ?thesis
  proof (cases "uwCalls w i")
    case (CheckReading g ch)
    have g: "g = svConfigGen (uwService w) \<Longrightarrow> switching w m \<or> ch = channel_of w"
      using ok CheckReading by (auto simp: serial_ok_def call_ok_def dest: spec [of _ i])
    show ?thesis
    proof (cases answer)
      case (Inl e)
      show ?thesis
        by (rule serial_ok_quiet [OF ok, of w' i NoCall])
          (use s CheckFetch CheckReading Inl cache_ok_same [OF ok, of w'] in auto)
    next
      case (Inr rs)
      define res where "res = check_result_of current ch rs"
      obtain stored sv where st: "storeCheckResult g now (crUpdateAvailable res) (crLatest res) (crReleaseURL res)
          (uwService w) = (stored, sv)" by fastforce
      note sv = storeCheckResult_simps [OF st]
      have w': "w' = goto i NoCall (w\<lparr>uwService := finish_check sv,
          uwCacheChannel := (if stored then ch else uwCacheChannel w)\<rparr>)"
        using s CheckFetch CheckReading Inr st by (simp add: Let_def res_def)
      have l: "picked_from ch (crLatest res)" if "crLatest res \<noteq> []"
        using that unfolding picked_from_def
        by (intro exI [of _ rs]) (auto simp: res_def check_result_of_def split: option.splits)
      have ch: "channel_of (w\<lparr>uwService := finish_check sv, uwCacheChannel := c\<rparr>) = channel_of w" for c
        by (simp add: channel_of_def)
      have "cache_ok w' (switching w m)"
        using ok g sv l unfolding w' by (auto simp: serial_ok_def cache_ok_def ch)
      then show ?thesis
        by (intro serial_ok_quiet [OF ok, of w' i NoCall]) (use CheckReading sv in \<open>auto simp: w' ch\<close>)
    qed
  qed (use s CheckFetch in simp_all)
next
  case (ApplyStamp i now)
  show ?thesis
  proof (cases "uwCalls w i")
    case (ApplyEnded t)
    show ?thesis
      by (rule serial_ok_quiet [OF ok, of w' i NoCall])
        (use s ApplyStamp ApplyEnded cache_ok_same [OF ok, of w'] in \<open>auto simp: channel_of_stamp split: if_splits\<close>)
  qed (use s ApplyStamp in simp_all)
next
  case (ApplyLook i t)
  show ?thesis
  proof (cases "uwCalls w i")
    case NoCall
    show ?thesis
      by (rule serial_ok_quiet [OF ok, of w' i "uwCalls w' i"])
        (use s ApplyLook NoCall cache_ok_same [OF ok, of w'] in \<open>auto split: if_splits\<close>)
  qed (use s ApplyLook in simp_all)
next
  case (ApplyCAS i)
  show ?thesis
  proof (cases "uwCalls w i")
    case (ApplyAt t)
    show ?thesis
      by (rule serial_ok_quiet [OF ok, of w' i "uwCalls w' i"])
        (use s ApplyCAS ApplyAt cache_ok_same [OF ok, of w'] in \<open>auto split: if_splits\<close>)
  qed (use s ApplyCAS in simp_all)
next
  case (ApplyConfig i err)
  show ?thesis
  proof (cases "uwCalls w i")
    case (ApplyStarted t)
    show ?thesis
      by (rule serial_ok_quiet [OF ok, of w' i "uwCalls w' i"])
        (use s ApplyConfig ApplyStarted cache_ok_same [OF ok, of w'] in \<open>auto simp: fail_apply_def split: option.splits\<close>)
  qed (use s ApplyConfig in simp_all)
next
  case (ApplyFetch i answer)
  show ?thesis
  proof (cases "uwCalls w i")
    case (ApplyOn t ch)
    show ?thesis
      by (rule serial_ok_quiet [OF ok, of w' i "uwCalls w' i"])
        (use s ApplyFetch ApplyOn cache_ok_same [OF ok, of w'] in \<open>auto simp: fail_apply_def split: sum.splits\<close>)
  qed (use s ApplyFetch in simp_all)
next
  case (ApplyDeliver i env)
  show ?thesis
  proof (cases "uwCalls w i")
    case (ApplyPicked t r)
    show ?thesis
      by (rule serial_ok_quiet [OF ok, of w' i "uwCalls w' i"])
        (use s ApplyDeliver ApplyPicked cache_ok_same [OF ok, of w'] in \<open>auto simp: fail_apply_def split: sum.splits\<close>)
  qed (use s ApplyDeliver in simp_all)
next
  case (ApplyMark i)
  show ?thesis
  proof (cases "uwCalls w i")
    case (ApplyReplaced t u)
    show ?thesis
      by (rule serial_ok_quiet [OF ok, of w' i "ApplyMarked t"])
        (use s ApplyMark ApplyReplaced cache_ok_same [OF ok, of w'] in auto)
  qed (use s ApplyMark in simp_all)
next
  case (ApplyRelease i)
  have "in_apply (uwCalls w i) \<and> \<not> is_save (uwCalls w i)"
    using s ApplyRelease by (cases "uwCalls w i") simp_all
  then show ?thesis
    by (intro serial_ok_quiet [OF ok, of w' i "uwCalls w' i"])
      (use s ApplyRelease cache_ok_same [OF ok, of w'] in \<open>auto split: call.splits\<close>)
qed (use q in simp_all)

lemma serial_save_step:
  assumes ok: "serial_ok (w, m)" and s: "serial_step p current a (w, m) = Some (w', m')"
    and a: "a = SaveRead i cfg err \<or> a = SaveCommit i err \<or> a = SaveBump i"
  shows "serial_ok (w', m')"
proof -
  have inv: "\<And>j. is_save (uwCalls w j) \<longleftrightarrow> m = Some j"
    "\<And>j. call_ok (channel_of w) (svConfigGen (uwService w)) (switching w m) (uwCalls w j)"
    "cache_ok w (switching w m)"
    using ok by (simp_all add: serial_ok_def)
  consider "a = SaveRead i cfg err" | "a = SaveCommit i err" | "a = SaveBump i" using a by blast
  then show ?thesis
  proof cases
    case 1
    have n: "uwCalls w i = NoCall" "m = None"
      using s 1 by (auto simp: serial_step_def split: if_splits call.splits)
    show ?thesis
    proof (cases "check_config cfg")
      case (Inl e)
      have "w' = goto i NoCall w" "m' = None" using s 1 n Inl by (simp_all add: serial_step_def)
      then show ?thesis using inv n by (simp add: serial_ok_def switching_def)
    next
      case (Inr cfg')
      have w': "w' = goto i (SaveAt cfg' (decideChannelChanged
          (case err of Some e \<Rightarrow> None | None \<Rightarrow> Some (GetConfig (uwSettings w))) cfg')) w" "m' = Some i"
        using s 1 n Inr by (simp_all add: serial_step_def)
      have "known_channel (cfChannel cfg')" using Inr by (auto simp: check_config_Inr)
      then show ?thesis using inv n
        by (auto simp: serial_ok_def w' switching_def call_ok_def [of _ _ _ "SaveAt _ _"]
            decideChannelChanged_def channel_of_def split: option.split)
    qed
  next
    case 2
    obtain cfg' changed where c: "uwCalls w i = SaveAt cfg' changed"
      using s 2 by (auto simp: serial_step_def split: call.splits)
    then have m: "m = Some i" using inv(1) [of i] by simp
    have nsw: "\<not> switching w m" using c m by (simp add: switching_def)
    have k: "known_channel (cfChannel cfg')" "changed \<or> cfChannel cfg' = channel_of w"
      using inv(2) [of i] c by (simp_all add: call_ok_def)
    show ?thesis
    proof (cases err)
      case (Some e)
      have "w' = goto i NoCall w" "m' = None" using s 2 c Some by (simp_all add: serial_step_def)
      then show ?thesis using inv m nsw by (simp add: serial_ok_def switching_def)
    next
      case None
      have w': "w' = goto i (SaveStored changed) (w\<lparr>uwSettings := write_config cfg' (uwSettings w)\<rparr>)" "m' = Some i"
        using s 2 c None m by (simp_all add: serial_step_def)
      have ch: "channel_of w' = cfChannel cfg'" using k by (simp add: w' channel_of_write)
      have sw: "switching w' m' = changed" by (simp add: w' switching_def)
      have "call_ok (cfChannel cfg') (svConfigGen (uwService w)) changed (uwCalls w j)" if "j \<noteq> i" for j
        using inv(2) [of j] inv(1) [of j] that m nsw k by (cases "uwCalls w j") (auto simp: call_ok_def)
      moreover have "cache_ok w' changed"
        using inv(3) nsw k ch by (auto simp: cache_ok_def w')
      ultimately show ?thesis using inv(1) m unfolding serial_ok_def prod.case ch sw by (simp add: w')
    qed
  next
    case 3
    obtain changed where c: "uwCalls w i = SaveStored changed"
      using s 3 by (auto simp: serial_step_def split: call.splits)
    then have m: "m = Some i" using inv(1) [of i] by simp
    have sw: "switching w m = changed" using c m by (simp add: switching_def)
    have w': "w' = goto i NoCall (if changed then on_service invalidate_cache w else w)" "m' = None"
      using s 3 c by (simp_all add: serial_step_def)
    have ch: "channel_of w' = channel_of w" by (simp add: w')
    have "call_ok (channel_of w) (svConfigGen (uwService w')) False (uwCalls w j)" if "j \<noteq> i" for j
      using inv(2) [of j] inv(1) [of j] that m sw by (cases "uwCalls w j") (auto simp: call_ok_def w')
    moreover have "cache_ok w' False"
      using inv(3) sw ch by (auto simp: cache_ok_def w')
    ultimately show ?thesis using inv(1) m unfolding serial_ok_def prod.case ch
      by (cases changed) (simp_all add: w' switching_def)
  qed
qed

lemma serial_ok_step: "serial_ok wm \<Longrightarrow> serial_step p current a wm = Some wm' \<Longrightarrow> serial_ok wm'"
proof (cases wm; cases wm')
  fix w m w' m'
  assume e: "wm = (w, m)" "wm' = (w', m')" and ok: "serial_ok wm" and s: "serial_step p current a wm = Some wm'"
  show "serial_ok wm'"
  proof (cases "(\<exists>i cfg err. a = SaveRead i cfg err) \<or> (\<exists>i err. a = SaveCommit i err) \<or> (\<exists>i. a = SaveBump i)")
    case True
    then show ?thesis using serial_save_step ok s unfolding e by blast
  next
    case False
    then have "up_step p current a w = Some w'" "m' = m"
      using s unfolding e by (cases a; auto simp: serial_step_def)+
    then show ?thesis using serial_quiet_step [of w m p current a w'] ok False unfolding e by blast
  qed
qed

interpretation serial_run: guarded_run "serial_step p current" "(boot docker st, None)" serial_ok
  for p current docker st
  by unfold_locales (rule serial_ok_boot, rule serial_ok_step)

text \<open>C18. The cached release belongs to the chosen channel: as long as preferences are saved one after
  another, whenever no save is under way the release the status shows, if any, is the newest of some
  listing for the channel the settings name, whatever checks were in flight when the channel changed.\<close>

theorem cached_release_is_of_the_channel:
  "case fold_opt (serial_step p current) acts (boot docker st, None) of
     None \<Rightarrow> True
   | Some (w, saving) \<Rightarrow>
       if saving = None \<and> 0 < length (svLatestVersion (uwService w))
       then (\<exists>rs. map_option rlTagName (pickLatest rs (cfChannel (GetConfig (uwSettings w)))) =
              Some (svLatestVersion (uwService w)))
       else True"
proof (cases "fold_opt (serial_step p current) acts (boot docker st, None)")
  case (Some wm)
  obtain w m where wm: "wm = (w, m)" by fastforce
  have "cache_ok w (switching w m)" using serial_run.always [OF Some] by (simp add: wm serial_ok_def)
  then have "picked_from (channel_of w) (svLatestVersion (uwService w))"
    if "m = None" "svLatestVersion (uwService w) \<noteq> []"
    using that by (auto simp: cache_ok_def switching_def)
  then show ?thesis by (simp add: Some wm channel_of_def picked_from_def)
qed simp

section \<open>The skip list stops automatic updates\<close>

text \<open>C28. An automatic update installs only what was vetted: the tag it installs is the one the check
  found newer, updates, checks and automatic updates were enabled when it was let through, it was
  not on the skip list, and the host is not a container, even if the channel changed or a newer
  release appeared before the download.\<close>

theorem automatic_update_was_vetted:
  "case maybeAutoApply docker cfg res of
     None \<Rightarrow> True
   | Some pinned \<Rightarrow>
       (case apply_pick current pinned ch releases of
          Inl _ \<Rightarrow> True
        | Inr r \<Rightarrow> rlTagName r = crLatest res \<and> crUpdateAvailable res \<and> \<not> docker \<and>
            rlTagName r \<notin> set (cfSkippedVersions cfg) \<and>
            cfEnabled cfg \<and> cfAutoCheck cfg \<and> cfAutoUpdate cfg \<and> newerThan (rlTagName r) current)"
proof (cases "maybeAutoApply docker cfg res")
  case (Some pinned)
  have v: "pinned = crLatest res" "pinned \<noteq> []" "crUpdateAvailable res" "\<not> docker"
    "pinned \<notin> set (cfSkippedVersions cfg)" "cfEnabled cfg" "cfAutoCheck cfg" "cfAutoUpdate cfg"
    using Some by (auto simp: maybeAutoApply_def split: if_splits)
  show ?thesis
  proof (cases "apply_pick current pinned ch releases")
    case (Inr r)
    show ?thesis unfolding Some option.case Inr sum.case using apply_pick_Inr [OF Inr] v by auto
  qed (simp add: Some)
qed simp

section \<open>Three runs\<close>

definition linux :: platform where
  "linux = \<lparr>goos = ''linux'', goarch = ''amd64''\<rparr>"

definition blank_settings :: settings where
  "blank_settings = \<lparr>stChannel = None, stEnabled = None, stAutoCheck = None, stAutoUpdate = None, stInterval = None,
     stLastAutoApplied = None, stLastAutoAppliedVer = None, stSkipped = None\<rparr>"

definition some_release :: "string \<Rightarrow> release" where
  "some_release tag = \<lparr>rlTagName = tag, rlPrerelease = CHR ''-'' \<in> set tag, rlDraft = False, rlHTMLURL = ''https://r'',
     rlAssets = [\<lparr>assetName = binaryAssetName linux tag, assetURL = ''https://b''\<rparr>,
                 \<lparr>assetName = checksumAssetName tag, assetURL = ''https://c''\<rparr>]\<rparr>"

text \<open>A release server whose manifest lists the digest of every asset asked for below.\<close>

definition good_env :: apply_env where
  "good_env = \<lparr>aeFetch = (\<lambda>u. Inr (if u = ''https://c''
       then ''ab  '' @ binaryAssetName linux ''v1.1.0'' @ [newline] @ ''ab  '' @ binaryAssetName linux ''v1.2.0''
       else ''archive'')),
     aeSha256Hex = (\<lambda>_. ''AB''), aeEntries = (\<lambda>_. [Inr (''dist/stillwater'', ''binary'')]),
     aeSelf = None, aeReplace = None\<rparr>"

definition apply_all :: "nat \<Rightarrow> release list \<Rightarrow> up_act list" where
  "apply_all i rs = [ApplyCAS i, ApplyConfig i None, ApplyFetch i (Inr rs), ApplyDeliver i good_env, ApplyMark i,
     ApplyRelease i]"

lemma apply_parts:
  "apply_pick ''v1.0.0'' [] ''stable'' [some_release ''v1.1.0''] = Inr (some_release ''v1.1.0'')"
  "apply_pick ''v1.0.0'' [] ''stable'' [some_release ''v1.2.0''] = Inr (some_release ''v1.2.0'')"
  "apply_install linux good_env (some_release ''v1.1.0'') = Inr ''binary''"
  "apply_install linux good_env (some_release ''v1.2.0'') = Inr ''binary''"
  "cfChannel (GetConfig blank_settings) = ''stable''"
  by code_simp+

text \<open>The restart guard can be passed twice: two applies look at the flag before either sets it; the
  first one installs v1.1.0 and asks for a restart; the second then starts, although a restart is
  required, and installs v1.2.0 over the staged binary.\<close>

theorem second_apply_replaces_staged_binary:
  "case fold_opt (up_step linux ''v1.0.0'')
      ([ApplyLook 0 [], ApplyLook 1 []] @ apply_all 0 [some_release ''v1.1.0'']) (boot False blank_settings) of
     None \<Rightarrow> False
   | Some w \<Rightarrow>
       svRestartRequired (uwService w) \<and> svPendingVersion (uwService w) = ''v1.1.0'' \<and>
       (case fold_opt (up_step linux ''v1.0.0'') (apply_all 1 [some_release ''v1.2.0'']) w of
          None \<Rightarrow> False
        | Some w' \<Rightarrow> uwInstalled w' = [(''v1.2.0'', ''binary''), (''v1.1.0'', ''binary'')])"
  by (simp add: apply_all_def boot_def NewService_def goto_def on_service_def apply_parts setState_def
      markRestartRequired_def) (simp add: some_release_def)

definition cfg_with :: "string \<Rightarrow> bool \<Rightarrow> config" where
  "cfg_with ch auto = default_config\<lparr>cfChannel := ch, cfAutoCheck := auto\<rparr>"

lemma save_parts:
  "check_config (cfg_with ''prerelease'' False) = Inr (cfg_with ''prerelease'' False)"
  "check_config (cfg_with ''stable'' True) = Inr (cfg_with ''stable'' True)"
  "decideChannelChanged (Some (GetConfig blank_settings)) (cfg_with ''prerelease'' False)"
  "\<not> decideChannelChanged (Some (GetConfig blank_settings)) (cfg_with ''stable'' True)"
  "cfChannel (GetConfig (write_config (cfg_with ''prerelease'' False) blank_settings)) = ''prerelease''"
  "cfChannel (GetConfig (write_config (cfg_with ''stable'' True)
     (write_config (cfg_with ''prerelease'' False) blank_settings))) = ''stable''"
  "check_result_of ''v1.0.0'' ''prerelease'' [some_release ''v1.1.0-rc1''] =
     \<lparr>crLatest = ''v1.1.0-rc1'', crChannel = ''prerelease'', crUpdateAvailable = True, crReleaseURL = ''https://r''\<rparr>"
  by code_simp+

text \<open>Overlapping saves can leave the wrong channel's release in the cache: one save switches to
  pre-releases while another, which read the old channel, only turns on automatic checks; a check in
  between stores a pre-release, and the second save puts the channel back without clearing it. The
  status then offers a pre-release on the stable channel.\<close>

theorem overlapping_saves_mix_channels:
  "case fold_opt (up_step linux ''v1.0.0'')
      [SaveRead 0 (cfg_with ''prerelease'' False) None, SaveRead 1 (cfg_with ''stable'' True) None,
       SaveCommit 0 None, SaveBump 0, CheckBegin 2, CheckConfig 2 None,
       CheckFetch 2 (Inr [some_release ''v1.1.0-rc1'']) 7, SaveCommit 1 None, SaveBump 1]
      (boot False blank_settings) of
     None \<Rightarrow> False
   | Some w \<Rightarrow> cfChannel (GetConfig (uwSettings w)) = ''stable'' \<and> svUpdateAvailable (uwService w) \<and>
       svLatestVersion (uwService w) = ''v1.1.0-rc1''"
  by (simp add: boot_def NewService_def goto_def on_service_def save_parts setState_def storeCheckResult_def
      finish_check_def invalidate_cache_def)

text \<open>A check hides an apply: while an apply is downloading, a check sets the state to checking and, as
  it then still finds it so, back to idle at its end; the status reports an idle service although the
  apply is running.\<close>

theorem check_hides_running_apply:
  "case fold_opt (up_step linux ''v1.0.0'')
      [ApplyLook 0 [], ApplyCAS 0, ApplyConfig 0 None, ApplyFetch 0 (Inr [some_release ''v1.1.0'']),
       CheckBegin 1, CheckConfig 1 None, CheckFetch 1 (Inr []) 7] (boot False blank_settings) of
     None \<Rightarrow> False
   | Some w \<Rightarrow> svApplyRunning (uwService w) \<and> in_apply (uwCalls w 0) \<and> svState (uwService w) = StateIdle"
  by (simp add: boot_def NewService_def goto_def on_service_def apply_parts setState_def storeCheckResult_def
      finish_check_def check_result_of_def pickLatest_def Let_def)

theorem saved_config_reads_back_witness:
  "GetConfig (write_config ((cfg_with ''nightly'' True)\<lparr>cfCheckIntervalHours := 24\<rparr>) blank_settings) =
     cfg_with ''nightly'' True"
proof -
  have c: "check_config ((cfg_with ''nightly'' True)\<lparr>cfCheckIntervalHours := 0\<rparr>) =
      Inr ((cfg_with ''nightly'' True)\<lparr>cfCheckIntervalHours := 24\<rparr>)" by code_simp
  have g: "GetConfig blank_settings = default_config" by code_simp
  show ?thesis
    using saved_config_reads_back [OF c, of blank_settings]
    by (simp add: g cfg_with_def default_config_def DefaultCheckIntervalHours_def)
qed

end
