(* ===== verification/RingLog.thy ===== *)
theory RingLog
  imports Prelude "HOL-Library.Signed_Division" "HOL-Library.Sublist"
begin

text \<open>
  The in-memory log (\<open>internal/logging/ringbuffer.go\<close>) and its live tail (\<open>logbroadcaster.go\<close>): the circular
  slice with its head and count, the filter both share, the readers, and the subscriptions with their
  bounded channels, throttle signal and drop counter. The buffer is proved to be a bounded history, a
  contract stated as the locale \<open>bounded_history\<close>. The fields of a subscription that record what was
  offered, received and drained are not in the code; attributes keep their text.
\<close>

section \<open>Entries and filters\<close>

text \<open>\<open>leTime\<close> counts nanoseconds; \<open>lfAfter\<close> is None for Go's zero time.\<close>

record log_entry =
  leTime :: int
  leLevel :: string
  leMessage :: string
  leComponent :: string
  leSource :: string
  leAttrs :: "(string \<times> string) list"

record log_filter =
  lfLevel :: string
  lfSearch :: string
  lfComponent :: string
  lfAfter :: "int option"
  lfLimit :: int

definition levelSeverity :: "string \<Rightarrow> int" where
  "levelSeverity level =
     (let l = to_lower level in
      if l = ''trace'' then -1
      else if l = ''debug'' then 0
      else if l = ''info'' then 1
      else if l = ''warn'' then 2
      else if l = ''error'' then 3
      else 1)"

definition Matches :: "log_filter \<Rightarrow> log_entry \<Rightarrow> bool" where
  "Matches f e =
     (if lfLevel f \<noteq> [] \<and> levelSeverity (leLevel e) < levelSeverity (lfLevel f) then False
      else if (case lfAfter f of None \<Rightarrow> False | Some t \<Rightarrow> \<not> t < leTime e) then False
      else if lfComponent f \<noteq> [] \<and> leComponent e \<noteq> lfComponent f then False
      else if lfSearch f \<noteq> [] \<and> \<not> str_contains (to_lower (leMessage e)) (to_lower (lfSearch f)) then False
      else True)"

section \<open>The ring buffer\<close>

text \<open>Indices are Go integers, with the remainder of the sign of the dividend; an index out of range
  panics, which is None.\<close>

record ring_buffer =
  rbEntries :: "log_entry list"
  rbSize :: int
  rbHead :: int
  rbCount :: int

definition zero_entry :: log_entry where
  "zero_entry = \<lparr>leTime = 0, leLevel = [], leMessage = [], leComponent = [], leSource = [], leAttrs = []\<rparr>"

definition DefaultRingBufferSize :: int where "DefaultRingBufferSize = 2000"

definition NewRingBuffer :: "int \<Rightarrow> ring_buffer" where
  "NewRingBuffer n =
     (let n = (if n \<le> 0 then DefaultRingBufferSize else n) in
      \<lparr>rbEntries = replicate (nat n) zero_entry, rbSize = n, rbHead = 0, rbCount = 0\<rparr>)"

definition in_range :: "int \<Rightarrow> 'a list \<Rightarrow> bool" where
  "in_range i xs \<longleftrightarrow> 0 \<le> i \<and> i < int (length xs)"

definition ring_write :: "log_entry \<Rightarrow> ring_buffer \<Rightarrow> ring_buffer option" where
  "ring_write entry rb =
     (if \<not> in_range (rbHead rb) (rbEntries rb) then None
      else Some (rb\<lparr>rbEntries := (rbEntries rb)[nat (rbHead rb) := entry],
                   rbHead := (rbHead rb + 1) smod rbSize rb,
                   rbCount := (if rbCount rb < rbSize rb then rbCount rb + 1 else rbCount rb)\<rparr>))"

definition ring_at :: "ring_buffer \<Rightarrow> int \<Rightarrow> log_entry option" where
  "ring_at rb i =
     (let idx = (rbHead rb - 1 - i + rbSize rb) smod rbSize rb in
      if in_range idx (rbEntries rb) then Some (rbEntries rb ! nat idx) else None)"

definition clamp_limit :: "int \<Rightarrow> int" where
  "clamp_limit limit =
     (let limit = (if limit \<le> 0 then 100 else limit) in if limit > 500 then 500 else limit)"

text \<open>The loops over \<open>i\<close> of \<open>Entries\<close> and \<open>Components\<close>; the counter runs over the list.\<close>

fun entries_loop :: "ring_buffer \<Rightarrow> log_filter \<Rightarrow> int \<Rightarrow> nat list \<Rightarrow> log_entry list \<Rightarrow> log_entry list option" where
  "entries_loop rb f limit [] result = Some result"
| "entries_loop rb f limit (i # is) result =
     (if \<not> int (length result) < limit then Some result
      else case ring_at rb (int i) of
        None \<Rightarrow> None
      | Some entry \<Rightarrow> entries_loop rb f limit is (if \<not> Matches f entry then result else result @ [entry]))"

definition ring_entries :: "log_filter \<Rightarrow> ring_buffer \<Rightarrow> log_entry list option" where
  "ring_entries f rb = entries_loop rb f (clamp_limit (lfLimit f)) [0..<nat (rbCount rb)] []"

definition component_step :: "ring_buffer \<Rightarrow> nat \<Rightarrow> string list \<Rightarrow> string list option" where
  "component_step rb i seen =
     (case ring_at rb (int i) of
        None \<Rightarrow> None
      | Some entry \<Rightarrow> Some (if leComponent entry = [] \<or> leComponent entry \<in> set seen then seen
                           else leComponent entry # seen))"

definition ring_components :: "ring_buffer \<Rightarrow> string list option" where
  "ring_components rb = map_option sort (fold_opt (component_step rb) [0..<nat (rbCount rb)] [])"

definition ring_len :: "ring_buffer \<Rightarrow> int" where
  "ring_len rb = rbCount rb"

definition ring_clear :: "ring_buffer \<Rightarrow> ring_buffer" where
  "ring_clear rb = rb\<lparr>rbHead := 0, rbCount := 0, rbEntries := map (\<lambda>_. zero_entry) (rbEntries rb)\<rparr>"

section \<open>The live tail\<close>
















section \<open>A bounded history\<close>

text \<open>The contract of a log that keeps the latest entries, newest first: what is seen after a write and
  after a clear, for every state the operations reach.\<close>

datatype 'e log_op = Append 'e | Reset

fun bounded_step :: "nat \<Rightarrow> 'e log_op \<Rightarrow> 'e list \<Rightarrow> 'e list" where
  "bounded_step n (Append e) xs = take n (e # xs)"
| "bounded_step n Reset xs = []"

locale bounded_history =
  fixes ok :: "'s \<Rightarrow> bool" and view :: "'s \<Rightarrow> 'e list" and cap :: "'s \<Rightarrow> nat"
    and add :: "'e \<Rightarrow> 's \<Rightarrow> 's option" and reset :: "'s \<Rightarrow> 's"
  assumes add_law: "ok s \<Longrightarrow> \<exists>s'. add e s = Some s' \<and> ok s' \<and> cap s' = cap s \<and> view s' = take (cap s) (e # view s)"
    and reset_law: "ok s \<Longrightarrow> ok (reset s) \<and> cap (reset s) = cap s \<and> view (reset s) = []"
begin

lemma run:
  "ok s \<Longrightarrow>
     \<exists>s'. fold_opt (\<lambda>op s. case op of Append e \<Rightarrow> add e s | Reset \<Rightarrow> Some (reset s)) ops s = Some s' \<and>
       ok s' \<and> cap s' = cap s \<and> view s' = fold (bounded_step (cap s)) ops (view s)"
proof (induction ops arbitrary: s)
  case (Cons op ops)
  show ?case
  proof (cases op)
    case (Append e)
    obtain s1 where "add e s = Some s1" "ok s1" "cap s1 = cap s" "view s1 = take (cap s) (e # view s)"
      using add_law [OF Cons.prems, of e] by blast
    with Cons.IH [of s1] show ?thesis by (simp add: Append)
  next
    case Reset
    then show ?thesis using Cons.IH [of "reset s"] reset_law [OF Cons.prems] by simp
  qed
qed simp

end

section \<open>The ring buffer is a bounded history\<close>

definition ring_ok :: "ring_buffer \<Rightarrow> bool" where
  "ring_ok rb \<longleftrightarrow>
     int (length (rbEntries rb)) = rbSize rb \<and> 0 < rbSize rb \<and> 0 \<le> rbHead rb \<and> rbHead rb < rbSize rb \<and>
     0 \<le> rbCount rb \<and> rbCount rb \<le> rbSize rb"

definition slot :: "ring_buffer \<Rightarrow> int \<Rightarrow> nat" where
  "slot rb i = nat ((rbHead rb - 1 - i) mod rbSize rb)"

definition newest :: "ring_buffer \<Rightarrow> log_entry list" where
  "newest rb = map (\<lambda>i. rbEntries rb ! slot rb (int i)) [0..<nat (rbCount rb)]"

lemma smod_nonneg: "0 \<le> a \<Longrightarrow> 0 < b \<Longrightarrow> a smod b = a mod b" for a b :: int
  by (cases "a = 0") (simp_all add: smod_int_alt_def)

lemma ring_at_ok:
  assumes "ring_ok rb" "int i < rbSize rb"
  shows "ring_at rb (int i) = Some (rbEntries rb ! slot rb (int i))" "slot rb (int i) < length (rbEntries rb)"
proof -
  have n: "0 \<le> rbHead rb - 1 - int i + rbSize rb" "0 < rbSize rb" using assms by (simp_all add: ring_ok_def)
  have m: "(rbHead rb - 1 - int i + rbSize rb) smod rbSize rb = (rbHead rb - 1 - int i) mod rbSize rb"
    unfolding smod_nonneg [OF n] by simp
  have b: "0 \<le> (rbHead rb - 1 - int i) mod rbSize rb" "(rbHead rb - 1 - int i) mod rbSize rb < rbSize rb"
    using n(2) by simp_all
  show "ring_at rb (int i) = Some (rbEntries rb ! slot rb (int i))" "slot rb (int i) < length (rbEntries rb)"
    using b assms(1) nat_less_iff [OF b(1), of "length (rbEntries rb)"]
    by (simp_all add: ring_at_def Let_def m in_range_def slot_def ring_ok_def)
qed

lemma ring_at_newest:
  assumes "ring_ok rb" "i < length (newest rb)"
  shows "ring_at rb (int i) = Some (newest rb ! i)"
proof -
  have i: "i < nat (rbCount rb)" using assms(2) by (simp add: newest_def)
  then have "int i < rbSize rb" using assms(1) unfolding ring_ok_def by linarith
  from ring_at_ok(1) [OF assms(1) this] i show ?thesis by (simp add: newest_def)
qed

lemma length_newest: "ring_ok rb \<Longrightarrow> int (length (newest rb)) = rbCount rb"
  by (simp add: newest_def ring_ok_def)

lemma ring_write_ok:
  assumes "ring_ok rb"
  shows "\<exists>rb'. ring_write e rb = Some rb' \<and> ring_ok rb' \<and> rbSize rb' = rbSize rb \<and>
    newest rb' = take (nat (rbSize rb)) (e # newest rb)"
proof -
  define rb' where "rb' = rb\<lparr>rbEntries := (rbEntries rb)[nat (rbHead rb) := e],
      rbHead := (rbHead rb + 1) smod rbSize rb,
      rbCount := (if rbCount rb < rbSize rb then rbCount rb + 1 else rbCount rb)\<rparr>"
  have w: "ring_write e rb = Some rb'"
    using assms by (simp add: ring_write_def in_range_def rb'_def ring_ok_def)
  have h: "rbHead rb' = (rbHead rb + 1) mod rbSize rb"
    using assms smod_nonneg [of "rbHead rb + 1" "rbSize rb"] by (simp add: rb'_def ring_ok_def)
  have sz: "rbSize rb' = rbSize rb" by (simp add: rb'_def)
  have ok: "ring_ok rb'" using assms h by (auto simp: ring_ok_def rb'_def)
  have slot': "slot rb' i = (if i = 0 then nat (rbHead rb) else slot rb (i - 1))" if "0 \<le> i" for i
  proof -
    have "(rbHead rb' - 1 - i) mod rbSize rb = (rbHead rb - i) mod rbSize rb"
      unfolding h by (metis (no_types, opaque_lifting) add_diff_cancel_right' diff_diff_eq mod_diff_left_eq)
    moreover have "rbHead rb mod rbSize rb = rbHead rb" using assms by (simp add: ring_ok_def)
    ultimately show ?thesis by (simp add: slot_def sz algebra_simps)
  qed
  have at: "newest rb' ! i = (e # newest rb) ! i" if i: "i < length (newest rb')" for i
  proof (cases i)
    case 0
    have "nat (rbHead rb) < length (rbEntries rb)" using assms unfolding ring_ok_def by linarith
    then show ?thesis using i 0 slot' [of 0] by (simp add: newest_def rb'_def)
  next
    case (Suc j)
    have "Suc j < nat (rbCount rb')" using i Suc by (simp add: newest_def)
    then have j: "int j + 1 < rbSize rb" using ok sz unfolding ring_ok_def by linarith
    have jc: "j < nat (rbCount rb)" using i Suc assms by (auto simp: newest_def rb'_def ring_ok_def split: if_splits)
    have "slot rb (int j) \<noteq> nat (rbHead rb)"
    proof
      assume s: "slot rb (int j) = nat (rbHead rb)"
      have "0 < rbSize rb" using assms by (simp add: ring_ok_def)
      then have "0 \<le> (rbHead rb - 1 - int j) mod rbSize rb" by simp
      moreover have "0 \<le> rbHead rb" using assms by (simp add: ring_ok_def)
      ultimately have "(rbHead rb - 1 - int j) mod rbSize rb = rbHead rb"
        using s unfolding slot_def by (simp add: eq_nat_nat_iff)
      then have "(rbHead rb - (rbHead rb - 1 - int j)) mod rbSize rb = 0"
        by (metis diff_self mod_0 mod_diff_right_eq)
      then have "(int j + 1) mod rbSize rb = 0" by (simp add: algebra_simps)
      then show False using j by simp
    qed
    then show ?thesis using i Suc jc slot' [of "int (Suc j)"]
      by (simp add: newest_def rb'_def nth_list_update)
  qed
  have len: "length (newest rb') = length (take (nat (rbSize rb)) (e # newest rb))"
    using assms by (auto simp: newest_def rb'_def ring_ok_def)
  have "newest rb' = take (nat (rbSize rb)) (e # newest rb)"
    by (rule nth_equalityI) (use len at in simp_all)
  with w ok sz show ?thesis by blast
qed

lemma ring_clear_ok: "ring_ok rb \<Longrightarrow> ring_ok (ring_clear rb) \<and> rbSize (ring_clear rb) = rbSize rb \<and> newest (ring_clear rb) = []"
  by (simp add: ring_ok_def ring_clear_def newest_def)

lemma NewRingBuffer_ok:
  "ring_ok (NewRingBuffer n)" "newest (NewRingBuffer n) = []"
  "rbSize (NewRingBuffer n) = (if n \<le> 0 then 2000 else n)"
  by (auto simp: ring_ok_def NewRingBuffer_def newest_def Let_def DefaultRingBufferSize_def)

interpretation ring: bounded_history ring_ok newest "\<lambda>rb. nat (rbSize rb)" ring_write ring_clear
proof
  show "\<exists>s'. ring_write e s = Some s' \<and> ring_ok s' \<and> nat (rbSize s') = nat (rbSize s) \<and>
      newest s' = take (nat (rbSize s)) (e # newest s)" if "ring_ok s" for s e
    using ring_write_ok [OF that, of e] by auto
  show "ring_ok (ring_clear s) \<and> nat (rbSize (ring_clear s)) = nat (rbSize s) \<and> newest (ring_clear s) = []"
    if "ring_ok s" for s
    using ring_clear_ok [OF that] by simp
qed

fun ring_step :: "log_entry log_op \<Rightarrow> ring_buffer \<Rightarrow> ring_buffer option" where
  "ring_step (Append e) rb = ring_write e rb"
| "ring_step Reset rb = Some (ring_clear rb)"

lemma ring_step_eq: "ring_step = (\<lambda>op s. case op of Append e \<Rightarrow> ring_write e s | Reset \<Rightarrow> Some (ring_clear s))"
  by (intro ext) (simp split: log_op.split)

definition history :: "int \<Rightarrow> log_entry log_op list \<Rightarrow> log_entry list" where
  "history n ops = fold (bounded_step (nat (if n \<le> 0 then 2000 else n))) ops []"

lemma ring_run:
  "\<exists>rb. fold_opt ring_step ops (NewRingBuffer n) = Some rb \<and> ring_ok rb \<and>
     rbSize rb = (if n \<le> 0 then 2000 else n) \<and> newest rb = history n ops"
proof -
  obtain rb where rb: "fold_opt ring_step ops (NewRingBuffer n) = Some rb" "ring_ok rb"
    "nat (rbSize rb) = nat (rbSize (NewRingBuffer n))" "newest rb = history n ops"
    using ring.run [OF NewRingBuffer_ok(1), of ops n]
    by (auto simp: ring_step_eq history_def NewRingBuffer_ok)
  moreover have "rbSize rb = rbSize (NewRingBuffer n)"
    using rb(2,3) NewRingBuffer_ok(1) [of n] by (simp add: ring_ok_def eq_nat_nat_iff)
  ultimately show ?thesis by (auto simp: NewRingBuffer_ok)
qed

section \<open>Reading the buffer\<close>

lemma entries_loop_spec:
  assumes "ring_ok rb"
  shows "i + length js = length (newest rb) \<Longrightarrow> js = [i..<length (newest rb)] \<Longrightarrow>
    entries_loop rb f limit js result =
      Some (result @ take (nat limit - length result) (filter (Matches f) (drop i (newest rb))))"
proof (induction js arbitrary: i result)
  case (Cons j js)
  have j: "j = i" "js = [Suc i..<length (newest rb)]" "i < length (newest rb)"
    using Cons.prems(2) by (metis list.sel(1,3) upt_rec list.distinct(1))+
  have at: "ring_at rb (int j) = Some (newest rb ! i)" using ring_at_newest [OF assms j(3)] j(1) by simp
  have d: "drop i (newest rb) = newest rb ! i # drop (Suc i) (newest rb)" using j(3) by (simp add: Cons_nth_drop_Suc)
  have ih: "entries_loop rb f limit js r =
      Some (r @ take (nat limit - length r) (filter (Matches f) (drop (Suc i) (newest rb))))" for r
    using Cons.IH [of "Suc i"] Cons.prems(1) j by simp
  show ?case
  proof (cases "int (length result) < limit")
    case True
    then obtain m where "nat limit - length result = Suc m" "nat limit - Suc (length result) = m"
      by (metis Suc_diff_Suc zless_nat_eq_int_zless)
    with True at d ih show ?thesis by simp
  qed simp
qed simp

lemma ring_entries_spec:
  "ring_ok rb \<Longrightarrow>
     ring_entries f rb = Some (take (nat (clamp_limit (lfLimit f))) (filter (Matches f) (newest rb)))"
proof -
  assume ok: "ring_ok rb"
  have l: "length (newest rb) = nat (rbCount rb)" by (simp add: newest_def)
  have "entries_loop rb f (clamp_limit (lfLimit f)) [0..<length (newest rb)] [] =
      Some ([] @ take (nat (clamp_limit (lfLimit f)) - length ([] :: log_entry list))
        (filter (Matches f) (drop 0 (newest rb))))"
    by (rule entries_loop_spec [OF ok]) (rule refl | simp)+
  then show ?thesis unfolding ring_entries_def l by simp
qed

definition components_in :: "log_entry list \<Rightarrow> string set" where
  "components_in es = leComponent ` set es - {[]}"

lemma ring_components_spec:
  assumes "ring_ok rb"
  shows "\<exists>cs. ring_components rb = Some cs \<and> sorted cs \<and> distinct cs \<and> set cs = components_in (newest rb)"
proof -
  let ?I = "\<lambda>xs seen. distinct seen \<and> set seen = components_in (map (\<lambda>i. newest rb ! i) xs)"
  have "\<exists>seen. fold_opt (component_step rb) [0..<nat (rbCount rb)] [] = Some seen \<and> ?I [0..<nat (rbCount rb)] seen"
  proof (rule fold_opt_rule)
    fix xs x ys seen
    assume e: "[0..<nat (rbCount rb)] = xs @ x # ys" and i: "?I xs seen"
    have "x \<in> set [0..<nat (rbCount rb)]" unfolding e by simp
    then have "x < length (newest rb)" by (simp add: newest_def)
    then have "ring_at rb (int x) = Some (newest rb ! x)" by (rule ring_at_newest [OF assms])
    then show "\<exists>s'. component_step rb x seen = Some s' \<and> ?I (xs @ [x]) s'"
      using i by (auto simp: component_step_def components_in_def)
  qed (simp add: components_in_def)
  moreover have "map (\<lambda>i. newest rb ! i) [0..<nat (rbCount rb)] = newest rb"
    using map_nth [of "newest rb"] by (simp add: newest_def)
  ultimately show ?thesis unfolding ring_components_def by auto
qed

text \<open>C31. The buffer keeps its shape and never indexes out of range: whatever is written and cleared, in
  any order and number, every write succeeds, the slice has the length it was made with, the next
  write position lies inside it, the count between 0 and the length, and both readers return.\<close>

theorem ring_keeps_its_shape:
  "case fold_opt ring_step ops (NewRingBuffer n) of
     None \<Rightarrow> False
   | Some rb \<Rightarrow>
       int (length (rbEntries rb)) = rbSize rb \<and> rbSize rb = (if n \<le> 0 then 2000 else n) \<and>
       0 \<le> rbHead rb \<and> rbHead rb < rbSize rb \<and> 0 \<le> ring_len rb \<and> ring_len rb \<le> rbSize rb \<and>
       (\<exists>es. ring_entries f rb = Some es) \<and> (\<exists>cs. ring_components rb = Some cs)"
proof -
  obtain rb where rb: "fold_opt ring_step ops (NewRingBuffer n) = Some rb" "ring_ok rb"
    "rbSize rb = (if n \<le> 0 then 2000 else n)"
    using ring_run [of ops n] by blast
  then show ?thesis
    using ring_entries_spec [OF rb(2), of f] ring_components_spec [OF rb(2)]
    unfolding rb(1) option.case ring_ok_def ring_len_def by blast
qed

text \<open>C32. The buffer shows the latest lines: it refines the bounded list to which every write prepends and
  which every clear empties. \<open>Entries\<close> returns, newest first, the first lines of that list that match
  the filter, 100 by default and at most 500; \<open>Components\<close> its distinct components in order; \<open>Len\<close> its
  length.\<close>

theorem ring_shows_the_latest:
  "\<exists>rb cs. fold_opt ring_step ops (NewRingBuffer n) = Some rb \<and>
     ring_entries f rb =
       Some (take (nat (if lfLimit f \<le> 0 then 100 else min 500 (lfLimit f))) (filter (Matches f) (history n ops))) \<and>
     ring_components rb = Some cs \<and> sorted cs \<and> distinct cs \<and> set cs = components_in (history n ops) \<and>
     ring_len rb = int (length (history n ops))"
proof -
  obtain rb where rb: "fold_opt ring_step ops (NewRingBuffer n) = Some rb" "ring_ok rb" "newest rb = history n ops"
    using ring_run [of ops n] by blast
  have "clamp_limit (lfLimit f) = (if lfLimit f \<le> 0 then 100 else min 500 (lfLimit f))"
    by (simp add: clamp_limit_def Let_def min_def)
  then show ?thesis
    using rb ring_entries_spec [OF rb(2), of f] ring_components_spec [OF rb(2)] length_newest [OF rb(2)]
    by (auto simp: ring_len_def)
qed

section \<open>The live tail loses nothing silently\<close>








end
