(* ===== verification/Aimd.thy ===== *)
theory Aimd
  imports Complex_Main Prelude
begin

text \<open>
  The adaptive rate limits of the metadata providers (\<open>internal/provider/aimd.go\<close>, the table of default
  rates and the limiter map of \<open>ratelimit.go\<close>): additive increase after ten successes, halving on a
  rate-limit error at most every thirty seconds, and the ceilings an operator sets. Rates are exact
  rationals where the code has 64-bit floats: the default rates and the step are multiples of one half,
  halving is exact, and where an operator's ceiling makes a sum round, rounding is monotone and keeps
  the bounds proved here.
\<close>

section \<open>State\<close>

definition NameMusicBrainz :: string where "NameMusicBrainz = ''musicbrainz''"

definition defaultRateLimits :: "(string \<times> rat) list" where
  "defaultRateLimits =
     [(''musicbrainz'', 1), (''fanarttv'', 3), (''audiodb'', 1 / 2), (''discogs'', 1), (''lastfm'', 5),
      (''wikidata'', 5), (''duckduckgo'', 1), (''deezer'', 5), (''genius'', 5), (''wikipedia'', 5),
      (''allmusic'', 1), (''spotify'', 5)]"

definition default_limit :: "string \<Rightarrow> rat" where
  "default_limit name = (case map_of defaultRateLimits name of None \<Rightarrow> 0 | Some l \<Rightarrow> l)"

definition aimdIncrement :: rat where "aimdIncrement = 1 / 2"
definition aimdDecreaseFactor :: rat where "aimdDecreaseFactor = 1 / 2"
definition aimdSuccessThreshold :: int where "aimdSuccessThreshold = 10"
definition aimdHysteresisCooldown :: int where "aimdHysteresisCooldown = 30 * 10 ^ 9"
definition aimdDefaultCeilingMultiplier :: rat where "aimdDefaultCeilingMultiplier = 10"

record aimd_state =
  asCurrentLimit :: rat
  asCeiling :: rat
  asLastDecrease :: "int option"
  asSuccessCount :: int

text \<open>The controller and the limiters it drives; \<open>acLimiters\<close> is the rate each limiter enforces.\<close>

record aimd_controller =
  acStates :: "string \<Rightarrow> aimd_state option"
  acLimiters :: "string \<Rightarrow> rat option"

definition NewRateLimiterMap :: "string \<Rightarrow> rat option" where
  "NewRateLimiterMap = map_of defaultRateLimits"

definition NewAIMDController :: aimd_controller where
  "NewAIMDController = \<lparr>acStates = (\<lambda>_. None), acLimiters = NewRateLimiterMap\<rparr>"

section \<open>Operations\<close>

definition fresh_state :: "string \<Rightarrow> aimd_state" where
  "fresh_state name =
     (let flr = default_limit name;
          ceil = flr * aimdDefaultCeilingMultiplier;
          ceil = (if ceil \<le> 0 then aimdIncrement * aimdDefaultCeilingMultiplier else ceil);
          currentLimit = (if flr < aimdIncrement then aimdIncrement else flr)
      in \<lparr>asCurrentLimit = currentLimit, asCeiling = ceil, asLastDecrease = None, asSuccessCount = 0\<rparr>)"

definition stateFor :: "string \<Rightarrow> aimd_controller \<Rightarrow> aimd_state" where
  "stateFor name c = (case acStates c name of Some s \<Rightarrow> s | None \<Rightarrow> fresh_state name)"

definition put_state :: "string \<Rightarrow> aimd_state \<Rightarrow> aimd_controller \<Rightarrow> aimd_controller" where
  "put_state name s c = c\<lparr>acStates := (acStates c)(name := Some s)\<rparr>"

definition SetLimit :: "string \<Rightarrow> rat \<Rightarrow> aimd_controller \<Rightarrow> aimd_controller" where
  "SetLimit name limit c = c\<lparr>acLimiters := (acLimiters c)(name := Some limit)\<rparr>"

definition RecordSuccess :: "string \<Rightarrow> aimd_controller \<Rightarrow> aimd_controller" where
  "RecordSuccess name c =
     (let s = stateFor name c;
          s = s\<lparr>asSuccessCount := asSuccessCount s + 1\<rparr> in
      if asSuccessCount s < aimdSuccessThreshold then put_state name s c
      else
        let s = s\<lparr>asSuccessCount := 0\<rparr>;
            newLimit = asCurrentLimit s + aimdIncrement;
            newLimit = (if newLimit > asCeiling s then asCeiling s else newLimit) in
        if newLimit = asCurrentLimit s then put_state name s c
        else SetLimit name newLimit (put_state name (s\<lparr>asCurrentLimit := newLimit\<rparr>) c))"

definition effective_floor :: "string \<Rightarrow> rat" where
  "effective_floor name = (let flr = default_limit name in if flr < aimdIncrement then aimdIncrement else flr)"

definition RecordFailure :: "string \<Rightarrow> int \<Rightarrow> aimd_controller \<Rightarrow> aimd_controller" where
  "RecordFailure name now c =
     (let s = stateFor name c in
      if (case asLastDecrease s of None \<Rightarrow> False | Some t \<Rightarrow> now - t < aimdHysteresisCooldown)
      then put_state name s c
      else
        let newLimit = asCurrentLimit s * aimdDecreaseFactor;
            newLimit = (if newLimit < effective_floor name then effective_floor name else newLimit) in
        SetLimit name newLimit
          (put_state name (s\<lparr>asCurrentLimit := newLimit, asSuccessCount := 0, asLastDecrease := Some now\<rparr>) c))"

definition SetCeiling :: "string \<Rightarrow> rat \<Rightarrow> aimd_controller \<Rightarrow> aimd_controller" where
  "SetCeiling name ceil c =
     (let s = stateFor name c;
          ceil = (if ceil \<le> 0 then default_limit name * aimdDefaultCeilingMultiplier else ceil) in
      put_state name (s\<lparr>asCeiling := ceil\<rparr>) c)"

definition GetCurrentLimit :: "string \<Rightarrow> aimd_controller \<Rightarrow> rat \<times> aimd_controller" where
  "GetCurrentLimit name c = (let s = stateFor name c in (asCurrentLimit s, put_state name s c))"

definition GetCeiling :: "string \<Rightarrow> aimd_controller \<Rightarrow> rat \<times> aimd_controller" where
  "GetCeiling name c = (let s = stateFor name c in (asCeiling s, put_state name s c))"

datatype aimd_act = Success string | Failure string int | Ceiling string rat | ReadLimit string | ReadCeiling string

text \<open>A ceiling that is accepted here is not below the provider's floor.\<close>

definition sensible :: "aimd_act \<Rightarrow> bool" where
  "sensible a =
     (case a of
        Ceiling name c \<Rightarrow> if c \<le> 0 then aimdIncrement \<le> default_limit name else effective_floor name \<le> c
      | _ \<Rightarrow> True)"

definition aimd_act_on :: "aimd_act \<Rightarrow> aimd_controller \<Rightarrow> aimd_controller" where
  "aimd_act_on a c =
     (case a of
        Success name \<Rightarrow> RecordSuccess name c
      | Failure name now \<Rightarrow> RecordFailure name now c
      | Ceiling name l \<Rightarrow> SetCeiling name l c
      | ReadLimit name \<Rightarrow> snd (GetCurrentLimit name c)
      | ReadCeiling name \<Rightarrow> snd (GetCeiling name c))"

definition aimd_step :: "aimd_act \<Rightarrow> aimd_controller \<Rightarrow> aimd_controller option" where
  "aimd_step a c = (if sensible a then Some (aimd_act_on a c) else None)"

section \<open>The limit stays between floor and ceiling\<close>

definition state_ok :: "string \<Rightarrow> aimd_state \<Rightarrow> bool" where
  "state_ok name s \<longleftrightarrow>
     effective_floor name \<le> asCurrentLimit s \<and> effective_floor name \<le> asCeiling s \<and>
     0 \<le> asSuccessCount s \<and> asSuccessCount s < aimdSuccessThreshold"

definition enforced :: "string \<Rightarrow> aimd_controller \<Rightarrow> bool" where
  "enforced name c \<longleftrightarrow>
     (case acLimiters c name of
        Some l \<Rightarrow> l = asCurrentLimit (stateFor name c)
      | None \<Rightarrow> default_limit name = 0 \<and> asCurrentLimit (stateFor name c) = aimdIncrement)"

definition aimd_ok :: "aimd_controller \<Rightarrow> bool" where
  "aimd_ok c \<longleftrightarrow> (\<forall>name. state_ok name (stateFor name c) \<and> enforced name c)"

lemma default_limit_range: "default_limit name = 0 \<or> aimdIncrement \<le> default_limit name"
  by (simp add: default_limit_def defaultRateLimits_def aimdIncrement_def)

lemma default_limit_None: "map_of defaultRateLimits name = None \<Longrightarrow> default_limit name = 0"
  by (simp add: default_limit_def)

lemma default_limit_Some: "map_of defaultRateLimits name = Some l \<Longrightarrow> l = default_limit name \<and> aimdIncrement \<le> l"
  using default_limit_range [of name]
  by (auto simp: default_limit_def defaultRateLimits_def aimdIncrement_def split: if_splits)

lemma floor_pos: "aimdIncrement \<le> effective_floor name" "0 < aimdIncrement"
  by (simp_all add: effective_floor_def Let_def aimdIncrement_def)

lemma fresh_ok: "state_ok name (fresh_state name)" "asCurrentLimit (fresh_state name) = effective_floor name"
  using default_limit_range [of name]
  by (auto simp: state_ok_def fresh_state_def effective_floor_def Let_def aimdIncrement_def
      aimdDefaultCeilingMultiplier_def aimdSuccessThreshold_def)

lemma NewAIMD_ok: "aimd_ok NewAIMDController"
proof -
  have "enforced name NewAIMDController" for name
    using fresh_ok(2) [of name] default_limit_None [of name] default_limit_Some [of name]
    by (cases "map_of defaultRateLimits name")
      (auto simp: enforced_def NewAIMDController_def NewRateLimiterMap_def stateFor_def effective_floor_def
        aimdIncrement_def)
  then show ?thesis by (simp add: aimd_ok_def stateFor_def NewAIMDController_def fresh_ok)
qed

lemma stateFor_put [simp]: "stateFor m (put_state name s c) = (if m = name then s else stateFor m c)"
  by (simp add: stateFor_def put_state_def)

lemma stateFor_SetLimit [simp]: "stateFor m (SetLimit name l c) = stateFor m c"
  by (simp add: stateFor_def SetLimit_def)

lemma limiters_simps [simp]:
  "acLimiters (put_state name s c) = acLimiters c"
  "acLimiters (SetLimit name l c) = (acLimiters c)(name := Some l)"
  by (simp_all add: put_state_def SetLimit_def)

lemma put_ok:
  assumes "aimd_ok c" "state_ok name s" "asCurrentLimit s = asCurrentLimit (stateFor name c)"
  shows "aimd_ok (put_state name s c)"
proof -
  have "enforced m (put_state name s c)" for m
  proof -
    have "enforced m c" using assms(1) by (simp add: aimd_ok_def)
    then show ?thesis using assms(3) by (cases "m = name"; cases "acLimiters c m") (simp_all add: enforced_def)
  qed
  then show ?thesis using assms(1,2) by (simp add: aimd_ok_def)
qed

lemma put_limit_ok:
  assumes "aimd_ok c" "state_ok name s"
  shows "aimd_ok (SetLimit name (asCurrentLimit s) (put_state name s c))"
proof -
  have "enforced m (SetLimit name (asCurrentLimit s) (put_state name s c))" for m
  proof -
    have "enforced m c" using assms(1) by (simp add: aimd_ok_def)
    then show ?thesis by (cases "m = name"; cases "acLimiters c m") (simp_all add: enforced_def)
  qed
  then show ?thesis using assms by (simp add: aimd_ok_def)
qed

lemma RecordSuccess_ok:
  assumes "aimd_ok c"
  shows "aimd_ok (RecordSuccess name c)"
proof -
  define s where "s = stateFor name c"
  have s: "state_ok name s" using assms by (simp add: aimd_ok_def s_def)
  define l where "l = (if asCurrentLimit s + aimdIncrement > asCeiling s then asCeiling s else asCurrentLimit s + aimdIncrement)"
  have r: "RecordSuccess name c =
      (if asSuccessCount s + 1 < aimdSuccessThreshold then put_state name (s\<lparr>asSuccessCount := asSuccessCount s + 1\<rparr>) c
       else if l = asCurrentLimit s then put_state name (s\<lparr>asSuccessCount := 0\<rparr>) c
       else SetLimit name l (put_state name (s\<lparr>asSuccessCount := 0, asCurrentLimit := l\<rparr>) c))"
    by (simp add: RecordSuccess_def Let_def l_def flip: s_def)
  have l: "effective_floor name \<le> l" using s floor_pos(2) by (auto simp: state_ok_def l_def)
  consider "asSuccessCount s + 1 < aimdSuccessThreshold" | "\<not> asSuccessCount s + 1 < aimdSuccessThreshold" "l = asCurrentLimit s"
    | "\<not> asSuccessCount s + 1 < aimdSuccessThreshold" "l \<noteq> asCurrentLimit s" by blast
  then show ?thesis
  proof cases
    case 1
    then have "RecordSuccess name c = put_state name (s\<lparr>asSuccessCount := asSuccessCount s + 1\<rparr>) c"
      by (simp add: r)
    then show ?thesis using put_ok [OF assms, of name "s\<lparr>asSuccessCount := asSuccessCount s + 1\<rparr>"] s 1
      by (simp add: state_ok_def s_def)
  next
    case 2
    then have "RecordSuccess name c = put_state name (s\<lparr>asSuccessCount := 0\<rparr>) c"
      by (simp add: r)
    then show ?thesis using put_ok [OF assms, of name "s\<lparr>asSuccessCount := 0\<rparr>"] s
      by (simp add: state_ok_def s_def aimdSuccessThreshold_def)
  next
    case 3
    then have "RecordSuccess name c = SetLimit name l (put_state name (s\<lparr>asSuccessCount := 0, asCurrentLimit := l\<rparr>) c)"
      by (simp add: r)
    then show ?thesis using put_limit_ok [OF assms, of name "s\<lparr>asSuccessCount := 0, asCurrentLimit := l\<rparr>"] s l
      by (simp add: state_ok_def aimdSuccessThreshold_def)
  qed
qed

lemma RecordFailure_ok:
  assumes "aimd_ok c"
  shows "aimd_ok (RecordFailure name now c)"
proof -
  define s where "s = stateFor name c"
  have s: "state_ok name s" using assms by (simp add: aimd_ok_def s_def)
  define l where "l = (if asCurrentLimit s * aimdDecreaseFactor < effective_floor name then effective_floor name
      else asCurrentLimit s * aimdDecreaseFactor)"
  show ?thesis
  proof (cases "case asLastDecrease s of None \<Rightarrow> False | Some t \<Rightarrow> now - t < aimdHysteresisCooldown")
    case True
    then have "RecordFailure name now c = put_state name s c" by (simp add: RecordFailure_def Let_def flip: s_def)
    then show ?thesis using put_ok [OF assms s] by (simp add: s_def)
  next
    case False
    let ?s = "s\<lparr>asCurrentLimit := l, asSuccessCount := 0, asLastDecrease := Some now\<rparr>"
    have "RecordFailure name now c = SetLimit name (asCurrentLimit ?s) (put_state name ?s c)"
      using False by (simp add: RecordFailure_def Let_def l_def flip: s_def)
    moreover have "state_ok name ?s" using s by (simp add: state_ok_def l_def aimdSuccessThreshold_def)
    ultimately show ?thesis using put_limit_ok [OF assms] by metis
  qed
qed

lemma aimd_ok_step:
  assumes "aimd_ok c" "aimd_step a c = Some c'"
  shows "aimd_ok c'"
proof -
  have sens: "sensible a" and c': "c' = aimd_act_on a c" using assms(2) by (auto simp: aimd_step_def split: if_splits)
  have ok: "state_ok name (stateFor name c)" for name using assms(1) by (simp add: aimd_ok_def)
  show ?thesis
  proof (cases a)
    case (Ceiling name l)
    have "effective_floor name \<le> (if l \<le> 0 then default_limit name * aimdDefaultCeilingMultiplier else l)"
      using sens by (auto simp: Ceiling sensible_def effective_floor_def Let_def aimdDefaultCeilingMultiplier_def
          aimdIncrement_def split: if_splits)
    then show ?thesis using put_ok [OF assms(1), of name] ok [of name]
      by (simp add: c' Ceiling aimd_act_on_def SetCeiling_def Let_def state_ok_def)
  next
    case (ReadLimit name)
    then show ?thesis using put_ok [OF assms(1) ok [of name]] by (simp add: c' aimd_act_on_def GetCurrentLimit_def Let_def)
  next
    case (ReadCeiling name)
    then show ?thesis using put_ok [OF assms(1) ok [of name]] by (simp add: c' aimd_act_on_def GetCeiling_def Let_def)
  qed (simp_all add: c' aimd_act_on_def RecordSuccess_ok RecordFailure_ok assms(1))
qed

interpretation aimd_run: guarded_run aimd_step NewAIMDController aimd_ok
  by unfold_locales (rule NewAIMD_ok, rule aimd_ok_step)

text \<open>The adaptive limit stays usable and is the one enforced: after any sequence of successes,
  rate-limit errors, reads and ceilings not below a provider's floor, every provider's limit and ceiling
  are at least its floor, half a request per second or its default rate, and the limiter that delays
  its requests runs at exactly the limit reported.\<close>

theorem limit_stays_above_floor:
  "case fold_opt aimd_step acts NewAIMDController of
     None \<Rightarrow> True
   | Some c \<Rightarrow>
       max (1 / 2) (default_limit name) \<le> fst (GetCurrentLimit name c) \<and>
       max (1 / 2) (default_limit name) \<le> fst (GetCeiling name c) \<and>
       (case acLimiters c name of None \<Rightarrow> default_limit name = 0 | Some l \<Rightarrow> l = fst (GetCurrentLimit name c))"
proof (cases "fold_opt aimd_step acts NewAIMDController")
  case (Some c)
  from aimd_run.always [OF this] have "state_ok name (stateFor name c)" "enforced name c" by (simp_all add: aimd_ok_def)
  moreover have "effective_floor name = max (1 / 2) (default_limit name)"
    by (auto simp: effective_floor_def Let_def aimdIncrement_def max_def)
  ultimately show ?thesis
    by (auto simp: Some GetCurrentLimit_def GetCeiling_def Let_def state_ok_def enforced_def split: option.splits)
qed simp

text \<open>Two uses of \<open>SetCeiling\<close> defeat the controller: reverting an unknown provider to the default
  ceiling sets it to 0, and ten successes then stop its requests for good; and with a ceiling below the
  floor a rate-limit error raises the limit instead of lowering it.\<close>

theorem low_ceiling_defeats_control:
  "(let c = fold (\<lambda>_. RecordSuccess ''mystery'') [1..10] (SetCeiling ''mystery'' 0 NewAIMDController) in
      fst (GetCurrentLimit ''mystery'' c) = 0 \<and> acLimiters c ''mystery'' = Some 0) \<and>
   (let c = fold (\<lambda>_. RecordSuccess NameMusicBrainz) [1..10] (SetCeiling NameMusicBrainz (1 / 2) NewAIMDController) in
      fst (GetCurrentLimit NameMusicBrainz c) = 1 / 2 \<and>
      fst (GetCurrentLimit NameMusicBrainz (RecordFailure NameMusicBrainz 7 c)) = 1)"
  by code_simp

end
