(* ===== verification/Filesystem.thy ===== *)
theory Filesystem
  imports Prelude "HOL-Library.AList" "HOL-Library.Sublist"
begin

text \<open>
  The file writer (\<open>internal/filesystem/atomic.go\<close>, \<open>rename.go\<close>, \<open>syncdir.go\<close>) over a model of the file system
  with crashes. A disk has the live directory entries, the older entries that may still be the ones on
  stable storage (until the directory is synced), and the files with their data, flushed or not. Every
  system call consults a script of the environment: it takes effect, fails without effect, or the
  process dies there, after which no call has an effect; so a statement about every script speaks of
  every failure and of every moment. Data reaches a file one byte per call. After a crash
  (\<open>crash_image\<close>) each entry is one of those that may be on disk, independently of the others, and
  unflushed data is anything. Symbolic links and modes of directories are outside the model; log records
  are left out but for the failed directory syncs (\<open>dkNotes\<close>). Closing a file that was only read, and
  the second close of a deferred call, have no effect and are left out.
\<close>

section \<open>The file system\<close>

text \<open>A clean absolute path is the list of its components, innermost first: \<open>/music/Nina\<close> is
  \<open>[''Nina'', ''music'']\<close> and \<open>/\<close> is \<open>[]\<close>. So \<open>filepath.Dir\<close> is \<open>tl\<close> (the root is its own parent)
  and \<open>filepath.Base\<close> is \<open>hd\<close>.\<close>

type_synonym fs_path = "string list"

definition base_name :: "fs_path \<Rightarrow> string" where
  "base_name p = (case p of [] \<Rightarrow> ''/'' | c # _ \<Rightarrow> c)"

datatype fs_error = ENOENT | EEXIST | ENOTDIR | EISDIR | ENOTEMPTY | EXDEV | EINVAL | ENOTSUP | EIO | EBADPATTERN | EDEAD

datatype node = DirNode | FileNode nat

datatype fate = Works | Fails fs_error | Dies

record file_data =
  fdContent :: string
  fdMode :: nat
  fdFlushed :: bool

record disk =
  dkEntries :: "(fs_path \<times> node) list"
  dkStale :: "fs_path \<Rightarrow> node option list"
  dkFiles :: "nat \<Rightarrow> file_data"
  dkNext :: nat
  dkScript :: "fate list"
  dkAlive :: bool
  dkNotes :: "(fs_path \<times> fs_error) list"

definition dk_entry :: "disk \<Rightarrow> fs_path \<Rightarrow> node option" where
  "dk_entry w = map_of (dkEntries w)"

definition set_entry :: "fs_path \<Rightarrow> node option \<Rightarrow> disk \<Rightarrow> disk" where
  "set_entry p v w = w\<lparr>
     dkEntries := (case v of None \<Rightarrow> AList.delete p (dkEntries w) | Some n \<Rightarrow> AList.update p n (dkEntries w)),
     dkStale := (dkStale w)(p := dk_entry w p # dkStale w p)\<rparr>"

definition set_file :: "nat \<Rightarrow> file_data \<Rightarrow> disk \<Rightarrow> disk" where
  "set_file i f w = w\<lparr>dkFiles := (dkFiles w)(i := f)\<rparr>"

text \<open>Path resolution: every proper prefix has to be a directory.\<close>

fun resolve :: "(fs_path \<Rightarrow> node option) \<Rightarrow> fs_path \<Rightarrow> fs_error + node" where
  "resolve ent [] = Inr DirNode"
| "resolve ent (c # d) =
     (case resolve ent d of
        Inl e \<Rightarrow> Inl e
      | Inr (FileNode _) \<Rightarrow> Inl ENOTDIR
      | Inr DirNode \<Rightarrow> (case ent (c # d) of None \<Rightarrow> Inl ENOENT | Some n \<Rightarrow> Inr n))"

definition dk_lookup :: "disk \<Rightarrow> fs_path \<Rightarrow> fs_error + node" where
  "dk_lookup w p = resolve (dk_entry w) p"

text \<open>One system call: the script of the environment decides whether it takes effect, fails without
  effect, or the process dies before it. A dead process has no effect any more.\<close>

definition syscall :: "(disk \<Rightarrow> (fs_error + 'a) \<times> disk) \<Rightarrow> disk \<Rightarrow> (fs_error + 'a) \<times> disk" where
  "syscall act w =
     (if \<not> dkAlive w then (Inl EDEAD, w)
      else case dkScript w of
        [] \<Rightarrow> act w
      | Works # fs \<Rightarrow> act (w\<lparr>dkScript := fs\<rparr>)
      | Fails e # fs \<Rightarrow> (Inl e, w\<lparr>dkScript := fs\<rparr>)
      | Dies # fs \<Rightarrow> (Inl EDEAD, w\<lparr>dkScript := fs, dkAlive := False\<rparr>))"

definition sys_lstat :: "fs_path \<Rightarrow> disk \<Rightarrow> (fs_error + node) \<times> disk" where
  "sys_lstat p = syscall (\<lambda>w. (dk_lookup w p, w))"

definition new_entry :: "fs_path \<Rightarrow> (disk \<Rightarrow> (fs_error + 'a) \<times> disk) \<Rightarrow> disk \<Rightarrow> (fs_error + 'a) \<times> disk" where
  "new_entry p mk w =
     (case dk_lookup w p of
        Inr _ \<Rightarrow> (Inl EEXIST, w)
      | Inl e \<Rightarrow> (case dk_lookup w (tl p) of
            Inr DirNode \<Rightarrow> mk w
          | Inr (FileNode _) \<Rightarrow> (Inl ENOTDIR, w)
          | Inl e' \<Rightarrow> (Inl e', w)))"

definition sys_mkdir :: "fs_path \<Rightarrow> disk \<Rightarrow> (fs_error + unit) \<times> disk" where
  "sys_mkdir p = syscall (new_entry p (\<lambda>w. (Inr (), set_entry p (Some DirNode) w)))"

definition make_file :: "fs_path \<Rightarrow> nat \<Rightarrow> disk \<Rightarrow> (fs_error + nat) \<times> disk" where
  "make_file p perm w =
     (let i = dkNext w in
      (Inr i, set_entry p (Some (FileNode i))
         (set_file i \<lparr>fdContent = [], fdMode = perm, fdFlushed = False\<rparr> (w\<lparr>dkNext := i + 1\<rparr>))))"

definition sys_create_excl :: "fs_path \<Rightarrow> nat \<Rightarrow> disk \<Rightarrow> (fs_error + nat) \<times> disk" where
  "sys_create_excl p perm = syscall (new_entry p (make_file p perm))"

definition sys_open_trunc :: "fs_path \<Rightarrow> nat \<Rightarrow> disk \<Rightarrow> (fs_error + nat) \<times> disk" where
  "sys_open_trunc p perm = syscall (\<lambda>w.
     case dk_lookup w p of
       Inr DirNode \<Rightarrow> (Inl EISDIR, w)
     | Inr (FileNode i) \<Rightarrow> (Inr i, set_file i ((dkFiles w i)\<lparr>fdContent := [], fdFlushed := False\<rparr>) w)
     | Inl e \<Rightarrow> new_entry p (make_file p perm) w)"

definition sys_open_read :: "fs_path \<Rightarrow> disk \<Rightarrow> (fs_error + string option) \<times> disk" where
  "sys_open_read p = syscall (\<lambda>w.
     case dk_lookup w p of
       Inr (FileNode i) \<Rightarrow> (Inr (Some (fdContent (dkFiles w i))), w)
     | Inr DirNode \<Rightarrow> (Inr None, w)
     | Inl e \<Rightarrow> (Inl e, w))"

definition sys_read :: "disk \<Rightarrow> (fs_error + unit) \<times> disk" where
  "sys_read = syscall (\<lambda>w. (Inr (), w))"

definition sys_write :: "nat \<Rightarrow> char \<Rightarrow> disk \<Rightarrow> (fs_error + unit) \<times> disk" where
  "sys_write i c = syscall (\<lambda>w. (Inr (),
     set_file i ((dkFiles w i)\<lparr>fdContent := fdContent (dkFiles w i) @ [c], fdFlushed := False\<rparr>) w))"

definition sys_chmod :: "nat \<Rightarrow> nat \<Rightarrow> disk \<Rightarrow> (fs_error + unit) \<times> disk" where
  "sys_chmod i perm = syscall (\<lambda>w. (Inr (), set_file i ((dkFiles w i)\<lparr>fdMode := perm\<rparr>) w))"

definition sys_fsync :: "nat \<Rightarrow> disk \<Rightarrow> (fs_error + unit) \<times> disk" where
  "sys_fsync i = syscall (\<lambda>w. (Inr (), set_file i ((dkFiles w i)\<lparr>fdFlushed := True\<rparr>) w))"

definition sys_close :: "disk \<Rightarrow> (fs_error + unit) \<times> disk" where
  "sys_close = syscall (\<lambda>w. (Inr (), w))"

definition child_entries :: "disk \<Rightarrow> fs_path \<Rightarrow> (fs_path \<times> node) list" where
  "child_entries w d = filter (\<lambda>(q, n). q \<noteq> [] \<and> tl q = d) (dkEntries w)"

definition sys_unlink :: "fs_path \<Rightarrow> disk \<Rightarrow> (fs_error + unit) \<times> disk" where
  "sys_unlink p = syscall (\<lambda>w.
     case dk_lookup w p of
       Inl e \<Rightarrow> (Inl e, w)
     | Inr (FileNode _) \<Rightarrow> (Inr (), set_entry p None w)
     | Inr DirNode \<Rightarrow> (Inl EISDIR, w))"

definition sys_rmdir :: "fs_path \<Rightarrow> disk \<Rightarrow> (fs_error + unit) \<times> disk" where
  "sys_rmdir p = syscall (\<lambda>w.
     case dk_lookup w p of
       Inl e \<Rightarrow> (Inl e, w)
     | Inr (FileNode _) \<Rightarrow> (Inl ENOTDIR, w)
     | Inr DirNode \<Rightarrow>
         if p = [] then (Inl EINVAL, w)
         else if child_entries w p \<noteq> [] then (Inl ENOTEMPTY, w)
         else (Inr (), set_entry p None w))"

definition under :: "fs_path \<Rightarrow> fs_path \<Rightarrow> bool" where
  "under d q \<longleftrightarrow> drop (length q - length d) q = d"

definition relocate :: "fs_path \<Rightarrow> fs_path \<Rightarrow> fs_path \<Rightarrow> fs_path" where
  "relocate src dst q = take (length q - length src) q @ dst"

definition move_tree :: "fs_path \<Rightarrow> fs_path \<Rightarrow> disk \<Rightarrow> disk" where
  "move_tree src dst w = w\<lparr>
     dkEntries := map (\<lambda>(q, n). (if under src q then relocate src dst q else q, n))
       (filter (\<lambda>(q, n). \<not> under dst q) (dkEntries w)),
     dkStale := (\<lambda>q.
       if under src q then dk_entry w q # dkStale w q
       else if q = dst then dk_entry w q # dkStale w q
       else if under dst q then dkStale w (relocate dst src q)
       else dkStale w q)\<rparr>"

definition rename_act :: "fs_path \<Rightarrow> fs_path \<Rightarrow> disk \<Rightarrow> (fs_error + unit) \<times> disk" where
  "rename_act p q w =
     (case dk_lookup w p of
       Inl e \<Rightarrow> (Inl e, w)
     | Inr n \<Rightarrow>
         if p = q then (Inr (), w)
         else if under p q then (Inl EINVAL, w)
         else case dk_lookup w (tl q) of
           Inl e \<Rightarrow> (Inl e, w)
         | Inr (FileNode _) \<Rightarrow> (Inl ENOTDIR, w)
         | Inr DirNode \<Rightarrow>
             (case n of
                FileNode i \<Rightarrow>
                  (case dk_lookup w q of
                     Inr DirNode \<Rightarrow> (Inl EISDIR, w)
                   | _ \<Rightarrow> (Inr (), set_entry p None (set_entry q (Some (FileNode i)) w)))
              | DirNode \<Rightarrow>
                  (case dk_lookup w q of
                     Inr (FileNode _) \<Rightarrow> (Inl ENOTDIR, w)
                   | Inr DirNode \<Rightarrow> if child_entries w q \<noteq> [] then (Inl ENOTEMPTY, w) else (Inr (), move_tree p q w)
                   | Inl _ \<Rightarrow> (Inr (), move_tree p q w))))"

definition sys_rename :: "fs_path \<Rightarrow> fs_path \<Rightarrow> disk \<Rightarrow> (fs_error + unit) \<times> disk" where
  "sys_rename p q = syscall (rename_act p q)"

definition sys_open_dir :: "fs_path \<Rightarrow> disk \<Rightarrow> (fs_error + unit) \<times> disk" where
  "sys_open_dir d = syscall (\<lambda>w. (map_sum id (\<lambda>_. ()) (dk_lookup w d), w))"

definition settle_dir :: "fs_path \<Rightarrow> disk \<Rightarrow> disk" where
  "settle_dir d w = w\<lparr>dkStale := (\<lambda>q. if q \<noteq> [] \<and> tl q = d then [] else dkStale w q)\<rparr>"

definition sys_fsync_dir :: "fs_path \<Rightarrow> disk \<Rightarrow> (fs_error + unit) \<times> disk" where
  "sys_fsync_dir d = syscall (\<lambda>w. (Inr (), settle_dir d w))"

definition sys_readdir :: "fs_path \<Rightarrow> disk \<Rightarrow> (fs_error + string list) \<times> disk" where
  "sys_readdir d = syscall (\<lambda>w.
     case dk_lookup w d of
       Inl e \<Rightarrow> (Inl e, w)
     | Inr (FileNode _) \<Rightarrow> (Inl ENOTDIR, w)
     | Inr DirNode \<Rightarrow> (Inr (sort (map (\<lambda>(q, n). hd q) (child_entries w d))), w))"

text \<open>\<open>os.Remove\<close>, \<open>os.Rename\<close> and \<open>os.MkdirAll\<close> of the standard library, from these calls.\<close>

definition os_remove :: "fs_path \<Rightarrow> disk \<Rightarrow> (fs_error + unit) \<times> disk" where
  "os_remove p w =
     (case sys_unlink p w of
        (Inr _, w1) \<Rightarrow> (Inr (), w1)
      | (Inl e, w1) \<Rightarrow>
          (case sys_rmdir p w1 of
             (Inr _, w2) \<Rightarrow> (Inr (), w2)
           | (Inl e1, w2) \<Rightarrow> (Inl (if e1 \<noteq> ENOTDIR then e1 else e), w2)))"

definition os_rename :: "fs_path \<Rightarrow> fs_path \<Rightarrow> disk \<Rightarrow> (fs_error + unit) \<times> disk" where
  "os_rename p q w =
     (case sys_lstat q w of
        (Inr DirNode, w1) \<Rightarrow>
          (case sys_lstat p w1 of
             (Inl e, w2) \<Rightarrow> (Inl e, w2)
           | (Inr _, w2) \<Rightarrow> if p \<noteq> q then (Inl EEXIST, w2) else sys_rename p q w2)
      | (_, w1) \<Rightarrow> sys_rename p q w1)"

fun os_mkdir_all :: "fs_path \<Rightarrow> disk \<Rightarrow> (fs_error + unit) \<times> disk" where
  "os_mkdir_all p w =
     (case sys_lstat p w of
        (Inr DirNode, w1) \<Rightarrow> (Inr (), w1)
      | (Inr (FileNode _), w1) \<Rightarrow> (Inl ENOTDIR, w1)
      | (Inl _, w1) \<Rightarrow>
          (case (case p of [] \<Rightarrow> (Inr (), w1) | c # d \<Rightarrow> os_mkdir_all d w1) of
             (Inl e, w2) \<Rightarrow> (Inl e, w2)
           | (Inr _, w2) \<Rightarrow>
               (case sys_mkdir p w2 of
                  (Inr _, w3) \<Rightarrow> (Inr (), w3)
                | (Inl e, w3) \<Rightarrow>
                    (case sys_lstat p w3 of
                       (Inr DirNode, w4) \<Rightarrow> (Inr (), w4)
                     | (_, w4) \<Rightarrow> (Inl e, w4)))))"

text \<open>\<open>os.CreateTemp\<close> draws random names until one is free, at most ten thousand times; the drawn strings
  are an argument.\<close>

fun os_create_temp :: "fs_path \<Rightarrow> string \<Rightarrow> string \<Rightarrow> string list \<Rightarrow> disk \<Rightarrow> (fs_error + nat \<times> fs_path) \<times> disk" where
  "os_create_temp d pre suf [] w = (Inl EEXIST, w)"
| "os_create_temp d pre suf (r # rs) w =
     (case sys_create_excl ((pre @ r @ suf) # d) 384 w of
        (Inr i, w1) \<Rightarrow> (Inr (i, (pre @ r @ suf) # d), w1)
      | (Inl EEXIST, w1) \<Rightarrow> os_create_temp d pre suf rs w1
      | (Inl e, w1) \<Rightarrow> (Inl e, w1))"

section \<open>The code\<close>

definition isUnsupportedSync :: "fs_error \<Rightarrow> bool" where
  "isUnsupportedSync e \<longleftrightarrow> e = EINVAL \<or> e = ENOTSUP"

text \<open>The records of the package about directory syncs that did not happen; a dead process writes none.\<close>

definition sync_note :: "fs_path \<Rightarrow> fs_error \<Rightarrow> disk \<Rightarrow> disk" where
  "sync_note dir e w = (if dkAlive w then w\<lparr>dkNotes := dkNotes w @ [(dir, e)]\<rparr> else w)"

definition SyncDir :: "fs_path \<Rightarrow> disk \<Rightarrow> (fs_error + unit) \<times> disk" where
  "SyncDir dir w =
     (case sys_open_dir dir w of
        (Inl e, w1) \<Rightarrow> (Inl e, w1)
      | (Inr _, w1) \<Rightarrow>
          (case sys_fsync_dir dir w1 of
             (Inl e, w2) \<Rightarrow>
               (if isUnsupportedSync e then (Inr (), snd (sys_close (sync_note dir e w2)))
                else (Inl e, snd (sys_close w2)))
           | (Inr _, w2) \<Rightarrow> (Inr (), snd (sys_close w2))))"

definition syncTargetDir :: "fs_path \<Rightarrow> disk \<Rightarrow> disk" where
  "syncTargetDir dir w =
     (case SyncDir dir w of
        (Inr _, w1) \<Rightarrow> w1
      | (Inl e, w1) \<Rightarrow> sync_note dir e w1)"

fun deepestExistingDir :: "fs_path \<Rightarrow> disk \<Rightarrow> fs_path \<times> disk" where
  "deepestExistingDir dir w =
     (case sys_lstat dir w of
        (Inl ENOENT, w1) \<Rightarrow> (case dir of [] \<Rightarrow> (dir, w1) | c # d \<Rightarrow> deepestExistingDir d w1)
      | (_, w1) \<Rightarrow> (dir, w1))"

fun syncCreatedChain :: "fs_path \<Rightarrow> fs_path \<Rightarrow> disk \<Rightarrow> disk" where
  "syncCreatedChain dir lowest w =
     (let w1 = syncTargetDir dir w in
      if dir = lowest then w1 else case dir of [] \<Rightarrow> w1 | c # d \<Rightarrow> syncCreatedChain d lowest w1)"

fun write_all :: "nat \<Rightarrow> string \<Rightarrow> disk \<Rightarrow> (fs_error + unit) \<times> disk" where
  "write_all i [] w = (Inr (), w)"
| "write_all i (c # cs) w =
     (case sys_write i c w of
        (Inl e, w1) \<Rightarrow> (Inl e, w1)
      | (Inr _, w1) \<Rightarrow> write_all i cs w1)"

definition writeTempFile :: "nat \<Rightarrow> string \<Rightarrow> nat \<Rightarrow> disk \<Rightarrow> (fs_error + unit) \<times> disk" where
  "writeTempFile i dat perm w =
     (case write_all i dat w of
        (Inl e, w1) \<Rightarrow> (Inl e, w1)
      | (Inr _, w1) \<Rightarrow>
          (case sys_chmod i perm w1 of
             (Inl e, w2) \<Rightarrow> (Inl e, w2)
           | (Inr _, w2) \<Rightarrow>
               (case sys_fsync i w2 of
                  (Inl e, w3) \<Rightarrow> (Inl e, w3)
                | (Inr _, w3) \<Rightarrow> sys_close w3)))"

datatype write_error = MkdirParent fs_error | CreatingTemp fs_error | WritingTemp fs_error | RenamingTemp fs_error | ReadingSource

definition CreateTemp :: "fs_path \<Rightarrow> string \<Rightarrow> string list \<Rightarrow> disk \<Rightarrow> (fs_error + nat \<times> fs_path) \<times> disk" where
  "CreateTemp dir base rnds w =
     (if CHR ''/'' \<in> set base then (Inl EBADPATTERN, w)
      else os_create_temp dir (base @ ''.'') ''.tmp'' (take 10000 rnds) w)"

definition WriteFileAtomic :: "string list \<Rightarrow> fs_path \<Rightarrow> string \<Rightarrow> nat \<Rightarrow> disk \<Rightarrow> (write_error + unit) \<times> disk" where
  "WriteFileAtomic rnds target dat perm w =
     (let dir = tl target;
          (syncFloor, w0) = deepestExistingDir dir w in
      case os_mkdir_all dir w0 of
        (Inl e, w1) \<Rightarrow> (Inl (MkdirParent e), w1)
      | (Inr _, w1) \<Rightarrow>
          (case CreateTemp dir (base_name target) rnds w1 of
             (Inl e, w2) \<Rightarrow> (Inl (CreatingTemp e), w2)
           | (Inr (i, tmpPath), w2) \<Rightarrow>
               (case writeTempFile i dat perm w2 of
                  (Inl e, w3) \<Rightarrow> (Inl (WritingTemp e), snd (os_remove tmpPath (snd (sys_close w3))))
                | (Inr _, w3) \<Rightarrow>
                    (case os_rename tmpPath target w3 of
                       (Inl e, w4) \<Rightarrow> (Inl (RenamingTemp e), snd (os_remove tmpPath w4))
                     | (Inr _, w4) \<Rightarrow> (Inr (), syncCreatedChain dir syncFloor w4)))))"

definition WriteReaderAtomic :: "string list \<Rightarrow> fs_path \<Rightarrow> string option \<Rightarrow> nat \<Rightarrow> disk \<Rightarrow> (write_error + unit) \<times> disk" where
  "WriteReaderAtomic rnds target rd perm w =
     (case rd of
        None \<Rightarrow> (Inl ReadingSource, w)
      | Some dat \<Rightarrow> WriteFileAtomic rnds target dat perm w)"

datatype remove_error = RemProbe fs_error | RemIsDirectory | RemBoth fs_error fs_error | RemTomb fs_error

definition tomb_path :: "fs_path \<Rightarrow> fs_path" where
  "tomb_path target = (hd target @ ''.removing'') # tl target"

definition RemoveFileSafe :: "fs_path \<Rightarrow> disk \<Rightarrow> (remove_error + unit) \<times> disk" where
  "RemoveFileSafe target w =
     (case sys_lstat target w of
        (Inl e, w1) \<Rightarrow> (Inl (RemProbe e), w1)
      | (Inr DirNode, w1) \<Rightarrow> (Inl RemIsDirectory, w1)
      | (Inr (FileNode _), w1) \<Rightarrow>
          (let tomb = tomb_path target;
               w2 = snd (os_remove tomb w1) in
           case os_rename target tomb w2 of
             (Inl e, w3) \<Rightarrow>
               (case os_remove target w3 of
                  (Inl re, w4) \<Rightarrow> (Inl (RemBoth e re), w4)
                | (Inr _, w4) \<Rightarrow> (Inr (), w4))
           | (Inr _, w3) \<Rightarrow>
               (case os_remove tomb w3 of
                  (Inl e, w4) \<Rightarrow> (Inl (RemTomb e), snd (os_rename tomb target w4))
                | (Inr _, w4) \<Rightarrow> (Inr (), w4))))"

text \<open>\<open>io.Copy\<close>, one byte at a time; a directory can be opened but not read.\<close>

fun copy_bytes :: "nat \<Rightarrow> string \<Rightarrow> disk \<Rightarrow> (fs_error + unit) \<times> disk" where
  "copy_bytes i [] w = sys_read w"
| "copy_bytes i (c # cs) w =
     (case sys_read w of
        (Inl e, w1) \<Rightarrow> (Inl e, w1)
      | (Inr _, w1) \<Rightarrow>
          (case sys_write i c w1 of
             (Inl e, w2) \<Rightarrow> (Inl e, w2)
           | (Inr _, w2) \<Rightarrow> copy_bytes i cs w2))"

definition io_copy :: "nat \<Rightarrow> string option \<Rightarrow> disk \<Rightarrow> (fs_error + unit) \<times> disk" where
  "io_copy i handle w =
     (case handle of
        Some dat \<Rightarrow> copy_bytes i dat w
      | None \<Rightarrow> (case sys_read w of (Inl e, w1) \<Rightarrow> (Inl e, w1) | (Inr _, w1) \<Rightarrow> (Inl EISDIR, w1)))"

definition copyFile :: "fs_path \<Rightarrow> fs_path \<Rightarrow> nat \<Rightarrow> disk \<Rightarrow> (fs_error + unit) \<times> disk" where
  "copyFile src dst perm w =
     (case sys_open_read src w of
        (Inl e, w1) \<Rightarrow> (Inl e, w1)
      | (Inr dat, w1) \<Rightarrow>
          (case sys_open_trunc dst perm w1 of
             (Inl e, w2) \<Rightarrow> (Inl e, w2)
           | (Inr i, w2) \<Rightarrow>
               (case io_copy i dat w2 of
                  (Inl e, w3) \<Rightarrow> (Inl e, w3)
                | (Inr _, w3) \<Rightarrow>
                    (case sys_fsync i w3 of
                       (Inl e, w4) \<Rightarrow> (Inl e, w4)
                     | (Inr _, w4) \<Rightarrow> sys_close w4))))"

datatype move_error = CopyFallback fs_error | RemovingSource fs_error

definition stat_mode :: "disk \<Rightarrow> node \<Rightarrow> nat" where
  "stat_mode w n = (case n of FileNode i \<Rightarrow> fdMode (dkFiles w i) | DirNode \<Rightarrow> 493)"

definition RenameFileAtomic :: "fs_path \<Rightarrow> fs_path \<Rightarrow> disk \<Rightarrow> (move_error + unit) \<times> disk" where
  "RenameFileAtomic src dst w =
     (case os_rename src dst w of
        (Inr _, w1) \<Rightarrow> (Inr (), syncTargetDir (tl dst) w1)
      | (Inl _, w1) \<Rightarrow>
          (let (dstStat, w2) = sys_lstat dst w1;
               (srcStat, w3) = sys_lstat src w2;
               srcMode = (case srcStat of Inr n \<Rightarrow> stat_mode w3 n | Inl _ \<Rightarrow> 420) in
           case copyFile src dst srcMode w3 of
             (Inl e, w4) \<Rightarrow> (Inl (CopyFallback e), if dstStat = Inl ENOENT then snd (os_remove dst w4) else w4)
           | (Inr _, w4) \<Rightarrow>
               (let w5 = syncTargetDir (tl dst) w4 in
                case os_remove src w5 of
                  (Inl e, w6) \<Rightarrow> (Inl (RemovingSource e), w6)
                | (Inr _, w6) \<Rightarrow> (Inr (), w6))))"

text \<open>\<open>filepath.Walk\<close> with the callback of \<open>copyDirRecursive\<close>: a directory is listed, made and then walked in
  the order of the names. The bound on the depth is an argument; no value when it is too small.\<close>

fun copy_tree :: "nat \<Rightarrow> fs_path \<Rightarrow> fs_path \<Rightarrow> fs_path \<Rightarrow> node \<Rightarrow> disk \<Rightarrow> ((fs_error + unit) \<times> disk) option"
and copy_names :: "nat \<Rightarrow> fs_path \<Rightarrow> fs_path \<Rightarrow> fs_path \<Rightarrow> string list \<Rightarrow> disk \<Rightarrow> ((fs_error + unit) \<times> disk) option" where
  "copy_tree 0 src dst rel info w = None"
| "copy_tree (Suc n) src dst rel info w =
     (case info of
        FileNode i \<Rightarrow> Some (copyFile (rel @ src) (rel @ dst) (stat_mode w info) w)
      | DirNode \<Rightarrow>
          (case sys_readdir (rel @ src) w of
             (Inl e, w1) \<Rightarrow> Some (Inl e, w1)
           | (Inr names, w1) \<Rightarrow>
               (case os_mkdir_all (rel @ dst) w1 of
                  (Inl e, w2) \<Rightarrow> Some (Inl e, w2)
                | (Inr _, w2) \<Rightarrow> copy_names n src dst rel names w2)))"
| "copy_names n src dst rel [] w = Some (Inr (), w)"
| "copy_names n src dst rel (c # cs) w =
     (case sys_lstat (c # rel @ src) w of
        (Inl e, w1) \<Rightarrow> Some (Inl e, w1)
      | (Inr info, w1) \<Rightarrow>
          (case copy_tree n src dst (c # rel) info w1 of
             Some (Inr _, w2) \<Rightarrow> copy_names n src dst rel cs w2
           | r \<Rightarrow> r))"

definition copyDirRecursive :: "nat \<Rightarrow> fs_path \<Rightarrow> fs_path \<Rightarrow> disk \<Rightarrow> ((fs_error + unit) \<times> disk) option" where
  "copyDirRecursive n src dst w =
     (case sys_lstat src w of
        (Inl e, w1) \<Rightarrow> Some (Inl e, w1)
      | (Inr info, w1) \<Rightarrow> copy_tree n src dst [] info w1)"

text \<open>\<open>os.RemoveAll\<close>: it removes what it can and reports the first error of the last level.\<close>

fun remove_tree :: "nat \<Rightarrow> fs_path \<Rightarrow> disk \<Rightarrow> ((fs_error + unit) \<times> disk) option"
and remove_names :: "nat \<Rightarrow> fs_path \<Rightarrow> string list \<Rightarrow> (fs_error + unit) \<Rightarrow> disk \<Rightarrow> ((fs_error + unit) \<times> disk) option" where
  "remove_tree 0 p w = None"
| "remove_tree (Suc n) p w =
     (case sys_unlink p w of
        (Inr _, w1) \<Rightarrow> Some (Inr (), w1)
      | (Inl ENOENT, w1) \<Rightarrow> Some (Inr (), w1)
      | (Inl EISDIR, w1) \<Rightarrow>
          (case (case sys_readdir p w1 of
                   (Inl e, w2) \<Rightarrow> Some (Inl e, w2)
                 | (Inr names, w2) \<Rightarrow> remove_names n p names (Inr ()) w2) of
             None \<Rightarrow> None
           | Some (recurseErr, w3) \<Rightarrow>
               (case sys_rmdir p w3 of
                  (Inr _, w4) \<Rightarrow> Some (Inr (), w4)
                | (Inl ENOENT, w4) \<Rightarrow> Some (Inr (), w4)
                | (Inl e, w4) \<Rightarrow> Some (case recurseErr of Inl e' \<Rightarrow> Inl e' | Inr _ \<Rightarrow> Inl e, w4)))
      | (Inl e, w1) \<Rightarrow> Some (Inl e, w1))"
| "remove_names n p [] err w = Some (err, w)"
| "remove_names n p (c # cs) err w =
     (case remove_tree n (c # p) w of
        None \<Rightarrow> None
      | Some (Inl e, w1) \<Rightarrow> remove_names n p cs (Inl e) w1
      | Some (Inr _, w1) \<Rightarrow> remove_names n p cs err w1)"

definition os_remove_all :: "nat \<Rightarrow> fs_path \<Rightarrow> disk \<Rightarrow> ((fs_error + unit) \<times> disk) option" where
  "os_remove_all n p w =
     (case os_remove p w of
        (Inr _, w1) \<Rightarrow> Some (Inr (), w1)
      | (Inl ENOENT, w1) \<Rightarrow> Some (Inr (), w1)
      | (Inl _, w1) \<Rightarrow> remove_tree n p w1)"

definition RenameDirAtomic :: "nat \<Rightarrow> fs_path \<Rightarrow> fs_path \<Rightarrow> disk \<Rightarrow> ((move_error + unit) \<times> disk) option" where
  "RenameDirAtomic n src dst w =
     (case os_rename src dst w of
        (Inr _, w1) \<Rightarrow> Some (Inr (), syncTargetDir (tl dst) w1)
      | (Inl _, w1) \<Rightarrow>
          (let (dstStat, w2) = sys_lstat dst w1 in
           case copyDirRecursive n src dst w2 of
             None \<Rightarrow> None
           | Some (Inl e, w3) \<Rightarrow>
               (if dstStat = Inl ENOENT
                then map_option (\<lambda>(_, w4). (Inl (CopyFallback e), w4)) (os_remove_all n dst w3)
                else Some (Inl (CopyFallback e), w3))
           | Some (Inr _, w3) \<Rightarrow>
               (case os_remove_all n src w3 of
                  None \<Rightarrow> None
                | Some (Inl e, w4) \<Rightarrow> Some (Inl (RemovingSource e), w4)
                | Some (Inr _, w4) \<Rightarrow> Some (Inr (), w4))))"

declare os_mkdir_all.simps [simp del] deepestExistingDir.simps [simp del] syncCreatedChain.simps [simp del]

section \<open>What a crash leaves\<close>

definition possible :: "disk \<Rightarrow> fs_path \<Rightarrow> node option set" where
  "possible w p = insert (dk_entry w p) (set (dkStale w p))"

definition crash_image :: "disk \<Rightarrow> (fs_path \<Rightarrow> node option) \<Rightarrow> (nat \<Rightarrow> string) \<Rightarrow> bool" where
  "crash_image w ent dat \<longleftrightarrow>
     (\<forall>p. ent p \<in> possible w p) \<and> (\<forall>i. fdFlushed (dkFiles w i) \<longrightarrow> dat i = fdContent (dkFiles w i))"

definition read_at :: "(fs_path \<Rightarrow> node option) \<Rightarrow> (nat \<Rightarrow> string) \<Rightarrow> fs_path \<Rightarrow> string option" where
  "read_at ent dat p = (case resolve ent p of Inr (FileNode i) \<Rightarrow> Some (dat i) | _ \<Rightarrow> None)"

text \<open>What a path may read as after a crash.\<close>

definition crash_reads :: "disk \<Rightarrow> fs_path \<Rightarrow> string option set" where
  "crash_reads w p = {x. \<exists>ent dat. crash_image w ent dat \<and> read_at ent dat p = x}"

definition live_read :: "disk \<Rightarrow> fs_path \<Rightarrow> string option" where
  "live_read w = read_at (dk_entry w) (\<lambda>i. fdContent (dkFiles w i))"

definition ids_fresh :: "disk \<Rightarrow> bool" where
  "ids_fresh w \<longleftrightarrow> (\<forall>p i. Some (FileNode i) \<in> possible w p \<longrightarrow> i < dkNext w)"

definition tree_ok :: "disk \<Rightarrow> bool" where
  "tree_ok w \<longleftrightarrow> ids_fresh w \<and>
     (\<forall>c d n. Some n \<in> possible w (c # d) \<longrightarrow> d = [] \<or> dk_entry w d = Some DirNode)"

lemma live_is_image: "crash_image w (dk_entry w) (\<lambda>i. fdContent (dkFiles w i))"
  by (simp add: crash_image_def possible_def)

lemma crash_reads_single:
  assumes "\<And>ent dat. crash_image w ent dat \<Longrightarrow> read_at ent dat p = x"
  shows "crash_reads w p = {x}"
  using assms live_is_image [of w] unfolding crash_reads_def by blast

lemma dk_entry_set_entry [simp]: "dk_entry (set_entry p v w) = (dk_entry w)(p := v)"
  by (cases v) (auto simp: dk_entry_def set_entry_def update_conv delete_conv)

lemma dkStale_set_entry [simp]: "dkStale (set_entry p v w) = (dkStale w)(p := dk_entry w p # dkStale w p)"
  by (simp add: set_entry_def)

lemma set_entry_rest [simp]:
  "dkFiles (set_entry p v w) = dkFiles w" "dkNext (set_entry p v w) = dkNext w"
  "dkAlive (set_entry p v w) = dkAlive w" "dkScript (set_entry p v w) = dkScript w"
  "dkNotes (set_entry p v w) = dkNotes w"
  by (simp_all add: set_entry_def)

lemma set_file_simps [simp]:
  "dk_entry (set_file i f w) = dk_entry w" "dkStale (set_file i f w) = dkStale w"
  "dkFiles (set_file i f w) = (dkFiles w)(i := f)" "dkNext (set_file i f w) = dkNext w"
  "dkAlive (set_file i f w) = dkAlive w" "dkScript (set_file i f w) = dkScript w"
  "dkNotes (set_file i f w) = dkNotes w"
  by (simp_all add: set_file_def dk_entry_def)

lemma settle_dir_simps [simp]:
  "dk_entry (settle_dir d w) = dk_entry w" "dkFiles (settle_dir d w) = dkFiles w"
  "dkNext (settle_dir d w) = dkNext w" "dkAlive (settle_dir d w) = dkAlive w"
  "dkScript (settle_dir d w) = dkScript w" "dkNotes (settle_dir d w) = dkNotes w"
  by (simp_all add: settle_dir_def dk_entry_def)

lemma dk_entry_env [simp]:
  "dk_entry (w\<lparr>dkScript := s\<rparr>) = dk_entry w" "dk_entry (w\<lparr>dkAlive := a\<rparr>) = dk_entry w"
  "dk_entry (w\<lparr>dkNotes := n\<rparr>) = dk_entry w" "dk_entry (w\<lparr>dkNext := k\<rparr>) = dk_entry w"
  by (simp_all add: dk_entry_def)

lemma possible_env [simp]:
  "possible (w\<lparr>dkScript := s\<rparr>) = possible w" "possible (w\<lparr>dkAlive := a\<rparr>) = possible w"
  "possible (w\<lparr>dkNotes := n\<rparr>) = possible w" "possible (w\<lparr>dkNext := k\<rparr>) = possible w"
  "possible (set_file i f w) = possible w"
  by (simp_all add: possible_def fun_eq_iff)

lemma possible_set_entry [simp]:
  "possible (set_entry p v w) q = (if q = p then insert v (possible w q) else possible w q)"
  by (auto simp: possible_def)

lemma possible_settle [simp]:
  "possible (settle_dir d w) q = (if q \<noteq> [] \<and> tl q = d then {dk_entry w q} else possible w q)"
  by (auto simp: possible_def settle_dir_def dk_entry_def)

lemma entry_possible: "dk_entry w q \<in> possible w q"
  by (simp add: possible_def)

lemma resolve_Cons_Inr:
  "resolve ent (c # d) = Inr n \<longleftrightarrow> resolve ent d = Inr DirNode \<and> ent (c # d) = Some n"
  by (auto split: sum.splits node.splits option.splits)

lemma new_entry_cases:
  "(\<exists>e. new_entry p mk v = (Inl e, v)) \<or>
   (p \<noteq> [] \<and> dk_lookup v (tl p) = Inr DirNode \<and> dk_entry v p = None \<and> new_entry p mk v = mk v)"
  by (cases p) (auto simp: new_entry_def dk_lookup_def split: sum.splits node.splits option.splits)

text \<open>A property of the disk that does not look at the script: what the system calls keep.\<close>

locale disk_property =
  fixes I :: "disk \<Rightarrow> bool"
  assumes scripted: "I w \<Longrightarrow> I (w\<lparr>dkScript := s\<rparr>)"
    and died: "I w \<Longrightarrow> I (w\<lparr>dkAlive := a\<rparr>)"
    and noted: "I w \<Longrightarrow> I (w\<lparr>dkNotes := n\<rparr>)"
begin

lemma call:
  assumes "syscall act w = (r, w')" "I w"
    and ok: "\<And>v. I v \<Longrightarrow> Q (fst (act v)) (snd (act v))"
    and bad: "\<And>e v. I v \<Longrightarrow> Q (Inl e) v"
  shows "Q r w'"
proof (cases "dkAlive w")
  case False
  then show ?thesis using assms(1,2) bad by (auto simp: syscall_def)
next
  case True
  show ?thesis
  proof (cases "dkScript w")
    case Nil
    then show ?thesis using assms(1,2) True ok [of w] by (simp add: syscall_def)
  next
    case (Cons f fs)
    have s: "I (w\<lparr>dkScript := fs\<rparr>)" "I (w\<lparr>dkScript := fs, dkAlive := False\<rparr>)"
      using assms(2) scripted died by (blast, metis scripted died)
    show ?thesis using assms(1) True Cons ok [OF s(1)] bad [OF s(1)] bad [OF s(2)]
      by (cases f) (auto simp: syscall_def)
  qed
qed

lemma call_keeps:
  "syscall act w = (r, w') \<Longrightarrow> I w \<Longrightarrow> (\<And>v. I v \<Longrightarrow> I (snd (act v))) \<Longrightarrow> I w'"
  by (rule call [where Q = "\<lambda>_ w. I w"])

lemma lstat_keeps: "sys_lstat p w = (r, w') \<Longrightarrow> I w \<Longrightarrow> I w'"
  unfolding sys_lstat_def by (erule call_keeps) simp_all

lemma close_keeps: "sys_close w = (r, w') \<Longrightarrow> I w \<Longrightarrow> I w'"
  unfolding sys_close_def by (erule call_keeps) simp_all

lemma read_keeps: "sys_read w = (r, w') \<Longrightarrow> I w \<Longrightarrow> I w'"
  unfolding sys_read_def by (erule call_keeps) simp_all

lemma open_read_keeps: "sys_open_read p w = (r, w') \<Longrightarrow> I w \<Longrightarrow> I w'"
  unfolding sys_open_read_def by (erule call_keeps) (auto split: sum.splits node.splits)

lemma open_dir_keeps: "sys_open_dir p w = (r, w') \<Longrightarrow> I w \<Longrightarrow> I w'"
  unfolding sys_open_dir_def by (erule call_keeps) simp_all

lemma deepest_keeps: "deepestExistingDir p w = (r, w') \<Longrightarrow> I w \<Longrightarrow> I w'"
proof (induction p arbitrary: w)
  case Nil
  then show ?case
    by (auto simp: deepestExistingDir.simps [of "[]"] split: prod.splits sum.splits fs_error.splits dest: lstat_keeps)
next
  case (Cons c d)
  then show ?case
    by (auto simp: deepestExistingDir.simps [of "c # d"] split: prod.splits sum.splits fs_error.splits dest: lstat_keeps)
qed

lemma remove_keeps:
  assumes "os_remove p w = (r, w')" "I w" "\<And>v. I v \<Longrightarrow> I (set_entry p None v)"
  shows "I w'"
proof -
  have u: "sys_unlink p v = (x, v') \<Longrightarrow> I v \<Longrightarrow> I v'" for v x v'
    unfolding sys_unlink_def by (erule call_keeps) (auto simp: assms(3) split: sum.splits node.splits)
  have d: "sys_rmdir p v = (x, v') \<Longrightarrow> I v \<Longrightarrow> I v'" for v x v'
    unfolding sys_rmdir_def by (erule call_keeps) (auto simp: assms(3) split: sum.splits node.splits)
  show ?thesis using assms(1,2)
    by (auto simp: os_remove_def split: prod.splits sum.splits dest: u d)
qed

lemma mkdir_keeps:
  assumes "sys_mkdir p w = (r, w')" "I w"
    and "\<And>v. I v \<Longrightarrow> dk_lookup v (tl p) = Inr DirNode \<Longrightarrow> p \<noteq> [] \<Longrightarrow> dk_entry v p = None \<Longrightarrow> I (set_entry p (Some DirNode) v)"
  shows "I w'"
  using assms(1,2) unfolding sys_mkdir_def
proof (rule call_keeps)
  fix v
  assume "I v"
  then show "I (snd (new_entry p (\<lambda>w. (Inr (), set_entry p (Some DirNode) w)) v))"
    using new_entry_cases [of p "\<lambda>w. (Inr (), set_entry p (Some DirNode) w)" v] assms(3) by auto
qed

lemma mkdir_all_keeps:
  assumes "os_mkdir_all p w = (r, w')" "I w"
    and "\<And>v q. I v \<Longrightarrow> dk_lookup v (tl q) = Inr DirNode \<Longrightarrow> q \<noteq> [] \<Longrightarrow> dk_entry v q = None \<Longrightarrow> suffix q p \<Longrightarrow> I (set_entry q (Some DirNode) v)"
  shows "I w'"
  using assms
proof (induction p arbitrary: w r w')
  case Nil
  then show ?case
    by (auto simp: os_mkdir_all.simps [of "[]"] split: prod.splits sum.splits node.splits
        dest!: lstat_keeps dest: mkdir_keeps)
next
  case (Cons c d)
  have IH: "os_mkdir_all d v = (x, v') \<Longrightarrow> I v \<Longrightarrow> I v'" for v x v'
    using Cons.IH [of v x v'] Cons.prems(3) by (simp add: suffix_ConsI)
  have mk: "sys_mkdir (c # d) v = (x, v') \<Longrightarrow> I v \<Longrightarrow> I v'" for v x v'
    by (erule mkdir_keeps) (auto intro: Cons.prems(3))
  show ?case using Cons.prems(1,2)
    by (auto simp: os_mkdir_all.simps [of "c # d"] split: prod.splits sum.splits node.splits
        dest: lstat_keeps IH mk)
qed

lemma sync_target_keeps:
  assumes "I w" "\<And>v. I v \<Longrightarrow> I (settle_dir d v)"
  shows "I (syncTargetDir d w)"
proof -
  have f: "sys_fsync_dir d v = (x, v') \<Longrightarrow> I v \<Longrightarrow> I v'" for v x v'
    unfolding sys_fsync_dir_def by (erule call_keeps) (simp_all add: assms(2))
  have c: "I v \<Longrightarrow> I (snd (sys_close v))" for v
    using close_keeps by (metis surjective_pairing)
  show ?thesis using assms(1)
    by (auto simp: syncTargetDir_def SyncDir_def sync_note_def split: prod.splits sum.splits if_splits
        intro!: noted c dest: open_dir_keeps f)
qed

lemma sync_chain_keeps:
  assumes "I w" "\<And>v q. I v \<Longrightarrow> suffix q d \<Longrightarrow> I (settle_dir q v)"
  shows "I (syncCreatedChain d lowest w)"
  using assms
proof (induction d arbitrary: w)
  case Nil
  then show ?case by (auto simp: syncCreatedChain.simps [of "[]"] Let_def intro!: sync_target_keeps)
next
  case (Cons c d)
  then show ?case
    by (auto simp: syncCreatedChain.simps [of "c # d"] Let_def suffix_ConsI intro!: sync_target_keeps)
qed

end

section \<open>What an operation may change\<close>

definition disk_frame :: "disk \<Rightarrow> (fs_path \<Rightarrow> node option set) \<Rightarrow> disk \<Rightarrow> bool" where
  "disk_frame w0 allow w \<longleftrightarrow>
     dkNext w0 \<le> dkNext w \<and> (\<forall>i < dkNext w0. dkFiles w i = dkFiles w0 i) \<and> ids_fresh w \<and>
     (\<forall>q. possible w q \<subseteq> possible w0 q \<union> allow q) \<and>
     (\<forall>q. allow q = {} \<or> allow q = {Some DirNode} \<and> dk_entry w0 q \<noteq> None \<longrightarrow> dk_entry w q = dk_entry w0 q)"

lemma disk_frame_refl: "ids_fresh w \<Longrightarrow> disk_frame w allow w"
  by (auto simp: disk_frame_def)

lemma frame_possible: "disk_frame w0 allow w \<Longrightarrow> possible w q \<subseteq> possible w0 q \<union> allow q"
  by (simp add: disk_frame_def)

lemma ids_fresh_env [simp]:
  "ids_fresh (w\<lparr>dkScript := s\<rparr>) = ids_fresh w" "ids_fresh (w\<lparr>dkAlive := a\<rparr>) = ids_fresh w"
  "ids_fresh (w\<lparr>dkNotes := n\<rparr>) = ids_fresh w"
  by (simp_all add: ids_fresh_def)

interpretation framed: disk_property "disk_frame w0 allow" for w0 allow
  by unfold_locales (simp_all add: disk_frame_def)

lemma frame_set_entry:
  assumes "disk_frame w0 allow w" "v \<in> allow p" "\<And>i. v = Some (FileNode i) \<Longrightarrow> i < dkNext w"
    and "allow p = {Some DirNode} \<Longrightarrow> dk_entry w p = None"
  shows "disk_frame w0 allow (set_entry p v w)"
  using assms unfolding disk_frame_def ids_fresh_def by (auto split: if_splits)

lemma frame_set_file: "disk_frame w0 allow w \<Longrightarrow> dkNext w0 \<le> i \<Longrightarrow> disk_frame w0 allow (set_file i f w)"
  by (simp add: disk_frame_def ids_fresh_def)

lemma frame_settle: "disk_frame w0 allow w \<Longrightarrow> disk_frame w0 allow (settle_dir d w)"
  using entry_possible [of w] unfolding disk_frame_def ids_fresh_def
  by (auto split: if_splits) (metis, blast)

lemma frame_next: "disk_frame w0 allow w \<Longrightarrow> disk_frame w0 allow (w\<lparr>dkNext := dkNext w + 1\<rparr>)"
  unfolding disk_frame_def ids_fresh_def by (auto simp: less_SucI) 

text \<open>The file being written: a fresh file, known under its temporary name only.\<close>

definition holding :: "disk \<Rightarrow> (fs_path \<Rightarrow> node option set) \<Rightarrow> nat \<Rightarrow> fs_path \<Rightarrow> disk \<Rightarrow> bool" where
  "holding w0 allow i tmp w \<longleftrightarrow>
     disk_frame w0 allow w \<and> dkNext w0 \<le> i \<and> i < dkNext w \<and>
     dk_entry w tmp = Some (FileNode i) \<and> dk_lookup w (tl tmp) = Inr DirNode"

lemma dk_lookup_env [simp]:
  "dk_lookup (w\<lparr>dkScript := s\<rparr>) = dk_lookup w" "dk_lookup (w\<lparr>dkAlive := a\<rparr>) = dk_lookup w"
  "dk_lookup (w\<lparr>dkNotes := n\<rparr>) = dk_lookup w" "dk_lookup (w\<lparr>dkNext := k\<rparr>) = dk_lookup w"
  "dk_lookup (set_file i f w) = dk_lookup w"
  by (simp_all add: dk_lookup_def fun_eq_iff)

interpretation held: disk_property "holding w0 allow i tmp" for w0 allow i tmp
  by unfold_locales (simp_all add: holding_def framed.scripted framed.died framed.noted)

interpretation filled: disk_property "\<lambda>w. holding w0 allow i tmp w \<and> dkFiles w i = f" for w0 allow i tmp f
  by unfold_locales (simp_all add: held.scripted held.died held.noted)

lemma holding_set_file: "holding w0 allow i tmp w \<Longrightarrow> holding w0 allow i tmp (set_file i f w)"
  by (simp add: holding_def frame_set_file)

lemma file_call:
  assumes "syscall (\<lambda>w. (Inr (), set_file i (g (dkFiles w i)) w)) w = (r, w')" "holding w0 allow i tmp w"
  shows "holding w0 allow i tmp w' \<and> (r = Inr () \<longrightarrow> dkFiles w' i = g (dkFiles w i))"
proof -
  let ?Q = "\<lambda>r w'. holding w0 allow i tmp w' \<and> (r = Inr () \<longrightarrow> dkFiles w' i = g (dkFiles w i))"
  have "?Q r w'"
    by (rule filled.call [OF assms(1), of w0 allow i tmp "dkFiles w i" ?Q]) (auto simp: assms(2) holding_set_file)
  then show ?thesis .
qed

lemma write_step:
  "sys_write i c w = (r, w') \<Longrightarrow> holding w0 allow i tmp w \<Longrightarrow>
     holding w0 allow i tmp w' \<and>
     (r = Inr () \<longrightarrow> dkFiles w' i = (dkFiles w i)\<lparr>fdContent := fdContent (dkFiles w i) @ [c], fdFlushed := False\<rparr>)"
  unfolding sys_write_def by (rule file_call)

lemma chmod_step:
  "sys_chmod i m w = (r, w') \<Longrightarrow> holding w0 allow i tmp w \<Longrightarrow>
     holding w0 allow i tmp w' \<and> (r = Inr () \<longrightarrow> dkFiles w' i = (dkFiles w i)\<lparr>fdMode := m\<rparr>)"
  unfolding sys_chmod_def by (rule file_call)

lemma fsync_step:
  "sys_fsync i w = (r, w') \<Longrightarrow> holding w0 allow i tmp w \<Longrightarrow>
     holding w0 allow i tmp w' \<and> (r = Inr () \<longrightarrow> dkFiles w' i = (dkFiles w i)\<lparr>fdFlushed := True\<rparr>)"
  unfolding sys_fsync_def by (rule file_call)

lemma write_all_step:
  assumes "write_all i cs w = (r, w')" "holding w0 allow i tmp w"
  shows "holding w0 allow i tmp w' \<and>
    (r = Inr () \<longrightarrow> fdContent (dkFiles w' i) = fdContent (dkFiles w i) @ cs)"
  using assms
proof (induction cs arbitrary: w)
  case (Cons c cs)
  obtain r1 w1 where w1: "sys_write i c w = (r1, w1)" by fastforce
  note s = write_step [OF w1 Cons.prems(2)]
  show ?case
  proof (cases r1)
    case (Inl e)
    then show ?thesis using Cons.prems w1 s by auto
  next
    case (Inr u)
    then show ?thesis using Cons.IH [of w1] Cons.prems(1) w1 s by simp
  qed
qed simp

lemma writeTempFile_step:
  assumes "writeTempFile i dat perm w = (r, w')" "holding w0 allow i tmp w" "fdContent (dkFiles w i) = []"
  shows "holding w0 allow i tmp w' \<and>
    (r = Inr () \<longrightarrow> dkFiles w' i = \<lparr>fdContent = dat, fdMode = perm, fdFlushed = True\<rparr>)"
proof -
  obtain r1 w1 where 1: "write_all i dat w = (r1, w1)" by fastforce
  obtain r2 w2 where 2: "sys_chmod i perm w1 = (r2, w2)" by fastforce
  obtain r3 w3 where 3: "sys_fsync i w2 = (r3, w3)" by fastforce
  note s1 = write_all_step [OF 1 assms(2)]
  show ?thesis
  proof (cases "\<exists>e. r1 = Inl e \<or> r2 = Inl e \<or> r3 = Inl e")
    case True
    then show ?thesis using assms(1) 1 2 3 s1
      chmod_step [OF 2, of w0 allow tmp] fsync_step [OF 3, of w0 allow tmp]
      by (auto simp: writeTempFile_def split: sum.splits)
  next
    case False
    then have r: "r1 = Inr ()" "r2 = Inr ()" "r3 = Inr ()" by (metis old.unit.exhaust sum.exhaust)+
    have f: "holding w0 allow i tmp w3" "dkFiles w3 i = \<lparr>fdContent = dat, fdMode = perm, fdFlushed = True\<rparr>"
      using s1 chmod_step [OF 2, of w0 allow tmp] fsync_step [OF 3, of w0 allow tmp] r assms(3)
      by auto
    have "sys_close w3 = (r, w')" using assms(1) 1 2 3 r by (simp add: writeTempFile_def)
    then show ?thesis using filled.close_keeps [of w3 r w' w0 allow i tmp "dkFiles w3 i"] f by auto
  qed
qed

text \<open>Where the write may leave something: missing directories above the target become directories, a free
  name of the temporary pattern becomes anything.\<close>

definition is_temp :: "fs_path \<Rightarrow> fs_path \<Rightarrow> bool" where
  "is_temp target q \<longleftrightarrow> (\<exists>r. q = ((base_name target @ ''.'') @ r @ ''.tmp'') # tl target)"

definition write_allows :: "disk \<Rightarrow> fs_path \<Rightarrow> fs_path \<Rightarrow> node option set" where
  "write_allows w target q =
     (if suffix q (tl target) then {Some DirNode}
      else if is_temp target q \<and> dk_entry w q = None then UNIV else {})"

lemma resolve_cong:
  "(\<And>p. p \<noteq> [] \<Longrightarrow> suffix p q \<Longrightarrow> ent p = ent' p) \<Longrightarrow> resolve ent q = resolve ent' q"
proof (induction q)
  case (Cons c d)
  have "resolve ent d = resolve ent' d" "ent (c # d) = ent' (c # d)"
    by (rule Cons.IH, rule Cons.prems; simp add: suffix_ConsI) (rule Cons.prems; simp)
  then show ?case by (auto split: sum.splits node.splits option.splits)
qed simp

lemma resolve_upd: "\<not> suffix p q \<Longrightarrow> resolve (ent(p := v)) q = resolve ent q"
  by (rule resolve_cong) auto

lemma not_suffix_tl:
  assumes "p \<noteq> []" "tl p = tl q" shows "\<not> suffix p (tl q)"
proof
  assume "suffix p (tl q)"
  then have "length p \<le> length (tl p)" by (metis assms(2) suffix_length_le)
  then show False using assms(1) by (cases p) simp_all
qed

lemma make_file_step:
  assumes v: "disk_frame w0 allow v" and p: "p \<noteq> []" "dk_lookup v (tl p) = Inr DirNode" "dk_entry v p = None"
    and u: "allow p = UNIV"
  shows "disk_frame w0 allow (snd (make_file p m v)) \<and> (\<forall>i. fst (make_file p m v) = Inr i \<longrightarrow>
    holding w0 allow i p (snd (make_file p m v)) \<and> fdContent (dkFiles (snd (make_file p m v)) i) = [])"
proof -
  have "\<not> suffix p (tl p)" using p(1) by (simp add: not_suffix_tl)
  then have l: "dk_lookup (snd (make_file p m v)) (tl p) = Inr DirNode"
    using p(2) by (simp add: make_file_def Let_def dk_lookup_def resolve_upd)
  have n0: "dkNext w0 \<le> dkNext v" using v by (simp add: disk_frame_def)
  have "disk_frame w0 allow (set_file (dkNext v) x (v\<lparr>dkNext := dkNext v + 1\<rparr>))" for x
    by (rule frame_set_file [OF frame_next [OF v] n0])
  then have f: "disk_frame w0 allow (snd (make_file p m v))"
    unfolding make_file_def Let_def snd_conv by (rule frame_set_entry) (simp_all add: u p(3))
  show ?thesis using f l u n0 by (simp add: holding_def make_file_def Let_def)
qed

lemma create_excl_step:
  assumes "sys_create_excl p m w = (r, w')" "disk_frame w0 allow w" "\<And>v. dk_entry v p = None \<Longrightarrow> disk_frame w0 allow v \<Longrightarrow> allow p = UNIV"
  shows "disk_frame w0 allow w' \<and> (\<forall>i. r = Inr i \<longrightarrow> holding w0 allow i p w' \<and> fdContent (dkFiles w' i) = [] \<and> allow p = UNIV)"
proof -
  let ?Q = "\<lambda>r w'. disk_frame w0 allow w' \<and> (\<forall>i. r = Inr i \<longrightarrow> holding w0 allow i p w' \<and> fdContent (dkFiles w' i) = [] \<and> allow p = UNIV)"
  have act: "?Q (fst (new_entry p (make_file p m) v)) (snd (new_entry p (make_file p m) v))" if v: "disk_frame w0 allow v" for v
  proof (cases "\<exists>e. new_entry p (make_file p m) v = (Inl e, v)")
    case True
    then show ?thesis using v by auto
  next
    case False
    then have n: "p \<noteq> []" "dk_lookup v (tl p) = Inr DirNode" "dk_entry v p = None"
      and r: "new_entry p (make_file p m) v = make_file p m v"
      using new_entry_cases [of p "make_file p m" v] by auto
    have u: "allow p = UNIV" by (rule assms(3) [OF n(3) v])
    show ?thesis using make_file_step [OF v n u] u unfolding r by simp
  qed
  have "?Q r w'"
    using assms(1) unfolding sys_create_excl_def
    by (rule framed.call [of _ _ _ _ w0 allow ?Q]) (auto simp: assms(2) act)
  then show ?thesis .
qed

lemma create_temp_step:
  assumes "os_create_temp d pre suf rs w = (r, w')" "disk_frame w0 allow w"
    and "\<And>x v. dk_entry v ((pre @ x @ suf) # d) = None \<Longrightarrow> disk_frame w0 allow v \<Longrightarrow> allow ((pre @ x @ suf) # d) = UNIV"
  shows "disk_frame w0 allow w' \<and> (\<forall>i tmp. r = Inr (i, tmp) \<longrightarrow>
    holding w0 allow i tmp w' \<and> fdContent (dkFiles w' i) = [] \<and> allow tmp = UNIV \<and> (\<exists>x. tmp = (pre @ x @ suf) # d))"
  using assms(1,2)
proof (induction rs arbitrary: w)
  case Nil
  then show ?case by auto
next
  case (Cons x rs)
  obtain r1 w1 where 1: "sys_create_excl ((pre @ x @ suf) # d) 384 w = (r1, w1)" by fastforce
  note s = create_excl_step [OF 1 Cons.prems(2) assms(3)]
  show ?case using Cons.prems(1) 1 s Cons.IH [of w1]
    by (cases r1) (auto split: fs_error.splits)
qed

definition promoted :: "disk \<Rightarrow> (fs_path \<Rightarrow> node option set) \<Rightarrow> nat \<Rightarrow> fs_path \<Rightarrow> file_data \<Rightarrow> disk \<Rightarrow> bool" where
  "promoted w0 allow i target f w \<longleftrightarrow>
     disk_frame w0 (allow(target := {Some (FileNode i)})) w \<and> dkNext w0 \<le> i \<and> dkFiles w i = f \<and>
     dk_lookup w target = Inr (FileNode i) \<and> dk_entry w0 target \<noteq> Some DirNode"

interpretation promoted: disk_property "promoted w0 allow i target f" for w0 allow i target f
  by unfold_locales (simp_all add: promoted_def framed.scripted framed.died framed.noted)

lemma promote:
  assumes h: "holding w0 allow i tmp v" and f: "dkFiles v i = f" and t: "tl tmp = tl target" "tmp \<noteq> target"
    "target \<noteq> []" "tmp \<noteq> []" and a: "allow tmp = UNIV" "allow target = {}" and nd: "dk_lookup v target \<noteq> Inr DirNode"
  shows "promoted w0 allow i target f (set_entry tmp None (set_entry target (Some (FileNode i)) v))"
proof -
  let ?al = "allow(target := {Some (FileNode i)})"
  have v: "disk_frame w0 ?al v" using h a(2) unfolding holding_def disk_frame_def by auto
  have "disk_frame w0 ?al (set_entry tmp None (set_entry target (Some (FileNode i)) v))"
    by (rule frame_set_entry, rule frame_set_entry, rule v)
      (use h a t in \<open>auto simp: holding_def\<close>)
  moreover have "resolve ((dk_entry v)(target := x, tmp := y)) (tl target) = Inr DirNode" for x y
    using h t not_suffix_tl [of tmp target] not_suffix_tl [of target target]
    by (simp add: holding_def dk_lookup_def resolve_upd)
  then have "resolve ((dk_entry v)(target := Some (FileNode i), tmp := None)) (hd target # tl target) = Inr (FileNode i)"
    using t(2,3) by (subst resolve_Cons_Inr) simp
  moreover have "dk_entry w0 target = dk_entry v target" using h a(2) by (simp add: holding_def disk_frame_def)
  moreover have "dk_entry v target \<noteq> Some DirNode"
  proof
    assume "dk_entry v target = Some DirNode"
    then have "resolve (dk_entry v) (hd target # tl target) = Inr DirNode"
      using h t by (subst resolve_Cons_Inr) (simp add: holding_def dk_lookup_def)
    then show False using nd t(3) by (simp add: dk_lookup_def)
  qed
  ultimately show ?thesis using h f t(3) by (simp add: promoted_def holding_def dk_lookup_def)
qed

lemma rename_act_file:
  assumes "dk_lookup u p = Inr (FileNode i)" "p \<noteq> q" "\<not> under p q" "dk_lookup u (tl q) = Inr DirNode"
  shows "rename_act p q u =
    (if dk_lookup u q = Inr DirNode then (Inl EISDIR, u)
     else (Inr (), set_entry p None (set_entry q (Some (FileNode i)) u)))"
  using assms by (auto simp: rename_act_def split: sum.splits node.splits)

lemma not_under_sibling: "tl p = tl q \<Longrightarrow> p \<noteq> q \<Longrightarrow> p \<noteq> [] \<Longrightarrow> q \<noteq> [] \<Longrightarrow> \<not> under p q"
  by (cases p; cases q) (auto simp: under_def)

lemma rename_promotes:
  assumes r: "os_rename tmp target w = (r, w')" and h: "holding w0 allow i tmp w" and f: "dkFiles w i = f"
    and t: "tl tmp = tl target" "tmp \<noteq> target" "target \<noteq> []" "tmp \<noteq> []" and a: "allow tmp = UNIV" "allow target = {}"
  shows "(\<exists>e. r = Inl e) \<and> disk_frame w0 allow w' \<or> r = Inr () \<and> promoted w0 allow i target f w'"
proof -
  let ?I = "\<lambda>w. holding w0 allow i tmp w \<and> dkFiles w i = f"
  let ?Q = "\<lambda>r w'. (\<exists>e. r = Inl e) \<and> disk_frame w0 allow w' \<or> r = Inr () \<and> promoted w0 allow i target f w'"
  have hf: "disk_frame w0 allow v" if "?I v" for v using that by (simp add: holding_def)
  have lk: "dk_lookup v tmp = Inr (FileNode i)" if "?I v" for v
    using that t(4) by (cases tmp) (simp_all add: holding_def dk_lookup_def)
  have act: "?Q (fst (rename_act tmp target v)) (snd (rename_act tmp target v))" if v: "?I v" for v
  proof -
    have "dk_lookup v (tl target) = Inr DirNode" using v t(1) by (simp add: holding_def)
    note e = rename_act_file [OF lk [OF v] t(2) not_under_sibling [OF t(1,2,4,3)] this]
    show ?thesis
    proof (cases "dk_lookup v target = Inr DirNode")
      case True
      then show ?thesis using e hf [OF v] by simp
    next
      case False
      then show ?thesis using e promote [of w0 allow i tmp v f target] v t a by simp
    qed
  qed
  have ren: "?Q x v'" if "sys_rename tmp target v = (x, v')" "?I v" for x v v'
    using that(1) unfolding sys_rename_def
    by (rule filled.call [of _ _ _ _ w0 allow i tmp f ?Q]) (use that(2) hf act in auto)
  obtain r1 w1 where 1: "sys_lstat target w = (r1, w1)" by fastforce
  have h1: "?I w1" using filled.lstat_keeps [OF 1, of w0 allow i tmp f] h f by simp
  obtain r2 w2 where 2: "sys_lstat tmp w1 = (r2, w2)" by fastforce
  have h2: "?I w2" using filled.lstat_keeps [OF 2, of w0 allow i tmp f] h1 by simp
  consider "r1 = Inr DirNode" | "os_rename tmp target w = sys_rename tmp target w1"
  proof (cases "r1 = Inr DirNode")
    case False
    then have "os_rename tmp target w = sys_rename tmp target w1"
      using 1 by (auto simp: os_rename_def split: sum.splits node.splits)
    then show ?thesis by (rule that)
  qed
  then show ?thesis
  proof cases
    case 1
    then show ?thesis using r \<open>sys_lstat target w = (r1, w1)\<close> 2 t(2) hf [OF h2]
      by (cases r2) (auto simp: os_rename_def)
  next
    case 2
    then show ?thesis using r ren [OF _ h1] by simp
  qed
qed

lemma allows_target: "target \<noteq> [] \<Longrightarrow> write_allows w target target = {}"
proof -
  assume t: "target \<noteq> []"
  then have "\<not> suffix target (tl target)" by (simp add: not_suffix_tl)
  moreover have "hd target \<noteq> (hd target @ ''.'') @ r @ ''.tmp''" for r
    by (metis append_assoc append_self_conv append_is_Nil_conv list.distinct(1))
  then have "\<not> is_temp target target"
    using t by (cases target) (auto simp: is_temp_def base_name_def)
  ultimately show ?thesis by (simp add: write_allows_def)
qed

lemma allows_temp:
  assumes "is_temp target p" "disk_frame w (write_allows w target) v" "dk_entry v p = None"
  shows "write_allows w target p = UNIV"
proof -
  have "p \<noteq> []" "tl p = tl target" using assms(1) by (auto simp: is_temp_def)
  then have s: "\<not> suffix p (tl target)" by (metis not_suffix_tl)
  show ?thesis
  proof (cases "dk_entry w p = None")
    case True
    then show ?thesis using s assms(1) by (simp add: write_allows_def)
  next
    case False
    then have "write_allows w target p = {}" using s by (simp add: write_allows_def)
    then have "dk_entry v p = dk_entry w p" using assms(2) by (simp add: disk_frame_def)
    then show ?thesis using False assms(3) by simp
  qed
qed

lemma allows_mkdir:
  assumes "disk_frame w (write_allows w target) v" "suffix q (tl target)" "dk_entry v q = None"
  shows "disk_frame w (write_allows w target) (set_entry q (Some DirNode) v)"
  by (rule frame_set_entry [OF assms(1)]) (simp_all add: write_allows_def assms)

lemma every_entry [simp]: "UNIV \<noteq> {x :: node option}"
  by (cases x) auto

lemma temp_removal_frame:
  assumes "os_remove tmp v = (r, v')" "disk_frame w0 allow v" "allow tmp = UNIV"
  shows "disk_frame w0 allow v'"
  by (rule framed.remove_keeps [OF assms(1,2)]) (rule frame_set_entry; simp add: assms(3))

lemma promoted_settle: "promoted w0 allow i target f v \<Longrightarrow> promoted w0 allow i target f (settle_dir d v)"
  by (simp add: promoted_def frame_settle dk_lookup_def)

lemma WriteFileAtomic_outcome:
  assumes run: "WriteFileAtomic rnds target dat perm w = (r, w')" and w: "ids_fresh w" and t: "target \<noteq> []"
  shows "(\<exists>e. r = Inl e) \<and> disk_frame w (write_allows w target) w' \<or>
    r = Inr () \<and> (\<exists>i. promoted w (write_allows w target) i target \<lparr>fdContent = dat, fdMode = perm, fdFlushed = True\<rparr> w')"
proof -
  let ?al = "write_allows w target" and ?f = "\<lparr>fdContent = dat, fdMode = perm, fdFlushed = True\<rparr>"
  obtain lowest v0 where 0: "deepestExistingDir (tl target) w = (lowest, v0)" by fastforce
  have f0: "disk_frame w ?al v0" by (rule framed.deepest_keeps [OF 0 disk_frame_refl [OF w]])
  obtain r1 v1 where 1: "os_mkdir_all (tl target) v0 = (r1, v1)" by fastforce
  have f1: "disk_frame w ?al v1" using framed.mkdir_all_keeps [OF 1 f0] allows_mkdir by blast
  obtain r2 v2 where 2: "CreateTemp (tl target) (base_name target) rnds v1 = (r2, v2)" by fastforce
  have s2: "disk_frame w ?al v2 \<and> (\<forall>i tmp. r2 = Inr (i, tmp) \<longrightarrow> holding w ?al i tmp v2 \<and>
      fdContent (dkFiles v2 i) = [] \<and> ?al tmp = UNIV \<and> is_temp target tmp)"
  proof (cases "CHR ''/'' \<in> set (base_name target)")
    case True
    then show ?thesis using 2 f1 by (auto simp: CreateTemp_def)
  next
    case False
    then show ?thesis
      using 2 create_temp_step [of "tl target" "base_name target @ ''.''" "''.tmp''" "take 10000 rnds" v1 r2 v2 w ?al] f1
        allows_temp [of target _ w]
      by (fastforce simp: CreateTemp_def is_temp_def)
  qed
  show ?thesis
  proof (cases r1)
    case (Inl e)
    then show ?thesis using run 0 1 f1 by (auto simp: WriteFileAtomic_def)
  next
    case r1: (Inr u)
    show ?thesis
    proof (cases r2)
      case (Inl e)
      then show ?thesis using run 0 1 2 r1 s2 by (auto simp: WriteFileAtomic_def)
    next
      case (Inr x)
      obtain i tmp where x: "r2 = Inr (i, tmp)" using Inr by (cases x) simp
      then have h: "holding w ?al i tmp v2" "fdContent (dkFiles v2 i) = []" "?al tmp = UNIV" "is_temp target tmp"
        using s2 by simp_all
      obtain r3 v3 where 3: "writeTempFile i dat perm v2 = (r3, v3)" by fastforce
      note s3 = writeTempFile_step [OF 3 h(1,2)]
      show ?thesis
      proof (cases r3)
        case (Inl e)
        obtain c v4 where 4: "sys_close v3 = (c, v4)" by fastforce
        have "disk_frame w ?al v4" using framed.close_keeps [OF 4, of w ?al] s3 by (simp add: holding_def)
        then have "disk_frame w ?al (snd (os_remove tmp v4))"
          using temp_removal_frame [of tmp v4 _ _ w ?al] h(3) by (cases "os_remove tmp v4") auto
        then show ?thesis using run 0 1 2 3 4 r1 x Inl by (auto simp: WriteFileAtomic_def)
      next
        case r3: (Inr u3)
        obtain r4 v4 where 4: "os_rename tmp target v3 = (r4, v4)" by fastforce
        have tt: "tl tmp = tl target" "tmp \<noteq> target" "tmp \<noteq> []"
          using h(3,4) allows_target [OF t, of w] by (auto simp: is_temp_def)
        have s4: "(\<exists>e. r4 = Inl e) \<and> disk_frame w ?al v4 \<or> r4 = Inr () \<and> promoted w ?al i target ?f v4"
          by (rule rename_promotes [OF 4]) (use s3 r3 tt t h(3) allows_target [OF t] in auto)
        show ?thesis
        proof (cases r4)
          case (Inl e)
          then have "disk_frame w ?al (snd (os_remove tmp v4))"
            using temp_removal_frame [of tmp v4 _ _ w ?al] h(3) s4 by (cases "os_remove tmp v4") auto
          then show ?thesis using run 0 1 2 3 4 r1 x r3 Inl by (auto simp: WriteFileAtomic_def)
        next
          case (Inr u4)
          then have "promoted w ?al i target ?f (syncCreatedChain (tl target) lowest v4)"
            using s4 by (intro promoted.sync_chain_keeps promoted_settle) simp_all
          then show ?thesis using run 0 1 2 3 4 r1 x r3 Inr by (auto simp: WriteFileAtomic_def)
        qed
      qed
    qed
  qed
qed

section \<open>Reading after a crash\<close>

lemma resolve_file_iff:
  "resolve ent (c # d) = Inr (FileNode i) \<longleftrightarrow> resolve ent d = Inr DirNode \<and> ent (c # d) = Some (FileNode i)"
  by (rule resolve_Cons_Inr)

lemma resolve_dir_iff: "resolve ent d = Inr DirNode \<longleftrightarrow> (\<forall>q. q \<noteq> [] \<and> suffix q d \<longrightarrow> ent q = Some DirNode)"
proof (induction d)
  case (Cons c d)
  have "(\<forall>q. q \<noteq> [] \<and> suffix q (c # d) \<longrightarrow> ent q = Some DirNode) \<longleftrightarrow>
      ent (c # d) = Some DirNode \<and> (\<forall>q. q \<noteq> [] \<and> suffix q d \<longrightarrow> ent q = Some DirNode)"
    by (auto simp: suffix_Cons)
  then show ?case by (simp only: resolve_Cons_Inr Cons.IH) blast
qed simp

lemma read_at_iff:
  "p \<noteq> [] \<Longrightarrow> read_at ent dat p = Some x \<longleftrightarrow>
     (\<forall>q. q \<noteq> [] \<and> suffix q (tl p) \<longrightarrow> ent q = Some DirNode) \<and> (\<exists>i. ent p = Some (FileNode i) \<and> dat i = x)"
proof -
  assume "p \<noteq> []"
  then obtain c d where p: "p = c # d" by (cases p) auto
  have "read_at ent dat p = Some x \<longleftrightarrow> (\<exists>i. resolve ent p = Inr (FileNode i) \<and> dat i = x)"
    by (auto simp: read_at_def split: sum.splits node.splits)
  then show ?thesis unfolding p by (simp only: resolve_file_iff resolve_dir_iff list.sel) blast
qed

lemma read_at_root [simp]: "read_at ent dat [] = None"
  by (simp add: read_at_def)

lemma tree_dirs:
  assumes "tree_ok w" "Some n \<in> possible w p" "p \<noteq> []" "q \<noteq> []" "suffix q (tl p)"
  shows "dk_entry w q = Some DirNode"
  using assms(2,3,5)
proof (induction p arbitrary: n)
  case (Cons c d)
  then have d: "d \<noteq> []" using assms(4) by (auto simp: suffix_def)
  have e: "dk_entry w d = Some DirNode" using assms(1) Cons.prems(1) d unfolding tree_ok_def by blast
  show ?case
  proof (cases "q = d")
    case False
    then have "suffix q (tl d)" using Cons.prems(3) d by (cases d) (auto simp: suffix_Cons)
    then show ?thesis using Cons.IH [of DirNode] e d entry_possible [of w d] by simp
  qed (simp add: e)
qed simp

lemma crash_read_old_or_new:
  assumes t: "tree_ok w0" and fr: "disk_frame w0 allow w" and p: "p \<noteq> []"
    and dirs: "\<And>q. q \<noteq> [] \<Longrightarrow> suffix q (tl p) \<Longrightarrow> allow q = {Some DirNode}"
    and new: "\<And>v. v \<in> allow p \<Longrightarrow> \<exists>i. v = Some (FileNode i) \<and> fdFlushed (dkFiles w i) \<and> fdContent (dkFiles w i) = x"
    and img: "crash_image w ent dt"
  shows "read_at ent dt p = Some x \<or> (\<exists>ent0 dt0. crash_image w0 ent0 dt0 \<and> read_at ent0 dt0 p = read_at ent dt p)"
proof -
  define ent0 where "ent0 = (\<lambda>q. if ent q \<in> possible w0 q then ent q else dk_entry w0 q)"
  define dt0 where "dt0 = (\<lambda>i. if i < dkNext w0 then dt i else fdContent (dkFiles w0 i))"
  have im0: "crash_image w0 ent0 dt0"
    using img fr unfolding crash_image_def ent0_def dt0_def disk_frame_def by (auto simp: entry_possible)
  have poss: "ent q \<in> possible w0 q \<or> ent q \<in> allow q" for q
    using img fr unfolding crash_image_def disk_frame_def by blast
  have dir: "ent0 q = Some DirNode \<Longrightarrow> ent q = Some DirNode" if "q \<noteq> []" "suffix q (tl p)" for q
    using poss [of q] dirs [OF that] by (auto simp: ent0_def split: if_splits)
  have old: ?thesis if "ent p \<in> possible w0 p"
  proof -
    have e: "ent0 p = ent p" using that by (simp add: ent0_def)
    have "read_at ent0 dt0 p = read_at ent dt p"
    proof (cases "read_at ent dt p")
      case (Some y)
      then obtain i where i: "ent p = Some (FileNode i)" "dt i = y"
        and d: "\<forall>q. q \<noteq> [] \<and> suffix q (tl p) \<longrightarrow> ent q = Some DirNode"
        using read_at_iff [OF p, of ent dt y] by auto
      have "i < dkNext w0" using t that i(1) unfolding tree_ok_def ids_fresh_def by auto
      then have "read_at ent0 dt0 p = Some y"
        using d i e tree_dirs [OF t _ p, of "FileNode i"] that unfolding read_at_iff [OF p]
        by (auto simp: ent0_def dt0_def)
      then show ?thesis using Some by simp
    next
      case None
      have "read_at ent0 dt0 p \<noteq> Some y" for y
      proof
        assume "read_at ent0 dt0 p = Some y"
        then obtain i where "ent0 p = Some (FileNode i)"
          and d: "\<forall>q. q \<noteq> [] \<and> suffix q (tl p) \<longrightarrow> ent0 q = Some DirNode"
          using read_at_iff [OF p, of ent0 dt0 y] by auto
        then have "read_at ent dt p = Some (dt i)" using e dir unfolding read_at_iff [OF p] by auto
        then show False using None by simp
      qed
      then show ?thesis using None by (cases "read_at ent0 dt0 p") auto
    qed
    then show ?thesis using im0 by blast
  qed
  show ?thesis
  proof (cases "ent p \<in> possible w0 p")
    case True
    then show ?thesis by (rule old)
  next
    case False
    then obtain i where i: "ent p = Some (FileNode i)" "dt i = x"
      using poss [of p] new [of "ent p"] img by (auto simp: crash_image_def)
    show ?thesis
    proof (cases "read_at ent dt p")
      case (Some y)
      then show ?thesis using i by (auto simp: read_at_iff [OF p])
    next
      case None
      then obtain q where q: "q \<noteq> []" "suffix q (tl p)" "ent q \<noteq> Some DirNode"
        using i read_at_iff [OF p, of ent dt x] by auto
      then have "ent0 q \<noteq> Some DirNode" using dir by blast
      then have "read_at ent0 dt0 p \<noteq> Some y" for y using q read_at_iff [OF p, of ent0 dt0 y] by auto
      then have "read_at ent0 dt0 p = None" by (cases "read_at ent0 dt0 p") auto
      then show ?thesis using None im0 by metis
    qed
  qed
qed

lemma live_read_kept:
  assumes t: "tree_ok w0" and fr: "disk_frame w0 allow w" and r: "live_read w0 q = Some x"
    and al: "\<And>p. dk_entry w0 p \<noteq> None \<Longrightarrow> suffix p q \<Longrightarrow> allow p = {} \<or> allow p = {Some DirNode}"
  shows "live_read w q = Some x"
proof -
  have q: "q \<noteq> []" using r by (auto simp: live_read_def)
  note r' = r [unfolded live_read_def read_at_iff [OF q]]
  have same: "dk_entry w p = dk_entry w0 p" if "suffix p q" "dk_entry w0 p \<noteq> None" for p
    using al [OF that(2,1)] fr that(2) by (auto simp: disk_frame_def)
  obtain i where i: "dk_entry w0 q = Some (FileNode i)" "fdContent (dkFiles w0 i) = x" using r' by auto
  have "i < dkNext w0" using t i(1) entry_possible [of w0 q] by (auto simp: tree_ok_def ids_fresh_def)
  moreover have "suffix p q" if "suffix p (tl q)" for p
    using that q by (metis list.collapse suffix_ConsI)
  ultimately show ?thesis using r' i same fr unfolding live_read_def read_at_iff [OF q]
    by (fastforce simp: disk_frame_def)
qed

lemma allows_dirs: "suffix q (tl target) \<Longrightarrow> write_allows w target q = {Some DirNode}"
  by (simp add: write_allows_def)

lemma allows_existing: "dk_entry w p \<noteq> None \<Longrightarrow> write_allows w target p = {} \<or> write_allows w target p = {Some DirNode}"
  by (auto simp: write_allows_def)

text \<open>C2. A write through the atomic writer is all or nothing, whatever call fails and whenever the process
  dies: a file in the place of the target holds, to a reader at any moment and to whoever comes after
  a crash, either the new content in full or what it could hold before the write; an error leaves
  the target as it was; success puts the new content and mode there; no other file changes.\<close>

theorem atomic_write_is_all_or_nothing:
  assumes run: "WriteFileAtomic rnds target dat perm w = (r, w')" and w: "tree_ok w" and t: "target \<noteq> []"
  shows "crash_reads w' target \<subseteq> insert (Some dat) (crash_reads w target) \<and>
         (r \<noteq> Inr () \<longrightarrow> live_read w' target = live_read w target) \<and>
         (r = Inr () \<longrightarrow> live_read w' target = Some dat \<and>
            (\<exists>i. dk_lookup w' target = Inr (FileNode i) \<and> fdMode (dkFiles w' i) = perm)) \<and>
         (live_read w q = Some x \<and> q \<noteq> target \<longrightarrow> live_read w' q = Some x)"
proof -
  let ?al = "write_allows w target" and ?f = "\<lparr>fdContent = dat, fdMode = perm, fdFlushed = True\<rparr>"
  have fresh: "ids_fresh w" using w by (simp add: tree_ok_def)
  have at: "?al target = {}" by (rule allows_target [OF t])
  consider (err) e where "r = Inl e" "disk_frame w ?al w'"
    | (ok) i where "r = Inr ()" "promoted w ?al i target ?f w'"
    using WriteFileAtomic_outcome [OF run fresh t] by blast
  then show ?thesis
  proof cases
    case err
    have "dk_entry w' target = dk_entry w target" using err(2) at by (simp add: disk_frame_def)
    have miss: "live_read w' target = None" if n: "live_read w target = None"
    proof (rule ccontr)
      assume "live_read w' target \<noteq> None"
      then obtain y where y: "live_read w' target = Some y" by blast
      then obtain j where j: "dk_entry w target = Some (FileNode j)"
        using \<open>dk_entry w' target = dk_entry w target\<close> unfolding live_read_def read_at_iff [OF t] by auto
      have "Some (FileNode j) \<in> possible w target" using j entry_possible [of w target] by simp
      then have "live_read w target = Some (fdContent (dkFiles w j))"
        using tree_dirs [OF w _ t] j unfolding live_read_def read_at_iff [OF t] by auto
      then show False using n by simp
    qed
    have "live_read w' target = live_read w target"
      using miss live_read_kept [OF w err(2)] allows_existing by (cases "live_read w target") auto
    moreover have "live_read w q = Some x \<longrightarrow> live_read w' q = Some x"
      using live_read_kept [OF w err(2)] allows_existing by blast
    moreover have "read_at ent dt target = Some dat \<or>
        (\<exists>ent0 dt0. crash_image w ent0 dt0 \<and> read_at ent0 dt0 target = read_at ent dt target)"
      if "crash_image w' ent dt" for ent dt
      using that by (intro crash_read_old_or_new [OF w err(2) t]) (simp_all add: allows_dirs at)
    then have "crash_reads w' target \<subseteq> insert (Some dat) (crash_reads w target)"
      unfolding crash_reads_def by blast
    ultimately show ?thesis using err(1) by simp
  next
    case ok
    let ?al' = "?al(target := {Some (FileNode i)})"
    have fr: "disk_frame w ?al' w'" and f: "dkFiles w' i = ?f" and l: "dk_lookup w' target = Inr (FileNode i)"
      and nd: "dk_entry w target \<noteq> Some DirNode"
      using ok(2) by (simp_all add: promoted_def)
    have "live_read w' target = Some dat" using l f by (simp add: live_read_def read_at_def dk_lookup_def)
    moreover have "live_read w' q = Some x" if q: "live_read w q = Some x" "q \<noteq> target"
    proof (rule live_read_kept [OF w fr q(1)])
      fix p
      assume p: "dk_entry w p \<noteq> None" "suffix p q"
      have "p \<noteq> target"
      proof
        assume e: "p = target"
        then have qn: "q \<noteq> []" "suffix target (tl q)" using p(2) q(2) t by (cases q; auto simp: suffix_Cons)+
        then have "dk_entry w target = Some DirNode" using q(1) t unfolding live_read_def read_at_iff [OF qn(1)] by blast
        then show False using nd by simp
      qed
      then show "?al' p = {} \<or> ?al' p = {Some DirNode}" using allows_existing [OF p(1)] by simp
    qed
    moreover have "read_at ent dt target = Some dat \<or>
        (\<exists>ent0 dt0. crash_image w ent0 dt0 \<and> read_at ent0 dt0 target = read_at ent dt target)"
      if "crash_image w' ent dt" for ent dt
      using that not_suffix_tl [OF t refl]
      by (intro crash_read_old_or_new [OF w fr t]) (auto simp: allows_dirs f)
    then have "crash_reads w' target \<subseteq> insert (Some dat) (crash_reads w target)"
      unfolding crash_reads_def by blast
    ultimately show ?thesis using ok(1) l f by simp
  qed
qed

definition sample_disk :: "fate list \<Rightarrow> disk" where
  "sample_disk sc = \<lparr>
     dkEntries = [([''Nina''], DirNode), ([''a.nfo'', ''Nina''], FileNode 0)],
     dkStale = (\<lambda>_. []),
     dkFiles = (\<lambda>_. \<lparr>fdContent = ''old'', fdMode = 420, fdFlushed = True\<rparr>),
     dkNext = 1, dkScript = sc, dkAlive = True, dkNotes = []\<rparr>"

lemma sample_tree_ok: "tree_ok (sample_disk sc)"
  by (auto simp: tree_ok_def ids_fresh_def possible_def dk_entry_def sample_disk_def split: if_splits)

lemma sample_write:
  "fst (WriteFileAtomic [''7''] [''a.nfo'', ''Nina''] ''new'' 384 (sample_disk [])) = Inr ()"
  by code_simp

theorem atomic_write_is_all_or_nothing_witness:
  "live_read (snd (WriteFileAtomic [''7''] [''a.nfo'', ''Nina''] ''new'' 384 (sample_disk []))) [''a.nfo'', ''Nina''] = Some ''new''"
  using atomic_write_is_all_or_nothing [OF surjective_pairing sample_tree_ok, of "[''a.nfo'', ''Nina'']" "[''7'']" "''new''" 384 "[]"]
    sample_write by simp

section \<open>Runs without failures\<close>

definition calm :: "disk \<Rightarrow> bool" where
  "calm w \<longleftrightarrow> dkAlive w \<and> dkScript w = []"

lemma calm_call: "calm w \<Longrightarrow> syscall act w = act w"
  by (simp add: calm_def syscall_def)

lemma calm_simps [simp]:
  "calm (set_entry p v w) = calm w" "calm (set_file i f w) = calm w" "calm (settle_dir d w) = calm w"
  "calm (w\<lparr>dkNext := k\<rparr>) = calm w"
  by (simp_all add: calm_def)

lemmas calm_calls = sys_lstat_def sys_mkdir_def sys_create_excl_def sys_write_def sys_chmod_def sys_fsync_def
  sys_close_def sys_rename_def sys_open_dir_def sys_fsync_dir_def calm_call

text \<open>No file is in the way of the directory.\<close>

definition no_file_above :: "disk \<Rightarrow> fs_path \<Rightarrow> bool" where
  "no_file_above w d \<longleftrightarrow> (\<forall>q. q \<noteq> [] \<and> suffix q d \<longrightarrow> dk_entry w q = None \<or> dk_entry w q = Some DirNode)"

lemma no_file_above_Cons: "no_file_above w (c # d) \<Longrightarrow> no_file_above w d"
  by (simp add: no_file_above_def suffix_ConsI)

lemma tree_lookup_dir:
  assumes "tree_ok w" "dk_entry w d = Some DirNode"
  shows "dk_lookup w d = Inr DirNode"
proof (cases d)
  case (Cons c e)
  have "Some DirNode \<in> possible w d" using assms(2) entry_possible [of w d] by simp
  then have "dk_entry w q = Some DirNode" if "q \<noteq> []" "suffix q d" for q
    using tree_dirs [OF assms(1) _ _ that(1), of DirNode d] that assms(2) Cons by (auto simp: suffix_Cons)
  then show ?thesis by (simp add: dk_lookup_def resolve_dir_iff)
qed (simp add: dk_lookup_def)

lemma lookup_missing:
  assumes "tree_ok w" "no_file_above w d" "d \<noteq> []" "dk_entry w d = None"
  shows "dk_lookup w d = Inl ENOENT"
  using assms(2-)
proof (induction d)
  case (Cons c d)
  show ?case
  proof (cases "d = [] \<or> dk_entry w d = Some DirNode")
    case True
    then have "dk_lookup w d = Inr DirNode" using tree_lookup_dir [OF assms(1), of d] by (auto simp: dk_lookup_def)
    then show ?thesis using Cons.prems by (simp add: dk_lookup_def)
  next
    case False
    then have "dk_entry w d = None" using Cons.prems(1) by (auto simp: no_file_above_def suffix_ConsI)
    then have "dk_lookup w d = Inl ENOENT" using Cons.IH no_file_above_Cons [OF Cons.prems(1)] False by simp
    then show ?thesis by (simp add: dk_lookup_def)
  qed
qed simp

lemma no_file_above_cases:
  assumes "tree_ok w" "no_file_above w (c # d)"
  obtains "dk_entry w (c # d) = Some DirNode" "dk_lookup w (c # d) = Inr DirNode"
  | "dk_entry w (c # d) = None" "dk_lookup w (c # d) = Inl ENOENT"
proof (cases "dk_entry w (c # d)")
  case None
  then show ?thesis using that(2) lookup_missing [OF assms] by simp
next
  case (Some n)
  then have "dk_entry w (c # d) = Some DirNode" using assms(2) by (auto simp: no_file_above_def)
  then show ?thesis using that(1) tree_lookup_dir [OF assms(1)] by simp
qed

lemma deepest_calm:
  assumes "calm w" "tree_ok w" "no_file_above w d"
  shows "\<exists>low. deepestExistingDir d w = (low, w) \<and> suffix low d \<and> (low \<noteq> [] \<longrightarrow> dk_entry w low = Some DirNode) \<and>
    (\<forall>q. q \<noteq> [] \<and> suffix q d \<and> \<not> suffix q low \<longrightarrow> dk_entry w q = None)"
  using assms(3)
proof (induction d)
  case Nil
  then show ?case using assms(1)
    by (auto simp: deepestExistingDir.simps [of "[]"] calm_calls dk_lookup_def)
next
  case (Cons c d)
  from assms(2) Cons.prems show ?case
  proof (rule no_file_above_cases)
    assume "dk_entry w (c # d) = Some DirNode" "dk_lookup w (c # d) = Inr DirNode"
    then show ?thesis using assms(1)
      by (intro exI [of _ "c # d"]) (auto simp: deepestExistingDir.simps [of "c # d"] calm_calls)
  next
    assume n: "dk_entry w (c # d) = None" "dk_lookup w (c # d) = Inl ENOENT"
    obtain low where low: "deepestExistingDir d w = (low, w)" "suffix low d"
      "low \<noteq> [] \<longrightarrow> dk_entry w low = Some DirNode" "\<forall>q. q \<noteq> [] \<and> suffix q d \<and> \<not> suffix q low \<longrightarrow> dk_entry w q = None"
      using Cons.IH no_file_above_Cons [OF Cons.prems] by blast
    then show ?thesis using assms(1) n
      by (intro exI [of _ low]) (auto simp: deepestExistingDir.simps [of "c # d"] calm_calls suffix_Cons)
  qed
qed

lemma mkdir_all_calm:
  assumes "calm w" "tree_ok w" "no_file_above w d"
  shows "\<exists>w1. os_mkdir_all d w = (Inr (), w1) \<and> calm w1 \<and> dk_lookup w1 d = Inr DirNode \<and>
    (\<forall>q. \<not> suffix q d \<longrightarrow> dk_entry w1 q = dk_entry w q)"
  using assms(3)
proof (induction d)
  case Nil
  then show ?case using assms(1) by (auto simp: os_mkdir_all.simps [of "[]"] calm_calls dk_lookup_def)
next
  case (Cons c d)
  from assms(2) Cons.prems show ?case
  proof (rule no_file_above_cases)
    assume "dk_lookup w (c # d) = Inr DirNode"
    then show ?thesis using assms(1) by (auto simp: os_mkdir_all.simps [of "c # d"] calm_calls)
  next
    assume n: "dk_entry w (c # d) = None" "dk_lookup w (c # d) = Inl ENOENT"
    obtain w1 where w1: "os_mkdir_all d w = (Inr (), w1)" "calm w1" "dk_lookup w1 d = Inr DirNode"
      "\<forall>q. \<not> suffix q d \<longrightarrow> dk_entry w1 q = dk_entry w q"
      using Cons.IH no_file_above_Cons [OF Cons.prems] by blast
    have s: "\<not> suffix (c # d) d" using not_suffix_tl [of "c # d" "c # d"] by simp
    then have "dk_entry w1 (c # d) = None" using w1(4) n(1) by simp
    then have "sys_mkdir (c # d) w1 = (Inr (), set_entry (c # d) (Some DirNode) w1)"
      using w1(2,3) by (simp add: calm_calls new_entry_def dk_lookup_def)
    moreover have "dk_lookup (set_entry (c # d) (Some DirNode) w1) (c # d) = Inr DirNode"
      using w1(3) s by (simp add: dk_lookup_def resolve_upd)
    ultimately show ?thesis using assms(1) w1 n
      by (auto simp: os_mkdir_all.simps [of "c # d"] calm_calls suffix_Cons)
  qed
qed

lemma create_temp_calm:
  assumes "calm w" "dk_lookup w d = Inr DirNode" "x \<in> set rs" "dk_entry w ((pre @ x @ suf) # d) = None"
  shows "\<exists>i tmp w1. os_create_temp d pre suf rs w = (Inr (i, tmp), w1) \<and> calm w1 \<and>
    (\<forall>q. q \<noteq> tmp \<longrightarrow> dk_entry w1 q = dk_entry w q) \<and> tl tmp = d"
  using assms(3)
proof (induction rs)
  case (Cons y rs)
  let ?p = "(pre @ y @ suf) # d"
  show ?case
  proof (cases "dk_entry w ?p")
    case None
    then have "sys_create_excl ?p 384 w = make_file ?p 384 w"
      using assms(1,2) by (simp add: calm_calls new_entry_def dk_lookup_def)
    then show ?thesis using assms(1) by (simp add: make_file_def Let_def)
  next
    case (Some n)
    then have "sys_create_excl ?p 384 w = (Inl EEXIST, w)"
      using assms(1,2) by (simp add: calm_calls new_entry_def dk_lookup_def)
    moreover have "x \<in> set rs" using Cons.prems Some assms(4) by auto
    ultimately show ?thesis using Cons.IH by simp
  qed
qed simp

lemma write_all_calm: "calm w \<Longrightarrow> \<exists>w1. write_all i cs w = (Inr (), w1) \<and> calm w1 \<and> dk_entry w1 = dk_entry w"
proof (induction cs arbitrary: w)
  case (Cons c cs)
  let ?w1 = "set_file i ((dkFiles w i)\<lparr>fdContent := fdContent (dkFiles w i) @ [c], fdFlushed := False\<rparr>) w"
  have "sys_write i c w = (Inr (), ?w1)" using Cons.prems by (simp add: calm_calls)
  then show ?case using Cons.IH [of ?w1] Cons.prems by simp
qed simp

lemma writeTempFile_calm:
  "calm w \<Longrightarrow> \<exists>w1. writeTempFile i dat perm w = (Inr (), w1) \<and> calm w1 \<and> dk_entry w1 = dk_entry w"
proof -
  assume "calm w"
  then obtain w1 where w1: "write_all i dat w = (Inr (), w1)" "calm w1" "dk_entry w1 = dk_entry w"
    using write_all_calm by blast
  then show ?thesis by (simp add: writeTempFile_def calm_calls)
qed

lemma sync_target_calm:
  assumes "calm w" "dk_lookup w d = Inr DirNode"
  shows "syncTargetDir d w = settle_dir d w"
  using assms by (simp add: syncTargetDir_def SyncDir_def calm_calls)

lemma settle_dir_possible: "possible w q = {n} \<Longrightarrow> possible (settle_dir d w) q = {n}"
  using entry_possible [of w q] by simp

lemma possible_single: "possible w q = {n} \<Longrightarrow> dk_entry w q = n"
  using entry_possible [of w q] by simp

lemma sync_chain_calm:
  assumes "calm w" "dk_lookup w d = Inr DirNode" "suffix low d"
  shows "(\<forall>q. q \<noteq> [] \<and> suffix low (tl q) \<and> suffix (tl q) d \<longrightarrow>
      possible (syncCreatedChain d low w) q = {dk_entry w q}) \<and>
    (\<forall>q n. possible w q = {n} \<longrightarrow> possible (syncCreatedChain d low w) q = {n})"
  using assms
proof (induction d arbitrary: w)
  case Nil
  then show ?case
    by (simp add: syncCreatedChain.simps [of "[]"] sync_target_calm settle_dir_possible possible_single Let_def)
next
  case (Cons c d)
  let ?w1 = "settle_dir (c # d) w"
  have s: "syncTargetDir (c # d) w = ?w1" by (rule sync_target_calm [OF Cons.prems(1,2)])
  show ?case
  proof (cases "c # d = low")
    case True
    have "syncCreatedChain (c # d) low w = settle_dir (c # d) w"
      using s True unfolding syncCreatedChain.simps [of "c # d"] Let_def by simp
    moreover have "tl q = c # d" if "suffix low (tl q)" "suffix (tl q) (c # d)" for q
      using that True by (metis suffix_order.antisym)
    ultimately show ?thesis using settle_dir_possible [of w] by auto
  next
    case False
    then have low: "suffix low d" using Cons.prems(3) by (simp add: suffix_Cons)
    have l: "dk_lookup ?w1 d = Inr DirNode"
      using Cons.prems(2) by (simp only: dk_lookup_def resolve_Cons_Inr settle_dir_simps)
    have e: "syncCreatedChain (c # d) low w = syncCreatedChain d low ?w1"
      using s False by (simp add: syncCreatedChain.simps [of "c # d"] Let_def)
    note IH = Cons.IH [of ?w1, OF _ l low]
    show ?thesis unfolding e
    proof (intro conjI allI impI)
      fix q
      assume q: "q \<noteq> [] \<and> suffix low (tl q) \<and> suffix (tl q) (c # d)"
      show "possible (syncCreatedChain d low ?w1) q = {dk_entry w q}"
      proof (cases "tl q = c # d")
        case True
        then have "possible ?w1 q = {dk_entry w q}" using q by simp
        then show ?thesis using IH Cons.prems(1) by simp
      next
        case False
        then have "suffix (tl q) d" using q by (auto simp: suffix_Cons)
        then show ?thesis using IH Cons.prems(1) q by simp
      qed
    next
      fix q n
      assume "possible w q = {n}"
      then show "possible (syncCreatedChain d low ?w1) q = {n}"
        using IH Cons.prems(1) settle_dir_possible by simp
    qed
  qed
qed

lemma rename_calm:
  assumes "calm w" "dk_lookup w tmp = Inr (FileNode i)" "tl tmp = tl target" "tmp \<noteq> target" "tmp \<noteq> []" "target \<noteq> []"
    and "dk_lookup w (tl target) = Inr DirNode" "dk_lookup w target \<noteq> Inr DirNode"
  shows "os_rename tmp target w = (Inr (), set_entry tmp None (set_entry target (Some (FileNode i)) w))"
proof -
  have "sys_rename tmp target w = (Inr (), set_entry tmp None (set_entry target (Some (FileNode i)) w))"
    using assms rename_act_file [of w tmp i target] not_under_sibling [of tmp target] by (simp add: sys_rename_def calm_call)
  moreover have "sys_lstat target w = (dk_lookup w target, w)" using assms(1) by (simp add: sys_lstat_def calm_call)
  ultimately show ?thesis using assms(8) by (auto simp: os_rename_def split: sum.splits node.splits)
qed

text \<open>With no failing call the write succeeds, and everything on the way to the new file is on disk.\<close>

lemma calm_write:
  assumes w: "calm w" "tree_ok w" and t: "target \<noteq> []" "CHR ''/'' \<notin> set (hd target)"
    and above: "no_file_above w (tl target)" and nd: "dk_entry w target \<noteq> Some DirNode"
    and free: "x \<in> set (take 10000 rnds)" "dk_entry w (((hd target @ ''.'') @ x @ ''.tmp'') # tl target) = None"
    and settled: "\<And>q. q \<noteq> [] \<Longrightarrow> suffix q (tl target) \<Longrightarrow> dk_entry w q \<noteq> None \<Longrightarrow> dkStale w q = []"
  shows "\<exists>w'. WriteFileAtomic rnds target dat perm w = (Inr (), w') \<and>
    (\<forall>q. q \<noteq> [] \<and> suffix q target \<longrightarrow> possible w' q = {dk_entry w' q})"
proof -
  let ?d = "tl target" and ?al = "write_allows w target"
  obtain low where low: "deepestExistingDir ?d w = (low, w)" "suffix low ?d"
      "low \<noteq> [] \<Longrightarrow> dk_entry w low = Some DirNode"
    using deepest_calm [OF w above] by blast
  obtain w1 where w1: "os_mkdir_all ?d w = (Inr (), w1)" "calm w1" "dk_lookup w1 ?d = Inr DirNode"
      "\<And>q. \<not> suffix q ?d \<Longrightarrow> dk_entry w1 q = dk_entry w q"
    using mkdir_all_calm [OF w above] by blast
  let ?tmp = "((hd target @ ''.'') @ x @ ''.tmp'') # ?d"
  have b: "base_name target = hd target" using t(1) by (cases target) (simp_all add: base_name_def)
  have ns: "\<not> suffix ?tmp ?d" "\<not> suffix target ?d" using not_suffix_tl [of ?tmp target] not_suffix_tl [of target target] t(1) by simp_all
  have "dk_entry w1 ?tmp = None" using w1(4) [OF ns(1)] free(2) by simp
  then obtain i tmp w2 where w2: "os_create_temp ?d (hd target @ ''.'') ''.tmp'' (take 10000 rnds) w1 = (Inr (i, tmp), w2)"
      "calm w2" "\<And>q. q \<noteq> tmp \<Longrightarrow> dk_entry w2 q = dk_entry w1 q" "tl tmp = ?d"
    using create_temp_calm [OF w1(2,3) free(1), of "hd target @ ''.''" "''.tmp''"] by auto
  have f1: "disk_frame w ?al w1"
    using framed.mkdir_all_keeps [OF w1(1) disk_frame_refl] allows_mkdir w(2) by (auto simp: tree_ok_def)
  have h2: "holding w ?al i tmp w2" "?al tmp = UNIV" "is_temp target tmp"
    using create_temp_step [OF w2(1) f1] allows_temp [of target _ w] b by (fastforce simp: is_temp_def)+
  obtain w3 where w3: "writeTempFile i dat perm w2 = (Inr (), w3)" "calm w3" "dk_entry w3 = dk_entry w2"
    using writeTempFile_calm [OF w2(2)] by blast
  have tt: "tmp \<noteq> target" "tmp \<noteq> []" using h2(2,3) allows_target [OF t(1), of w] by (auto simp: is_temp_def)
  have "dk_lookup w3 tmp = Inr (FileNode i)" "dk_lookup w3 ?d = Inr DirNode"
    using h2(1) w2(4) w3(3) tt(2) by (cases tmp; simp add: holding_def dk_lookup_def)+
  moreover have "dk_entry w3 target \<noteq> Some DirNode" using w3(3) w2(3) w1(4) [OF ns(2)] tt(1) nd by metis
  then have "dk_lookup w3 (hd target # ?d) \<noteq> Inr DirNode" using t(1) by (simp only: dk_lookup_def resolve_Cons_Inr) simp
  then have "dk_lookup w3 target \<noteq> Inr DirNode" using t(1) by simp
  ultimately obtain w4 where w4: "os_rename tmp target w3 = (Inr (), w4)" "calm w4"
    using rename_calm [OF w3(2), of tmp i target] w2(4) tt t(1) w3(2) by simp
  have run: "WriteFileAtomic rnds target dat perm w = (Inr (), syncCreatedChain ?d low w4)"
    using low(1) w1(1) w2(1) w3(1) w4(1) t(2) b by (simp add: WriteFileAtomic_def CreateTemp_def)
  have "holding w ?al i tmp w3 \<and> dkFiles w3 i = \<lparr>fdContent = dat, fdMode = perm, fdFlushed = True\<rparr>"
    using writeTempFile_step [OF w3(1) h2(1)] create_temp_step [OF w2(1) f1] allows_temp [of target _ w] b
    by (fastforce simp: is_temp_def)
  then obtain f where p4: "promoted w ?al i target f w4"
    using rename_promotes [OF w4(1), of w ?al i] w2(4) tt t(1) h2(2) allows_target [OF t(1)] by auto
  have l4: "dk_lookup w4 ?d = Inr DirNode"
    using p4 t(1) by (cases target) (auto simp: promoted_def dk_lookup_def resolve_Cons_Inr simp del: resolve.simps)
  note chain = sync_chain_calm [OF w4(2) l4 low(2)]
  have same: "dk_entry (syncCreatedChain ?d low w4) q = n" if "possible (syncCreatedChain ?d low w4) q = {n}" for q n
    using that by (rule possible_single)
  have "\<exists>n. possible (syncCreatedChain ?d low w4) q = {n}" if q: "q \<noteq> []" "suffix q target" for q
  proof (cases "suffix low (tl q)")
    case True
    have "suffix (tl q) ?d" using q t(1) by (cases target; cases q) (auto simp: suffix_Cons suffix_ConsD)
    then have "possible (syncCreatedChain ?d low w4) q = {dk_entry w4 q}"
      using True q(1) by (intro conjunct1 [OF chain, rule_format]) simp
    then show ?thesis by (rule exI)
  next
    case False
    have qd: "suffix q ?d"
    proof (rule ccontr)
      assume "\<not> suffix q ?d"
      then have "q = target" using q t(1) by (cases target) (auto simp: suffix_Cons)
      then show False using False low(2) by simp
    qed
    have ql: "suffix q low"
      using suffix_same_cases [OF qd low(2)]
    proof
      assume "suffix low q"
      then show ?thesis using False q(1) by (cases q) (auto simp: suffix_Cons)
    qed
    have ln: "low \<noteq> []" using ql q(1) by auto
    then have "Some DirNode \<in> possible w low" using low(3) entry_possible [of w low] by simp
    then have "dk_entry w q \<noteq> None"
      using tree_dirs [OF w(2) _ ln q(1), of DirNode] low(3) ln ql by (cases low) (auto simp: suffix_Cons)
    then have "possible w q = {Some DirNode}" using settled [OF q(1) qd] above q(1) qd
      by (auto simp: possible_def no_file_above_def)
    moreover have "q \<noteq> target" using qd ns(2) by blast
    then have "possible w4 q \<subseteq> possible w q \<union> {Some DirNode}"
      using frame_possible [of w "?al(target := {Some (FileNode i)})" w4 q] p4 allows_dirs [OF qd, of w]
      by (simp add: promoted_def)
    ultimately have "possible w4 q \<subseteq> {Some DirNode}" by simp
    then have "possible w4 q = {Some DirNode}" using entry_possible [of w4 q] by auto
    then have "possible (syncCreatedChain ?d low w4) q = {Some DirNode}" by (rule conjunct2 [OF chain, rule_format])
    then show ?thesis by (rule exI)
  qed
  then have "\<forall>q. q \<noteq> [] \<and> suffix q target \<longrightarrow>
      possible (syncCreatedChain ?d low w4) q = {dk_entry (syncCreatedChain ?d low w4) q}"
    using same by metis
  then show ?thesis using run by blast
qed

text \<open>C9. When no call fails, the write succeeds, and a crash at any later moment finds the new content: every
  directory that had to be created on the way and the name of the file are on disk when the writer
  returns. The directories that existed before are taken to be on disk already.\<close>

theorem written_file_survives_a_crash:
  assumes w: "calm w" "tree_ok w" and t: "target \<noteq> []" "CHR ''/'' \<notin> set (hd target)"
    and above: "no_file_above w (tl target)" and nd: "dk_entry w target \<noteq> Some DirNode"
    and free: "x \<in> set (take 10000 rnds)" "dk_entry w (((hd target @ ''.'') @ x @ ''.tmp'') # tl target) = None"
    and settled: "\<And>q. q \<noteq> [] \<Longrightarrow> suffix q (tl target) \<Longrightarrow> dk_entry w q \<noteq> None \<Longrightarrow> dkStale w q = []"
  shows "\<exists>w'. WriteFileAtomic rnds target dat perm w = (Inr (), w') \<and> crash_reads w' target = {Some dat}"
proof -
  obtain w' where run: "WriteFileAtomic rnds target dat perm w = (Inr (), w')"
      and disk: "\<forall>q. q \<noteq> [] \<and> suffix q target \<longrightarrow> possible w' q = {dk_entry w' q}"
    using calm_write [OF w t above nd free settled] by blast
  obtain i where p: "promoted w (write_allows w target) i target \<lparr>fdContent = dat, fdMode = perm, fdFlushed = True\<rparr> w'"
    using WriteFileAtomic_outcome [OF run _ t(1)] w(2) by (auto simp: tree_ok_def)
  have "read_at ent dt target = Some dat" if img: "crash_image w' ent dt" for ent dt
  proof -
    have "ent q = dk_entry w' q" if "q \<noteq> []" "suffix q target" for q
      using img disk that by (auto simp: crash_image_def)
    then have "resolve ent target = dk_lookup w' target" unfolding dk_lookup_def by (rule resolve_cong)
    then show ?thesis using p img by (simp add: read_at_def promoted_def crash_image_def)
  qed
  then show ?thesis using run crash_reads_single by blast
qed

theorem written_file_survives_a_crash_witness:
  "\<exists>w'. WriteFileAtomic [''7''] [''b.nfo'', ''Live'', ''Nina''] ''new'' 384 (sample_disk []) = (Inr (), w') \<and>
    crash_reads w' [''b.nfo'', ''Live'', ''Nina''] = {Some ''new''}"
  by (rule written_file_survives_a_crash [OF _ sample_tree_ok, where x = "''7''"])
    (auto simp: calm_def no_file_above_def sample_disk_def dk_entry_def suffix_Cons)

end
