(* ===== verification/FileMoves.thy ===== *)
theory FileMoves
  imports Filesystem
begin

text \<open>
  Removing and moving files (\<open>RemoveFileSafe\<close> of \<open>internal/filesystem/atomic.go\<close>, \<open>rename.go\<close>), on the disk of
  the theory \<open>Filesystem\<close>: a removal that failed keeps the file, a moved file stays readable at every
  moment and survives a crash; a directory moved by copying may not (\<open>dir_move_can_lose_the_tree\<close>).
\<close>

section \<open>Removing and moving a file\<close>

text \<open>A file that sits at a path, with a set of paths where nothing is.\<close>

definition sits :: "disk \<Rightarrow> (fs_path \<Rightarrow> node option set) \<Rightarrow> fs_path set \<Rightarrow> nat \<Rightarrow> fs_path \<Rightarrow> disk \<Rightarrow> bool" where
  "sits w0 allow gone i p w \<longleftrightarrow>
     disk_frame w0 allow w \<and> dk_entry w p = Some (FileNode i) \<and> dk_lookup w (tl p) = Inr DirNode \<and>
     i < dkNext w \<and> (\<forall>q \<in> gone. dk_entry w q = None)"





lemma sits_mono: "sits w0 allow gone i p w \<Longrightarrow> gone' \<subseteq> gone \<Longrightarrow> sits w0 allow gone' i p w"
  by (auto simp: sits_def)
































lemma call_notes:
  assumes "syscall act w = (r, w')" "\<And>v. dkNotes (snd (act v)) = dkNotes v" "\<And>v. dkAlive (snd (act v)) = dkAlive v"
  shows "dkNotes w' = dkNotes w \<and> (dkAlive w' \<longrightarrow> dkAlive w)"
proof -
  have a: "dkNotes v' = dkNotes v \<and> dkAlive v' = dkAlive v" if "act v = (x, v')" for x v v'
    using assms(2) [of v] assms(3) [of v] that by simp
  show ?thesis using assms(1) unfolding syscall_def
    by (auto split: if_splits list.splits fate.splits dest!: a)
qed


lemma open_dir_notes: "sys_open_dir d w = (r, w') \<Longrightarrow> dkNotes w' = dkNotes w \<and> (dkAlive w' \<longrightarrow> dkAlive w)"
  unfolding sys_open_dir_def by (erule call_notes) simp_all









text \<open>The directory move has no such order: after the copying fallback the new tree is on no synced
  directory when the source is removed, so the move can report success and a crash still lose it.\<close>

theorem dir_move_can_lose_the_tree:
  "\<exists>w'. RenameDirAtomic 3 [''Nina''] [''New''] (sample_disk [Works, Fails EXDEV]) = Some (Inr (), w') \<and>
     dkNotes w' = [] \<and> live_read w' [''a.nfo'', ''New''] = Some ''old'' \<and>
     (\<exists>ent dt. crash_image w' ent dt \<and> read_at ent dt [''a.nfo'', ''New''] = None \<and>
        read_at ent dt [''a.nfo'', ''Nina''] = None)"
proof -
  obtain r w' where run: "RenameDirAtomic 3 [''Nina''] [''New''] (sample_disk [Works, Fails EXDEV]) = Some (r, w')"
      "r = Inr ()" "dkNotes w' = []" "live_read w' [''a.nfo'', ''New''] = Some ''old''"
      "dk_entry w' [''Nina''] = None" "None \<in> possible w' [''New'']"
  proof -
    have "case RenameDirAtomic 3 [''Nina''] [''New''] (sample_disk [Works, Fails EXDEV]) of None \<Rightarrow> False
      | Some (r, w') \<Rightarrow> r = Inr () \<and> dkNotes w' = [] \<and> live_read w' [''a.nfo'', ''New''] = Some ''old'' \<and>
          dk_entry w' [''Nina''] = None \<and> List.member (dkStale w' [''New'']) None"
      by code_simp
    then show ?thesis by (auto intro!: that simp: possible_def split: option.splits prod.splits)
  qed
  define ent where "ent = (dk_entry w')([''New''] := None)"
  have "crash_image w' ent (\<lambda>i. fdContent (dkFiles w' i))"
    using run(6) by (auto simp: crash_image_def ent_def entry_possible)
  moreover have "read_at ent dt [''a.nfo'', ''New''] = None" "read_at ent dt [''a.nfo'', ''Nina''] = None" for dt
    using run(5) by (simp_all add: read_at_def ent_def)
  ultimately show ?thesis using run(1-4) by blast
qed

end
