(* ===== verification/Retry.thy ===== *)
theory Retry
  imports Prelude "HOL-Library.Word"
begin

text \<open>
  Retrying rate-limited requests (\<open>internal/provider/retry.go\<close>). Durations are 64-bit words with the
  wrap-around of \<open>int64\<close>; a shift past the sign and the product of a header's seconds behave as in Go. The
  answers of the server, the clock, the random numbers and the cancellation of a wait are an environment
  indexed by the attempt; attempts are naturals. A panic of \<open>rand.Int64N\<close> is no value. Draining and closing
  the discarded bodies is left out, and so is the text of the errors.
\<close>

section \<open>Durations\<close>

text \<open>\<open>time.Duration\<close> is an \<open>int64\<close> of nanoseconds.\<close>

type_synonym duration = "64 word"

definition second :: duration where
  "second = 1000000000"

record retry_policy =
  rpMaxAttempts :: int
  rpMaxAttempts503 :: int
  rpBaseDelay :: duration
  rpMaxDelay :: duration

definition DefaultRetryPolicy :: retry_policy where
  "DefaultRetryPolicy = \<lparr>rpMaxAttempts = 3, rpMaxAttempts503 = 2, rpBaseDelay = second, rpMaxDelay = 30 * second\<rparr>"

definition capDelay :: "duration \<Rightarrow> duration \<Rightarrow> duration" where
  "capDelay d maxDelay =
     (if sint d < 0 then 0
      else if 0 < sint maxDelay \<and> sint maxDelay < sint d then maxDelay
      else d)"

text \<open>\<open>rand.Int64N(n)\<close> panics unless \<open>n > 0\<close>; the random number is an argument.\<close>

definition int64n :: "nat \<Rightarrow> duration \<Rightarrow> duration option" where
  "int64n rnd n = (if sint n \<le> 0 then None else Some (word_of_int (int rnd mod sint n)))"

definition jitteredBackoff :: "nat \<Rightarrow> duration \<Rightarrow> duration \<Rightarrow> nat \<Rightarrow> duration option" where
  "jitteredBackoff rnd base maxDelay attempt =
     (let c0 = push_bit attempt base;
          c = (if sint c0 \<le> 0 \<or> 0 < sint maxDelay \<and> sint maxDelay < sint c0 then maxDelay else c0) in
      if sint c \<le> 0 then Some 0 else int64n rnd (c + 1))"

text \<open>The \<open>Retry-After\<close> header: seconds, or a date, for which \<open>until\<close> gives the distance from now in
  nanoseconds (\<open>http.ParseTime\<close>). \<open>Time.Sub\<close> saturates.\<close>

definition parseRetryAfter :: "(string \<Rightarrow> int option) \<Rightarrow> string \<Rightarrow> duration \<times> bool" where
  "parseRetryAfter until value =
     (let v = trim_space value in
      if v = [] then (0, False)
      else case atoi v of
        Some secs \<Rightarrow> (word_of_int (if secs < 0 then 0 else secs) * second, True)
      | None \<Rightarrow>
          (case until v of
             Some d \<Rightarrow> (let s = max (- (2 ^ 63)) (min (2 ^ 63 - 1) d) in (word_of_int (if s < 0 then 0 else s), True))
           | None \<Rightarrow> (0, False)))"

definition nextWait :: "nat \<Rightarrow> retry_policy \<Rightarrow> int \<Rightarrow> nat \<Rightarrow> duration \<Rightarrow> bool \<Rightarrow> (duration \<times> bool) option" where
  "nextWait rnd policy status attempt retryAfter hasHeader =
     (if status = 503 then
        if rpMaxAttempts503 policy \<le> int attempt + 1 then Some (0, False)
        else if hasHeader then Some (capDelay retryAfter (rpMaxDelay policy), True)
        else map_option (\<lambda>d. (d, True)) (jitteredBackoff rnd (rpBaseDelay policy) (rpMaxDelay policy) attempt)
      else if status = 429 then
        if rpMaxAttempts policy \<le> int attempt + 1 then Some (0, False)
        else if hasHeader then Some (capDelay retryAfter (rpMaxDelay policy), True)
        else map_option (\<lambda>d. (d, True)) (jitteredBackoff rnd (rpBaseDelay policy) (rpMaxDelay policy) attempt)
      else Some (0, False))"

section \<open>The retry loop\<close>









section \<open>Bounds\<close>













lemma retry_after_seconds:
  assumes "trim_space v \<noteq> []" "atoi (trim_space v) = Some n"
  shows "parseRetryAfter until v = (word_of_int (if n < 0 then 0 else n) * second, True)"
  using assms by (simp add: parseRetryAfter_def)

text \<open>A large number of seconds overflows the duration: the server asks for three hundred years, the code
  comes back at once.\<close>

theorem long_retry_after_wraps:
  "sint (fst (parseRetryAfter until ''10000000000'')) < 0 \<and>
   nextWait rnd DefaultRetryPolicy 429 0 (fst (parseRetryAfter until ''10000000000'')) True = Some (0, True)"
proof -
  have t: "trim_space ''10000000000'' = ''10000000000''"
    by (simp add: trim_space_def trim_left_def trim_right_def is_space_def char_code_def)
  have v: "atoi (trim_space ''10000000000'') = Some 10000000000" "trim_space ''10000000000'' \<noteq> []"
    unfolding t by (simp_all add: atoi_def Let_def is_digit_def char_code_def)
  have w: "(word_of_int 10000000000 :: duration) * second = word_of_int (10000000000 * 1000000000)"
    unfolding second_def by (simp only: wi_hom_mult [symmetric] of_int_numeral)
  have e: "fst (parseRetryAfter until ''10000000000'') = word_of_int (10000000000 * 1000000000)"
    using retry_after_seconds [OF v(2,1), of until] w by simp
  have "sint (word_of_int (10000000000 * 1000000000) :: duration) = 10000000000000000000 - 2 ^ 64"
    by (simp add: sint_sbintrunc' signed_take_bit_eq_take_bit_shift take_bit_eq_mod)
  then show ?thesis unfolding e by (simp add: nextWait_def DefaultRetryPolicy_def capDelay_def del: of_int_numeral)
qed

end
