(* ===== verification/LanguagePrefs.thy ===== *)
theory LanguagePrefs
  imports Prelude
begin

text \<open>
  Language preferences: the validated list a user stores (\<open>internal/langpref/langpref.go\<close>) and the choice
  by it (\<open>internal/provider/language.go\<close>). Tags are byte strings; on a valid tag, which is ASCII, the case
  mapping is Go's. The JSON coder of the standard library is a pair of functions, the context carries
  the list itself.
\<close>

section \<open>The preference list\<close>





text \<open>The casing of one subtag: script, region, or other.\<close>

definition cased_part :: "string \<Rightarrow> string" where
  "cased_part p =
     (if length p = 4 then to_upper (take 1 p) @ to_lower (drop 1 p)
      else if length p = 2 \<and> is_letter (hd p) then to_upper p
      else to_lower p)"








section \<open>Choosing by preference\<close>

definition languageBase :: "string \<Rightarrow> string" where
  "languageBase tag =
     (let b = takeWhile (\<lambda>c. c \<noteq> CHR ''-'') tag in
      if CHR ''-'' \<in> set tag \<and> b \<noteq> [] then b else tag)"

fun match_loop :: "string \<Rightarrow> string list \<Rightarrow> int \<Rightarrow> int \<Rightarrow> int" where
  "match_loop loc [] i best = best"
| "match_loop loc (pref # prefs) i best =
     (let p = to_lower pref;
          score = (if loc = p then i * 2
                   else if languageBase loc = languageBase p then i * 2 + 1
                   else -1) in
      match_loop loc prefs (i + 1) (if 0 \<le> score \<and> (best < 0 \<or> score < best) then score else best))"

definition MatchLanguagePreference :: "string \<Rightarrow> string list \<Rightarrow> int" where
  "MatchLanguagePreference loc prefs =
     (if prefs = [] \<or> loc = [] then -1 else match_loop (to_lower loc) prefs 0 (-1))"

fun bio_loop :: "(string \<rightharpoonup> string) \<Rightarrow> string list \<Rightarrow> string \<Rightarrow> string" where
  "bio_loop candidates [] fallback = fallback"
| "bio_loop candidates (pref # prefs) fallback =
     (case candidates (languageBase (to_lower pref)) of
        Some bio \<Rightarrow> if bio \<noteq> [] then bio else bio_loop candidates prefs fallback
      | None \<Rightarrow> bio_loop candidates prefs fallback)"

definition SelectLocalizedBiography :: "(string \<rightharpoonup> string) \<Rightarrow> string list \<Rightarrow> string \<Rightarrow> string" where
  "SelectLocalizedBiography candidates prefs fallback =
     (if prefs = [] then fallback else bio_loop candidates prefs fallback)"

fun FirstMetadataLang :: "string list \<Rightarrow> string" where
  "FirstMetadataLang [] = []"
| "FirstMetadataLang (raw # rest) =
     (let lang = languageBase (to_lower (trim_space raw)) in if lang \<noteq> [] then lang else FirstMetadataLang rest)"

section \<open>The canonical form\<close>




lemma to_upper_to_upper [simp]: "to_upper (to_upper s) = to_upper s"
  by (simp add: to_upper_def)

lemma cased_part_lower: "to_lower (cased_part p) = to_lower p"
proof -
  have "to_lower (to_upper (take 1 p)) @ to_lower (to_lower (drop 1 p)) = to_lower (take 1 p @ drop 1 p)"
    by (simp only: to_lower_append to_lower_to_upper to_lower_idem)
  then show ?thesis by (simp add: cased_part_def to_lower_append)
qed

lemma cased_part_length [simp]: "length (cased_part p) = length p"
  using cased_part_lower [of p] by (metis length_to_lower)

lemma cased_part_Nil [simp]: "cased_part p = [] \<longleftrightarrow> p = []"
  using cased_part_length [of p] by (metis length_0_conv)








lemma to_lower_Nil [simp]: "to_lower p = [] \<longleftrightarrow> p = []"
  by (simp add: to_lower_def)



















section \<open>The best preference\<close>

definition same_base :: "string \<Rightarrow> string \<Rightarrow> bool" where
  "same_base loc p \<longleftrightarrow> languageBase (to_lower loc) = languageBase (to_lower p)"

lemma match_loop_done: "0 \<le> best \<Longrightarrow> best < 2 * i \<Longrightarrow> match_loop l ps i best = best"
proof (induction ps arbitrary: i)
  case (Cons p ps)
  then show ?case using Cons.IH [of "i + 1"] by (simp add: Let_def)
qed simp

lemma match_loop_first:
  "0 \<le> i \<Longrightarrow> match_loop (to_lower l) ps i (-1) =
     (case List.find (\<lambda>(j, p). same_base l p) (enumerate (nat i) ps) of
        None \<Rightarrow> -1
      | Some (j, p) \<Rightarrow> 2 * int j + (if to_lower l = to_lower p then 0 else 1))"
proof (induction ps arbitrary: i)
  case (Cons p ps)
  have n: "nat (i + 1) = Suc (nat i)" using Cons.prems by simp
  show ?case
  proof (cases "same_base l p")
    case True
    then show ?thesis using Cons.prems match_loop_done [of "i * 2" "i + 1" "to_lower l" ps]
        match_loop_done [of "i * 2 + 1" "i + 1" "to_lower l" ps]
      by (auto simp: same_base_def Let_def)
  next
    case False
    then have "to_lower l \<noteq> to_lower p" by (auto simp: same_base_def)
    then show ?thesis using Cons.IH [of "i + 1"] Cons.prems False n by (simp add: same_base_def Let_def)
  qed
qed simp

text \<open>The score is that of the first preference with the same base language, exact or not: an exact match
  further down never beats it, and there is no score without one.\<close>

theorem preference_order_decides:
  "MatchLanguagePreference loc prefs =
     (if loc = [] then -1
      else case List.find (\<lambda>(j, p). same_base loc p) (enumerate 0 prefs) of
        None \<Rightarrow> -1
      | Some (j, p) \<Rightarrow> 2 * int j + (if to_lower loc = to_lower p then 0 else 1))"
  using match_loop_first [of 0 loc prefs] by (simp add: MatchLanguagePreference_def)

end
