(* ===== verification/EventBus.thy ===== *)
theory EventBus
  imports Prelude
begin

text \<open>
  The event bus (\<open>internal/event/bus.go\<close>): a buffered channel, the handlers by type, and the goroutine that
  dispatches and, once stopped, drains. Publishers, subscribers and the worker are interleaved at their
  accesses to the channel and the table. An event is its type and an identity, a handler is a
  number; a handler that panics is recovered by the bus and counts as called. One worker is started.
\<close>

section \<open>The bus\<close>









section \<open>Runs\<close>


















end
