(* ===== verification/Spec2Isabelle.thy ===== *)
theory Spec2Isabelle
  imports LockGuard Duplicates Albums Reconcile MergeRefresh Conflict Updater RingLog Aimd FileMoves Retry LanguagePrefs EventBus
begin

text \<open>
  Verification library of Stillwater, a self-hosted manager of artist metadata and artwork written in
  Go. Names in this text such as \<open>internal/artist/merge.go\<close> are paths under \<open>src/\<close>.

  The program. Artist rows live in a SQLite table. Providers (MusicBrainz, Spotify and others) deliver
  metadata that the merge engine writes into a row under per-field policies and user locks; whatever is
  written passes the lock guard before it reaches the table. Candidates for an artist's MusicBrainz ID
  are admitted by the album gates, which compare the albums on disk with those of the candidate.
  Duplicates of an artist are reported and merged. Files and directories are written and moved through
  one atomic writer. The media servers (Emby, Jellyfin, Lidarr) know the same artists under items of
  their own: the platform links tie a row to these items, a rename on disk is propagated to the peers
  and the links are found again, a reconciler repairs links in the background. A conflict detector
  watches whether a peer writes files itself and closes the write gate then. An updater replaces the
  running binary. A ring buffer keeps the log, an adaptive controller the request rates.

  The theories, in the order of their imports.

  \<open>Prelude\<close>: Go's \<open>strings\<close> and \<open>strconv\<close> functions the code calls, on byte strings; \<open>fold_opt\<close>, a loop
  whose body may not return, with its loop rule; the locale \<open>guarded_run\<close> for runs of a partial step
  function (an invariant holds in every reachable state), interpreted by every concurrent component.

  \<open>ArtistModel\<close>: the artist row (\<open>internal/artist/model.go\<close>) with the accessors of
  \<open>service.go\<close>, one read and one write per field.

  \<open>Merge\<close>: \<open>internal/artist/merge.go\<close> and \<open>fieldname.go\<close>. \<open>ApplyMetadata\<close> runs the policy tables field
  by field. Shown: locked fields keep their content whatever the update; a no-clobber update overwrites
  nothing; the reported change and its one gap (a field cleared by the type rules after it was counted).

  \<open>LockGuard\<close>: \<open>internal/artist/lockguard.go\<close>. The guard compares the incoming row with the stored one and
  restores what is locked. Shown: it changes exactly the locked fields, the locked content is the same
  after any sequence of writes, it has nothing to restore after a merge, and an unreadable lock table
  refuses the write.

  \<open>Duplicates\<close>: \<open>internal/artist/duplicates.go\<close>, a union-find with path compression and a guard against
  joining two MusicBrainz IDs. Shown: the invariant of the forest, that no group mixes two IDs, that
  every two rows with a shared ID end in one group, termination of \<open>find\<close>.

  \<open>Similarity\<close>: \<open>internal/provider/similarity.go\<close>. The two-row edit distance equals the least length of an
  edit script, an inductive relation.

  \<open>Albums\<close>: \<open>albumsource.go\<close>, \<open>albums.go\<close>, \<open>albumgate.go\<close>, \<open>mbidcandidate.go\<close>, \<open>disambiguation.go\<close> of
  \<open>internal/artist\<close> with their callers in \<open>internal/api\<close> and \<open>internal/rule\<close>. Shown: an ID is only
  written on corroborating evidence, an adopted candidate leads by the margin, the number of fetches.

  \<open>PeerPaths\<close>, \<open>PlatformLinks\<close>, \<open>Relink\<close>, \<open>Reconcile\<close>, \<open>MergeRefresh\<close>: \<open>internal/connection/roots.go\<close>, the
  link table of \<open>internal/artist/sqlite_platform.go\<close>, and \<open>relink.go\<close>, \<open>rename_sync.go\<close>,
  \<open>lidarr_selfheal.go\<close>, \<open>relink_reconcile.go\<close>, \<open>merge_refresh.go\<close> of \<open>internal/publish\<close>. The locale
  \<open>link_store\<close> is the contract of the link table that the relink code relies on; it is interpreted on
  the table. Shown: the path guard is containment in a root; the table refines a map and its links stay
  unique; a rename returns, pushes only paths inside the roots, drops no link, and reports success only
  after a read-back; a link is replaced only by a unique item found at the directory; the reconciler
  refines single-link steps under concurrent writes and never drops a link.

  \<open>Conflict\<close>: \<open>internal/conflict\<close>. The callers of the detector are processes interleaved at their
  accesses to the cache and the refresh mutex (\<open>det_step\<close>). Shown: the gate closes unless every peer
  answered and none is in conflict; one sweep per five minutes; overlap is a shared directory.

  \<open>Semver\<close>, \<open>Updater\<close>: \<open>internal/updater\<close>. The locale \<open>version_order\<close> states what picking the newest
  release needs of a comparison; it is interpreted on releases and on nightly builds. The
  comparison is not transitive on pre-releases in general. The updater is a
  step relation over the calls in flight (\<open>up_step\<close>). Shown: only a verified download is installed, the
  cached release belongs to the configured channel, an automatic update was vetted.

  \<open>RingLog\<close>, \<open>Aimd\<close>: \<open>ringbuffer.go\<close> and \<open>logbroadcaster.go\<close> of \<open>internal/logging\<close>, \<open>aimd.go\<close> and
  \<open>ratelimit.go\<close> of \<open>internal/provider\<close>. The locale \<open>bounded_history\<close> is the contract of a bounded log,
  interpreted on the ring. Shown: indices stay in range, readers see the latest lines, every line of the
  live tail is received, waiting or counted as dropped, limits stay above their floor.

  \<open>Filesystem\<close>, \<open>FileMoves\<close>: \<open>atomic.go\<close>, \<open>rename.go\<close>, \<open>syncdir.go\<close> of \<open>internal/filesystem\<close> on a disk whose
  unsynced entries and data a crash may lose, under every pattern of failing calls and a death of the
  process at any call. The locale \<open>disk_property\<close> collects what every system call keeps; it is interpreted
  for each stage of a write, a removal and a move. Shown: a write is all or nothing and survives a
  crash, a failed removal keeps the file, a moved file is readable at every moment.

  \<open>Retry\<close>, \<open>LanguagePrefs\<close>, \<open>EventBus\<close>: \<open>internal/provider/retry.go\<close> with durations as 64-bit words (a
  rate-limited call is bounded in requests and waits, and its termination is that of the loop),
  \<open>internal/langpref/langpref.go\<close> and \<open>internal/provider/language.go\<close> (the stored list is canonical and reads
  back, the first preference with the same base language decides), \<open>internal/event/bus.go\<close> (every taken event
  is delivered in order, a stopped worker can always finish).

  Conventions. A Go struct is a record, a Go error a constructor or the left side of a sum, a nil
  pointer \<open>None\<close>. Go code outside the repository, HTTP peers and databases are arguments of the
  definitions or fields of an environment record, and every answer they can give is covered. Strings are
  byte strings, case mapping is that of ASCII, and the Unicode normalisation of identity keys and album
  names is a parameter. Counters that cannot reach 63 bits are naturals; \<open>atoi\<close> keeps the 64-bit range;
  rates are rational numbers where the code has floats. Poll loops run over the list of events the
  environment delivers, at most as many as the deadline allows, so they need no fuel. Maps that Go ranges
  over in any order are lists whose order is an argument.

  Witnesses (\<open>_witness\<close>) apply a property at a concrete input. Theorems that show behaviour the
  comments do not promise: \<open>gender_only_update_reports_change\<close>, \<open>managed_saver_still_on_permits\<close>,
  \<open>late_sweep_overwrites\<close>, \<open>second_apply_replaces_staged_binary\<close>,
  \<open>overlapping_saves_mix_channels\<close>, \<open>check_hides_running_apply\<close>, \<open>low_ceiling_defeats_control\<close>,
  \<open>long_retry_after_wraps\<close>,
  \<open>dir_move_can_lose_the_tree\<close>.

  Not modelled. The HTML templates (generated), the HTTP handlers and middleware (request and response
  glue), SQL repositories and migrations other than the link table (the logic is SQL), provider and peer
  HTTP clients and their JSON decoding, image decoding and scaling, NFO parsing (\<open>encoding/xml\<close>),
  authentication and encryption (library code), certificates, the rule engine's checkers and fixers, the
  scanner, settings import and export, maintenance jobs, webhooks, the command line.
  In the modelled parts, logging, message texts and JSON codecs are left out, and so are the tickers that
  start background runs.
\<close>

end
